(* ===== verification/GoPrelude.thy ===== *)
theory GoPrelude
  imports Main "HOL-Library.Finite_Map" "HOL-Library.Word" "HOL-Library.List_Lexorder"
    "HOL-Library.Char_ord" "HOL-Library.Multiset"
begin

text \<open>
  The parts of the Go language the model shares: 64-bit integers, maps with their unspecified
  iteration order, and \<^verbatim>\<open>range\<close> loops over them.  A Go map is a finite map
  (type \<open>fmap\<close>); a read of a missing key yields the zero value.  The order in which a
  \<^verbatim>\<open>range\<close> loop visits the keys of a map is not specified by the language, and may
  differ from one execution of the loop to the next: it is an oracle \<open>runtime\<close>, a
  parameter of every definition that iterates over a map.  The oracle is addressed by the path
  of the loop in the execution, so two loops over the same map may see two orders.
\<close>

section \<open>Fact collections\<close>

named_theorems go_simps \<open>evaluation of the Go primitives\<close>
named_theorems order_intros \<open>introduction rules for iteration orders\<close>
named_theorems state_simps \<open>unfolding of the components' operations\<close>

section \<open>Integers\<close>

text \<open>Go's \<^verbatim>\<open>int\<close> (on the 64-bit platforms the program is built for) and \<^verbatim>\<open>int64\<close>.\<close>

type_synonym int64 = "64 word"

definition int64_gt :: "int64 \<Rightarrow> int64 \<Rightarrow> bool" where
  "int64_gt a b \<longleftrightarrow> sint b < sint a"

text \<open>The conversions between the two types, both 64 bits wide here.\<close>

definition int_of_int64 :: "int64 \<Rightarrow> int64" where
  "int_of_int64 v = scast v"

definition int64_of_int :: "int64 \<Rightarrow> int64" where
  "int64_of_int v = scast v"

lemma int_conversions [simp]: "int_of_int64 v = v" "int64_of_int v = v"
  by (simp_all add: int_of_int64_def int64_of_int_def)

definition int64_max :: int where
  "int64_max = 2 ^ 63 - 1"

lemma sint_range: "- (2 ^ 63) \<le> sint (a :: int64) \<and> sint a \<le> int64_max"
  using sint_lt [of a] sint_ge [of a] by (simp add: int64_max_def)

lemma sint_of_int [simp]:
  "- (2 ^ 63) \<le> i \<Longrightarrow> i \<le> int64_max \<Longrightarrow> sint (word_of_int i :: int64) = i"
  by (simp add: int64_max_def sint_word_ariths signed_of_int signed_take_bit_int_eq_self)

lemma sint_add_exact:
  fixes a b :: int64
  assumes "- (2 ^ 63) \<le> sint a + sint b" and "sint a + sint b \<le> int64_max"
  shows "sint (a + b) = sint a + sint b"
proof -
  have "a + b = word_of_int (sint a + sint b)" by simp
  with assms show ?thesis by (simp del: of_int_add)
qed

lemma sint_of_nat: "int n \<le> int64_max \<Longrightarrow> sint (of_nat n :: int64) = int n"
proof -
  assume "int n \<le> int64_max"
  moreover have "(of_nat n :: int64) = word_of_int (int n)" by simp
  ultimately show ?thesis by (simp del: of_int_of_nat_eq)
qed

section \<open>Maps\<close>

text \<open>\<open>m[k]\<close> on a map of integers: the zero value where the key is missing.\<close>

definition get0 :: "('k, int64) fmap \<Rightarrow> 'k \<Rightarrow> int64" where
  "get0 m k = (case fmlookup m k of None \<Rightarrow> 0 | Some v \<Rightarrow> v)"

lemma get0_simps [simp]:
  "get0 fmempty k = 0"
  "get0 (fmupd k' v m) k = (if k = k' then v else get0 m k)"
  by (simp_all add: get0_def)

lemma get0_Some: "fmlookup m k = Some v \<Longrightarrow> get0 m k = v"
  by (simp add: get0_def)

lemma get0_None: "fmlookup m k = None \<Longrightarrow> get0 m k = 0"
  by (simp add: get0_def)

text \<open>\<open>m[k]\<close> on a map of maps: a nil map, which reads as an empty one, where the key is missing.\<close>

definition get_map :: "('k, ('j, 'v) fmap) fmap \<Rightarrow> 'k \<Rightarrow> ('j, 'v) fmap" where
  "get_map m k = (case fmlookup m k of None \<Rightarrow> fmempty | Some v \<Rightarrow> v)"

lemma get_map_simps [simp]:
  "get_map fmempty k = fmempty"
  "get_map (fmupd k' v m) k = (if k = k' then v else get_map m k)"
  by (simp_all add: get_map_def)

section \<open>Iteration orders\<close>

type_synonym 'k order = "'k fset \<Rightarrow> 'k list"
type_synonym runtime = "nat list \<Rightarrow> string order"

definition map_order :: "'k order \<Rightarrow> bool" where
  "map_order ord \<longleftrightarrow> (\<forall>A. distinct (ord A) \<and> fset_of_list (ord A) = A)"

definition map_runtime :: "runtime \<Rightarrow> bool" where
  "map_runtime rt \<longleftrightarrow> (\<forall>p. map_order (rt p))"

definition sub_run :: "runtime \<Rightarrow> nat \<Rightarrow> runtime" where
  "sub_run rt i = (\<lambda>p. rt (i # p))"

lemma map_order_distinct [order_intros]: "map_order ord \<Longrightarrow> distinct (ord A)"
  by (simp add: map_order_def)

lemma map_order_set: "map_order ord \<Longrightarrow> set (ord A) = fset A"
  unfolding map_order_def by (metis fset_of_list.rep_eq)

lemma map_runtime_order [order_intros]: "map_runtime rt \<Longrightarrow> map_order (rt p)"
  by (simp add: map_runtime_def)

lemma map_runtime_sub [order_intros]: "map_runtime rt \<Longrightarrow> map_runtime (sub_run rt i)"
  by (simp add: map_runtime_def sub_run_def)

text \<open>The address of a loop that runs once for each key of an outer loop.\<close>

definition at_key :: "runtime \<Rightarrow> string \<Rightarrow> runtime" where
  "at_key rt k = (\<lambda>p. rt (map of_char k @ 256 # p))"

lemma map_runtime_at_key [order_intros]: "map_runtime rt \<Longrightarrow> map_runtime (at_key rt k)"
  by (simp add: map_runtime_def at_key_def)

text \<open>Two concrete runtimes: keys in ascending and in descending order.\<close>

definition sorted_order :: "('k::linorder) order" where
  "sorted_order A = sorted_list_of_fset A"

definition sorted_runtime :: runtime where
  "sorted_runtime p = sorted_order"

definition reversed_runtime :: runtime where
  "reversed_runtime p A = rev (sorted_order A)"

lemma map_order_sorted [simp]: "map_order sorted_order"
  by (auto simp: map_order_def sorted_order_def sorted_list_of_fset.rep_eq fset_of_list.rep_eq
      simp flip: fset_inject)

lemma map_order_rev: "map_order ord \<Longrightarrow> map_order (\<lambda>A. rev (ord A))"
  by (simp add: map_order_def)

lemma map_runtime_sorted [simp]: "map_runtime sorted_runtime"
  by (simp add: map_runtime_def sorted_runtime_def [abs_def])

lemma map_runtime_reversed [simp]: "map_runtime reversed_runtime"
  unfolding map_runtime_def reversed_runtime_def [abs_def]
  by (simp add: map_order_rev)

section \<open>Range loops\<close>

definition range_step ::
    "('k, 'v) fmap \<Rightarrow> ('k \<Rightarrow> 'v \<Rightarrow> 's \<Rightarrow> 's) \<Rightarrow> 'k \<Rightarrow> 's \<Rightarrow> 's" where
  "range_step m body k s = (case fmlookup m k of None \<Rightarrow> s | Some v \<Rightarrow> body k v s)"

definition go_range ::
    "'k order \<Rightarrow> ('k, 'v) fmap \<Rightarrow> ('k \<Rightarrow> 'v \<Rightarrow> 's \<Rightarrow> 's) \<Rightarrow> 's \<Rightarrow> 's" where
  "go_range ord m body s = fold (range_step m body) (ord (fmdom m)) s"

lemma go_range_empty [simp]: "map_order ord \<Longrightarrow> go_range ord fmempty body s = s"
  using map_order_set [of ord "{||}"] by (simp add: go_range_def)

lemma range_step_cong:
  "(\<And>k v s. body k v s = body' k v s) \<Longrightarrow> range_step m body = range_step m body'"
  by (rule ext)+ (simp add: range_step_def split: option.split)

text \<open>The rule of a range loop: an invariant over the set of keys visited so far.\<close>

lemma fold_steps_rule:
  assumes "P A s" and "distinct ks" and "A \<inter> set ks = {}"
    and "\<And>B k v s. B \<subseteq> A \<union> set ks \<Longrightarrow> k \<notin> B \<Longrightarrow> fmlookup m k = Some v \<Longrightarrow> P B s \<Longrightarrow> P (insert k B) (body k v s)"
    and "set ks \<subseteq> fmdom' m"
  shows "P (A \<union> set ks) (fold (range_step m body) ks s)"
  using assms
proof (induction ks arbitrary: A s)
  case Nil
  then show ?case by simp
next
  case (Cons k ks)
  from Cons.prems(5) obtain v where v: "fmlookup m k = Some v" by (auto simp: fmlookup_dom'_iff)
  have "P (insert k A) (body k v s)" using Cons.prems v by auto
  then have "P (insert k A \<union> set ks) (fold (range_step m body) ks (body k v s))"
    using Cons.prems by (intro Cons.IH) auto
  moreover have "range_step m body k s = body k v s" by (simp add: range_step_def v)
  ultimately show ?case by simp
qed

lemma go_range_rule:
  assumes "map_order ord" and "P {} s"
    and "\<And>B k v s. B \<subseteq> fmdom' m \<Longrightarrow> k \<notin> B \<Longrightarrow> fmlookup m k = Some v \<Longrightarrow> P B s \<Longrightarrow> P (insert k B) (body k v s)"
  shows "P (fmdom' m) (go_range ord m body s)"
proof -
  have set: "set (ord (fmdom m)) = fmdom' m" by (simp add: map_order_set assms(1) fmdom'_alt_def)
  have "P ({} \<union> set (ord (fmdom m))) (fold (range_step m body) (ord (fmdom m)) s)"
    using assms(2) by (rule fold_steps_rule) (auto simp: set assms(1) map_order_distinct intro: assms(3))
  then show ?thesis by (simp add: go_range_def set)
qed

text \<open>
  A loop body that commutes with itself at different keys gives the same result in every order.
\<close>

locale range_body =
  fixes body :: "'k \<Rightarrow> 'v \<Rightarrow> 's \<Rightarrow> 's"
  assumes body_commute: "k \<noteq> k' \<Longrightarrow> body k v (body k' v' s) = body k' v' (body k v s)"
begin

lemma range_step_commute:
  "range_step m body k (range_step m body k' s) = range_step m body k' (range_step m body k s)"
  by (cases "k = k'") (auto simp: range_step_def body_commute split: option.split)

lemma fold_steps_mset: "mset ks = mset ks' \<Longrightarrow> fold (range_step m body) ks s = fold (range_step m body) ks' s"
  by (rule fold_multiset_equiv [THEN fun_cong]) (auto simp: fun_eq_iff range_step_commute)

lemma range_order_irrelevant:
  assumes "map_order ord" and "map_order ord'"
  shows "go_range ord m body s = go_range ord' m body s"
proof -
  have "mset (ord (fmdom m)) = mset (ord' (fmdom m))"
    using assms by (simp add: set_eq_iff_mset_eq_distinct [symmetric] map_order_distinct map_order_set)
  then show ?thesis unfolding go_range_def by (rule fold_steps_mset)
qed

end

text \<open>
  A body that only touches the entry of its own key in the map it builds: the loop's result is
  known entry by entry, whatever the order.
\<close>

locale pointwise_body =
  fixes body :: "'k \<Rightarrow> 'v \<Rightarrow> ('k, 'w) fmap \<Rightarrow> ('k, 'w) fmap"
    and upd :: "'k \<Rightarrow> 'v \<Rightarrow> 'w option \<Rightarrow> 'w option"
  assumes lookup_body:
    "fmlookup (body k v s) k' = (if k' = k then upd k v (fmlookup s k) else fmlookup s k')"
begin

lemma lookup_fold_notin:
  "k \<notin> set ks \<Longrightarrow> fmlookup (fold (range_step m body) ks s) k = fmlookup s k"
  by (induction ks arbitrary: s) (auto simp: range_step_def lookup_body split: option.split)

lemma lookup_fold:
  "distinct ks \<Longrightarrow> k \<in> set ks \<Longrightarrow>
   fmlookup (fold (range_step m body) ks s) k =
     (case fmlookup m k of None \<Rightarrow> fmlookup s k | Some v \<Rightarrow> upd k v (fmlookup s k))"
proof (induction ks arbitrary: s)
  case Nil
  then show ?case by simp
next
  case (Cons a ks)
  show ?case
  proof (cases "a = k")
    case True
    with Cons.prems have "k \<notin> set ks" by simp
    then have "fmlookup (fold (range_step m body) (a # ks) s) k = fmlookup (range_step m body k s) k"
      using True by (simp add: lookup_fold_notin)
    also have "\<dots> = (case fmlookup m k of None \<Rightarrow> fmlookup s k | Some v \<Rightarrow> upd k v (fmlookup s k))"
      by (simp add: range_step_def lookup_body split: option.split)
    finally show ?thesis .
  next
    case False
    then have "fmlookup (range_step m body a s) k = fmlookup s k"
      by (simp add: range_step_def lookup_body split: option.split)
    with False Cons show ?thesis by (simp split: option.split)
  qed
qed

lemma lookup_range:
  assumes "map_order ord"
  shows "fmlookup (go_range ord m body s) k =
    (case fmlookup m k of None \<Rightarrow> fmlookup s k | Some v \<Rightarrow> upd k v (fmlookup s k))"
proof (cases "k |\<in>| fmdom m")
  case True
  then have "k \<in> set (ord (fmdom m))" by (simp add: map_order_set assms)
  then show ?thesis unfolding go_range_def
    by (intro lookup_fold map_order_distinct assms)
next
  case False
  then have "k \<notin> set (ord (fmdom m))" by (simp add: map_order_set assms)
  then show ?thesis unfolding go_range_def using False
    by (simp add: lookup_fold_notin fmdom_notD)
qed

end

sublocale pointwise_body \<subseteq> range_body
  by unfold_locales (rule fmap_ext, auto simp: lookup_body)

text \<open>The loops that build a map entry by entry.\<close>

interpretation put_loop: pointwise_body "\<lambda>k v m. fmupd k (f k v) m" "\<lambda>k v _. Some (f k v)"
  for f :: "'k \<Rightarrow> 'v \<Rightarrow> 'w"
  by unfold_locales simp

lemma range_put_map:
  assumes "map_order ord"
  shows "go_range ord m (\<lambda>k v. fmupd k (f k v)) fmempty = fmmap_keys f m"
  using assms by (intro fmap_ext) (simp add: put_loop.lookup_range split: option.split)

lemma range_copy:
  "map_order ord \<Longrightarrow> go_range ord m (\<lambda>k v. fmupd k v) fmempty = m"
  by (simp add: range_put_map [where f = "\<lambda>_ v. v"] fmap_ext option.map_ident)

text \<open>The loops that add the values of a map up.\<close>

interpretation sum_loop: range_body "\<lambda>k v s. s + f k v"
  for f :: "'k \<Rightarrow> 'v \<Rightarrow> 'a::ab_semigroup_add"
  by unfold_locales (simp add: ac_simps)

definition fm_sum :: "('k, int64) fmap \<Rightarrow> int64" where
  "fm_sum m = (\<Sum>k\<in>fmdom' m. get0 m k)"

lemma fold_sum_step:
  "distinct ks \<Longrightarrow> fold (range_step m (\<lambda>k v s. s + v)) ks (s :: int64) = s + (\<Sum>k\<in>set ks. get0 m k)"
  by (induction ks arbitrary: s) (auto simp: range_step_def get0_def ac_simps split: option.split)

lemma range_sum:
  "map_order ord \<Longrightarrow> go_range ord m (\<lambda>k v s. s + v) (s :: int64) = s + fm_sum m"
  unfolding go_range_def fm_sum_def
  by (simp add: fold_sum_step map_order_distinct map_order_set fmdom'_alt_def)

end
