(* ===== verification/GCounter.thy ===== *)
theory GCounter
  imports GoPrelude
begin

text \<open>
  The grow-only counter of \<^verbatim>\<open>internal/crdt/gcounter.go\<close>: a map from node ids to
  64-bit counts, with a nil map distinguished from an empty one because the code tests for it.
  The abstract specification of a counter is a function from node ids to natural numbers;
  \<^verbatim>\<open>Merge\<close> refines the pointwise maximum, and the join laws and the convergence of
  any number of merges follow from a locale for state-based replicated types.
\<close>

section \<open>The counter and its operations\<close>

record gcounter =
  counts :: "(string, int64) fmap option"

text \<open>Reading a nil map is reading an empty one.\<close>

definition read_counts :: "gcounter \<Rightarrow> (string, int64) fmap" where
  "read_counts c = (case counts c of None \<Rightarrow> fmempty | Some m \<Rightarrow> m)"

definition NewGCounter :: gcounter where
  "NewGCounter = \<lparr>counts = Some fmempty\<rparr>"

definition Increment :: "gcounter \<Rightarrow> string \<Rightarrow> int64 \<Rightarrow> gcounter" where
  "Increment c nodeID delta =
     (let m = (case counts c of None \<Rightarrow> fmempty | Some m \<Rightarrow> m)
      in c\<lparr>counts := Some (fmupd nodeID (get0 m nodeID + delta) m)\<rparr>)"

definition merge_body :: "string \<Rightarrow> int64 \<Rightarrow> (string, int64) fmap \<Rightarrow> (string, int64) fmap" where
  "merge_body nodeID otherCount m =
     (if int64_gt otherCount (get0 m nodeID) then fmupd nodeID otherCount m else m)"

definition Merge :: "string order \<Rightarrow> gcounter \<Rightarrow> gcounter option \<Rightarrow> gcounter" where
  "Merge ord c other =
     (case other of
        None \<Rightarrow> c
      | Some oth \<Rightarrow>
          (let m = (case counts c of None \<Rightarrow> fmempty | Some m \<Rightarrow> m)
           in c\<lparr>counts := Some (go_range ord (read_counts oth) merge_body m)\<rparr>))"

definition Value :: "string order \<Rightarrow> gcounter \<Rightarrow> int64" where
  "Value ord c = go_range ord (read_counts c) (\<lambda>_ count total. total + count) 0"

definition Snapshot :: "string order \<Rightarrow> gcounter \<Rightarrow> (string, int64) fmap" where
  "Snapshot ord c = go_range ord (read_counts c) (\<lambda>nodeID count. fmupd nodeID count) fmempty"

definition FromSnapshot :: "string order \<Rightarrow> (string, int64) fmap \<Rightarrow> gcounter" where
  "FromSnapshot ord snapshot =
     (let c = NewGCounter
      in c\<lparr>counts := Some (go_range ord snapshot (\<lambda>nodeID count. fmupd nodeID count) (read_counts c))\<rparr>)"

text \<open>One node's component, the abstract counter, and the counters without zero or negative entries.\<close>

definition component :: "gcounter \<Rightarrow> string \<Rightarrow> int64" where
  "component c k = get0 (read_counts c) k"

definition abs_counter :: "gcounter \<Rightarrow> string \<Rightarrow> nat" where
  "abs_counter c k = nat (sint (component c k))"

definition grow_only :: "gcounter \<Rightarrow> bool" where
  "grow_only c \<longleftrightarrow> counts c \<noteq> None \<and> fmpred (\<lambda>_ v. 0 < sint v) (read_counts c)"

section \<open>What each operation does\<close>

lemma read_counts_simps [simp]:
  "read_counts \<lparr>counts = Some m\<rparr> = m"
  "read_counts (c\<lparr>counts := Some m\<rparr>) = m"
  "read_counts NewGCounter = fmempty"
  by (simp_all add: read_counts_def NewGCounter_def)

lemma component_new [simp]: "component NewGCounter k = 0"
  by (simp add: component_def)

lemma read_counts_Increment:
  "read_counts (Increment c i d) = fmupd i (component c i + d) (read_counts c)"
  unfolding Increment_def component_def Let_def by (simp add: read_counts_def [symmetric])

lemma component_Increment:
  "component (Increment c i d) k = (if k = i then component c i + d else component c k)"
  by (auto simp: component_def read_counts_Increment)

interpretation merge_loop: pointwise_body merge_body
    "\<lambda>_ v w. if int64_gt v (case w of None \<Rightarrow> 0 | Some x \<Rightarrow> x) then Some v else w"
  by unfold_locales (auto simp: merge_body_def get0_def)

lemma Merge_None [simp]: "Merge ord c None = c"
  by (simp add: Merge_def)

lemma counts_Merge:
  "counts (Merge ord c (Some oth)) = Some (go_range ord (read_counts oth) merge_body (read_counts c))"
  by (simp add: Merge_def read_counts_def)

lemma read_counts_Merge:
  "read_counts (Merge ord c (Some oth)) = go_range ord (read_counts oth) merge_body (read_counts c)"
  by (simp add: read_counts_def [of "Merge _ _ _"] counts_Merge)

lemma lookup_Merge:
  "map_order ord \<Longrightarrow>
   fmlookup (read_counts (Merge ord c (Some oth))) k =
     (case fmlookup (read_counts oth) k of
        None \<Rightarrow> fmlookup (read_counts c) k
      | Some v \<Rightarrow> if sint (component c k) < sint v then Some v else fmlookup (read_counts c) k)"
  by (simp add: read_counts_Merge merge_loop.lookup_range component_def get0_def int64_gt_def
      split: option.split)

lemma component_Merge:
  "map_order ord \<Longrightarrow>
   component (Merge ord c (Some oth)) k =
     (if k |\<in>| fmdom (read_counts oth) \<and> sint (component c k) < sint (component oth k)
      then component oth k else component c k)"
  unfolding component_def [of "Merge _ _ _"]
  by (auto simp: lookup_Merge get0_def component_def fmlookup_dom_iff split: option.split)

lemma Merge_order_irrelevant:
  assumes "map_order ord" and "map_order ord'"
  shows "Merge ord c other = Merge ord' c other"
  using merge_loop.range_order_irrelevant [OF assms]
  by (auto simp: Merge_def split: option.split)

lemma Snapshot_eq: "map_order ord \<Longrightarrow> Snapshot ord c = read_counts c"
  by (simp add: Snapshot_def range_copy)

lemma FromSnapshot_eq: "map_order ord \<Longrightarrow> FromSnapshot ord s = \<lparr>counts = Some s\<rparr>"
  by (simp add: FromSnapshot_def range_copy NewGCounter_def)

lemma Value_eq: "map_order ord \<Longrightarrow> Value ord c = fm_sum (read_counts c)"
  using range_sum [of ord "read_counts c" 0] by (simp add: Value_def)

section \<open>Refinement of the pointwise maximum\<close>

lemma abs_counter_Merge:
  assumes "map_order ord"
  shows "abs_counter (Merge ord c (Some oth)) = sup (abs_counter c) (abs_counter oth)"
proof (rule ext)
  fix k
  have "component oth k = 0" if "k |\<notin>| fmdom (read_counts oth)"
    using that by (simp add: component_def get0_def fmdom_notD)
  then show "abs_counter (Merge ord c (Some oth)) k = sup (abs_counter c) (abs_counter oth) k"
    by (auto simp: abs_counter_def component_Merge assms sup_nat_def)
qed

lemma abs_counter_Increment:
  assumes "0 \<le> sint (component c i)" and "0 \<le> sint d"
    and "sint (component c i) + sint d \<le> int64_max"
  shows "abs_counter (Increment c i d) = (abs_counter c)(i := abs_counter c i + nat (sint d))"
  using assms by (auto simp: abs_counter_def component_Increment sint_add_exact nat_add_distrib)

lemma abs_counter_FromSnapshot:
  "map_order ord \<Longrightarrow> map_order ord' \<Longrightarrow> abs_counter (FromSnapshot ord (Snapshot ord' c)) = abs_counter c"
  by (simp add: abs_counter_def [abs_def] FromSnapshot_eq Snapshot_eq component_def)

section \<open>The join laws\<close>

lemma grow_only_lookup:
  "grow_only c \<Longrightarrow> fmlookup (read_counts c) k = (if 0 < abs_counter c k then Some (component c k) else None)"
  by (auto simp: grow_only_def abs_counter_def component_def get0_def fmpred_iff split: option.split)

lemma sint_component_grow_only: "grow_only c \<Longrightarrow> sint (component c k) = int (abs_counter c k)"
  by (cases "fmlookup (read_counts c) k")
    (auto simp: abs_counter_def component_def get0_def grow_only_def fmpred_iff intro!: less_imp_le)

lemma grow_only_eqI:
  assumes "grow_only c" and "grow_only d" and "abs_counter c = abs_counter d"
  shows "c = d"
proof -
  have "sint (component c k) = sint (component d k)" for k
    using assms by (simp add: sint_component_grow_only)
  then have "component c k = component d k" for k
    by (rule signed_word_eqI)
  then have "fmlookup (read_counts c) k = fmlookup (read_counts d) k" for k
    using assms by (simp add: grow_only_lookup)
  then have "read_counts c = read_counts d" by (rule fmap_ext)
  moreover from assms have "counts c \<noteq> None" "counts d \<noteq> None" by (auto simp: grow_only_def)
  ultimately show ?thesis by (cases c, cases d) (auto simp: read_counts_def)
qed

lemma grow_only_new [simp]: "grow_only NewGCounter"
  by (simp add: grow_only_def NewGCounter_def read_counts_def)

lemma grow_only_Merge:
  assumes "map_order ord" and "grow_only c" and "grow_only oth"
  shows "grow_only (Merge ord c (Some oth))"
  using assms by (auto simp: grow_only_def fmpred_iff lookup_Merge counts_Merge
      split: option.splits if_splits)

lemma grow_only_Increment:
  assumes "grow_only c" and "0 < sint d" and "sint (component c i) + sint d \<le> int64_max"
  shows "grow_only (Increment c i d)"
proof -
  have "0 \<le> sint (component c i)" using assms(1) by (simp add: sint_component_grow_only)
  then have "0 < sint (component c i + d)" using assms by (simp add: sint_add_exact)
  then show ?thesis using assms(1)
    by (auto simp: grow_only_def read_counts_Increment) (simp add: Increment_def)
qed

text \<open>
  A state-based replicated type: a merge that is a join on the well-formed states.  Replicas
  that merged the same set of states agree, whatever the order and however often.
\<close>

locale state_crdt =
  fixes join :: "'s \<Rightarrow> 's \<Rightarrow> 's" and wf_state :: "'s \<Rightarrow> bool"
  assumes join_wf: "wf_state a \<Longrightarrow> wf_state b \<Longrightarrow> wf_state (join a b)"
    and join_commute: "wf_state a \<Longrightarrow> wf_state b \<Longrightarrow> join a b = join b a"
    and join_assoc: "wf_state a \<Longrightarrow> wf_state b \<Longrightarrow> wf_state c \<Longrightarrow> join (join a b) c = join a (join b c)"
    and join_idem: "wf_state a \<Longrightarrow> join a a = a"
begin

lemma join_right_commute:
  "wf_state s \<Longrightarrow> wf_state a \<Longrightarrow> wf_state b \<Longrightarrow> join (join s a) b = join (join s b) a"
  by (metis join_assoc join_commute)

lemma wf_foldl: "wf_state s \<Longrightarrow> (\<And>x. x \<in> set xs \<Longrightarrow> wf_state x) \<Longrightarrow> wf_state (foldl join s xs)"
  by (induction xs arbitrary: s) (auto simp: join_wf)

lemma foldl_join_swap:
  "wf_state s \<Longrightarrow> wf_state a \<Longrightarrow> (\<And>x. x \<in> set xs \<Longrightarrow> wf_state x) \<Longrightarrow>
   foldl join (join s a) xs = join (foldl join s xs) a"
  by (induction xs arbitrary: s) (auto simp: join_right_commute join_wf)

lemma foldl_absorb:
  "wf_state s \<Longrightarrow> (\<And>x. x \<in> set xs \<Longrightarrow> wf_state x) \<Longrightarrow> a \<in> set xs \<Longrightarrow>
   join (foldl join s xs) a = foldl join s xs"
proof (induction xs arbitrary: s)
  case Nil
  then show ?case by simp
next
  case (Cons x xs)
  show ?case
  proof (cases "a = x")
    case True
    with Cons.prems have "foldl join (join s x) xs = join (foldl join s xs) x"
      by (simp add: foldl_join_swap)
    with True Cons.prems show ?thesis by (simp add: join_assoc join_idem wf_foldl)
  next
    case False
    with Cons show ?thesis by (simp add: join_wf)
  qed
qed

lemma foldl_absorb_all:
  "wf_state s \<Longrightarrow> (\<And>x. x \<in> set ys \<Longrightarrow> wf_state x) \<Longrightarrow> set xs \<subseteq> set ys \<Longrightarrow>
   foldl join (foldl join s ys) xs = foldl join s ys"
  by (induction xs) (auto simp: foldl_absorb)

lemma foldl_append_swap:
  "wf_state s \<Longrightarrow> (\<And>x. x \<in> set xs \<Longrightarrow> wf_state x) \<Longrightarrow> (\<And>x. x \<in> set ys \<Longrightarrow> wf_state x) \<Longrightarrow>
   foldl join s (xs @ ys) = foldl join s (ys @ xs)"
proof (induction xs arbitrary: s)
  case Nil
  then show ?case by simp
next
  case (Cons x xs)
  then have "foldl join (join s x) (xs @ ys) = foldl join (join s x) (ys @ xs)"
    by (simp add: join_wf del: foldl_append)
  also have "foldl join (join s x) ys = join (foldl join s ys) x"
    using Cons.prems by (simp add: foldl_join_swap)
  then have "foldl join (join s x) (ys @ xs) = foldl join s (ys @ x # xs)" by simp
  finally show ?case by simp
qed

lemma joins_converge:
  assumes "wf_state s" and "\<And>x. x \<in> set xs \<Longrightarrow> wf_state x" and "set xs = set ys"
  shows "foldl join s xs = foldl join s ys"
proof -
  have "foldl join s ys = foldl join s (ys @ xs)"
    using assms by (simp add: foldl_absorb_all)
  also have "\<dots> = foldl join s (xs @ ys)"
    using assms by (intro foldl_append_swap) auto
  also have "\<dots> = foldl join s xs"
    using assms foldl_absorb_all [of s xs ys] by simp
  finally show ?thesis by simp
qed

end

interpretation gcrdt: state_crdt "\<lambda>a b. Merge sorted_order a (Some b)" grow_only
proof
  fix a b c :: gcounter
  assume "grow_only a"
  then show "Merge sorted_order a (Some a) = a"
    by (intro grow_only_eqI) (auto simp: grow_only_Merge abs_counter_Merge)
  assume "grow_only b"
  with \<open>grow_only a\<close> show "grow_only (Merge sorted_order a (Some b))"
    by (simp add: grow_only_Merge)
  from \<open>grow_only a\<close> \<open>grow_only b\<close> show "Merge sorted_order a (Some b) = Merge sorted_order b (Some a)"
    by (intro grow_only_eqI) (auto simp: grow_only_Merge abs_counter_Merge sup_commute)
  assume "grow_only c"
  with \<open>grow_only a\<close> \<open>grow_only b\<close>
  show "Merge sorted_order (Merge sorted_order a (Some b)) (Some c) =
      Merge sorted_order a (Some (Merge sorted_order b (Some c)))"
    by (intro grow_only_eqI) (auto simp: grow_only_Merge abs_counter_Merge sup_assoc)
qed

text \<open>Merging a sequence of replicas, each loop in an order of its own.\<close>

definition merge_all :: "gcounter \<Rightarrow> (string order \<times> gcounter) list \<Rightarrow> gcounter" where
  "merge_all c rs = foldl (\<lambda>c (ord, oth). Merge ord c (Some oth)) c rs"

lemma merge_all_sorted:
  "(\<And>ord oth. (ord, oth) \<in> set rs \<Longrightarrow> map_order ord) \<Longrightarrow>
   merge_all c rs = foldl (\<lambda>a b. Merge sorted_order a (Some b)) c (map snd rs)"
proof (induction rs arbitrary: c)
  case Nil
  then show ?case by (simp add: merge_all_def)
next
  case (Cons r rs)
  obtain ord oth where r: "r = (ord, oth)" by force
  with Cons.prems have "Merge ord c (Some oth) = Merge sorted_order c (Some oth)"
    by (intro Merge_order_irrelevant) auto
  moreover have "merge_all (Merge sorted_order c (Some oth)) rs =
      foldl (\<lambda>a b. Merge sorted_order a (Some b)) (Merge sorted_order c (Some oth)) (map snd rs)"
    by (rule Cons.IH) (meson Cons.prems list.set_intros(2))
  ultimately show ?case by (simp add: merge_all_def r)
qed

lemma merge_all_converges:
  assumes "grow_only c" and "\<And>ord oth. (ord, oth) \<in> set rs \<union> set rs' \<Longrightarrow> map_order ord \<and> grow_only oth"
    and "snd ` set rs = snd ` set rs'"
  shows "merge_all c rs = merge_all c rs'"
proof -
  have "foldl (\<lambda>a b. Merge sorted_order a (Some b)) c (map snd rs) =
      foldl (\<lambda>a b. Merge sorted_order a (Some b)) c (map snd rs')"
    using assms by (intro gcrdt.joins_converge) force+
  then show ?thesis
    using assms(2) by (subst (1 2) merge_all_sorted) auto
qed

section \<open>The value\<close>

definition counter_total :: "gcounter \<Rightarrow> int" where
  "counter_total c = (\<Sum>k\<in>fmdom' (read_counts c). sint (component c k))"

lemma fm_sum_exact:
  assumes "finite A" and "\<And>k. k \<in> A \<Longrightarrow> 0 \<le> sint (f k)" and "(\<Sum>k\<in>A. sint (f k)) \<le> int64_max"
  shows "sint (\<Sum>k\<in>A. f k :: int64) = (\<Sum>k\<in>A. sint (f k))"
  using assms
proof (induction A rule: finite_induct)
  case empty
  then show ?case by simp
next
  case (insert a A)
  have nn: "0 \<le> (\<Sum>k\<in>A. sint (f k))" using insert.prems by (intro sum_nonneg) auto
  have fa: "0 \<le> sint (f a)" using insert.prems by simp
  have le: "sint (f a) + (\<Sum>k\<in>A. sint (f k)) \<le> int64_max" using insert by simp
  have "(\<Sum>k\<in>A. sint (f k)) \<le> int64_max" using fa le by linarith
  then have "sint (\<Sum>k\<in>A. f k) = (\<Sum>k\<in>A. sint (f k))"
    by (intro insert.IH insert.prems) simp_all
  with insert.hyps fa nn le show ?case by (simp add: sint_add_exact)
qed

lemma Value_exact:
  assumes "map_order ord" and "grow_only c" and "counter_total c \<le> int64_max"
  shows "sint (Value ord c) = counter_total c"
proof -
  have "0 \<le> sint (get0 (read_counts c) k)" for k
    using sint_component_grow_only [OF assms(2), of k] by (simp add: component_def)
  then have "sint (fm_sum (read_counts c)) = (\<Sum>k\<in>fmdom' (read_counts c). sint (get0 (read_counts c) k))"
    unfolding fm_sum_def using assms(3) by (intro fm_sum_exact) (auto simp: counter_total_def component_def)
  then show ?thesis using assms by (simp add: Value_eq counter_total_def component_def)
qed

lemma counter_total_mono:
  assumes "grow_only c" and "grow_only d" and "abs_counter c \<le> abs_counter d"
  shows "counter_total c \<le> counter_total d"
proof -
  have "k \<in> fmdom' (read_counts d)" if "k \<in> fmdom' (read_counts c)" for k
  proof -
    from that obtain v where "fmlookup (read_counts c) k = Some v" by (auto simp: fmlookup_dom'_iff)
    with assms(1) have "0 < abs_counter c k" by (simp add: grow_only_lookup split: if_splits)
    also have "abs_counter c k \<le> abs_counter d k" using assms(3) by (simp add: le_fun_def)
    finally show ?thesis using assms(2) by (simp add: fmlookup_dom'_iff grow_only_lookup)
  qed
  moreover have "sint (component c k) \<le> sint (component d k)" for k
    using assms by (simp add: sint_component_grow_only le_fun_def)
  moreover have "0 \<le> sint (component d k)" for k
    using assms by (simp add: sint_component_grow_only)
  ultimately have "counter_total c \<le> (\<Sum>k\<in>fmdom' (read_counts c). sint (component d k))"
    unfolding counter_total_def by (intro sum_mono) simp
  also have "\<dots> \<le> counter_total d" unfolding counter_total_def
    using \<open>\<And>k. 0 \<le> sint (component d k)\<close> \<open>\<And>k. k \<in> fmdom' (read_counts c) \<Longrightarrow> k \<in> fmdom' (read_counts d)\<close>
    by (intro sum_mono2) auto
  finally show ?thesis .
qed

section \<open>Properties\<close>

text \<open>Two concrete counters, as the tests of the package use them.\<close>

definition counter_a :: gcounter where
  "counter_a = Increment (Increment NewGCounter ''node-a'' 5) ''node-b'' 1"

definition counter_b :: gcounter where
  "counter_b = Increment (Increment NewGCounter ''node-a'' 2) ''node-b'' 7"

lemma counter_ab:
  "counts counter_a = Some (fmupd ''node-b'' 1 (fmupd ''node-a'' 5 fmempty))"
  "counts counter_b = Some (fmupd ''node-b'' 7 (fmupd ''node-a'' 2 fmempty))"
  by (simp_all add: counter_a_def counter_b_def Increment_def NewGCounter_def)

lemma read_counts_ab [simp]:
  "read_counts counter_a = fmupd ''node-b'' 1 (fmupd ''node-a'' 5 fmempty)"
  "read_counts counter_b = fmupd ''node-b'' 7 (fmupd ''node-a'' 2 fmempty)"
  by (simp_all add: read_counts_def counter_ab)

lemma grow_only_ab: "grow_only counter_a" "grow_only counter_b"
  by (auto simp: grow_only_def counter_ab fmpred_iff split: if_splits)

text \<open>Merge refines the join of the abstract counters: in whatever order the range loop visits
  the other replica's map, every node's component becomes the maximum of the two, also on counters
  with nil maps, missing keys or negative entries.\<close>

theorem Merge_refines_join:
  assumes "map_order ord"
  shows "abs_counter (Merge ord c (Some oth)) = sup (abs_counter c) (abs_counter oth)"
  by (rule abs_counter_Merge [OF assms])

theorem Merge_refines_join_witness:
  "map_order sorted_order \<and>
   abs_counter (Merge sorted_order counter_a (Some counter_b)) = sup (abs_counter counter_a) (abs_counter counter_b) \<and>
   sup (abs_counter counter_a) (abs_counter counter_b) ''node-b'' = 7"
  using Merge_refines_join [OF map_order_sorted, of counter_a counter_b]
  by (simp add: abs_counter_def component_def sup_nat_def)

text \<open>C21: Replicas converge: from one grow-only counter, merging two sequences of replicas that hold
  the same set of states, in any order, with any repetitions and with any iteration order of each
  merge, ends in the same counter.\<close>

theorem merges_converge:
  assumes "grow_only c"
    and "\<And>ord oth. (ord, oth) \<in> set rs \<union> set rs' \<Longrightarrow> map_order ord \<and> grow_only oth"
    and "snd ` set rs = snd ` set rs'"
  shows "merge_all c rs = merge_all c rs'"
  using assms by (rule merge_all_converges)

theorem merges_converge_witness:
  "merge_all NewGCounter [(sorted_order, counter_a), (sorted_order, counter_b)] =
   merge_all NewGCounter [(sorted_order, counter_b), (sorted_order, counter_a), (sorted_order, counter_b)]"
  by (rule merges_converge) (auto simp: grow_only_ab)

text \<open>Value reports the sum of all components, and merging never decreases it, as long as the
  total stays within 64 bits.\<close>

theorem Value_after_Merge:
  assumes "map_order ord" and "grow_only c" and "grow_only oth"
    and "counter_total (Merge ord c (Some oth)) \<le> int64_max"
  shows "sint (Value ord (Merge ord c (Some oth))) = counter_total (Merge ord c (Some oth)) \<and>
    sint (Value ord c) \<le> sint (Value ord (Merge ord c (Some oth)))"
proof -
  have m: "grow_only (Merge ord c (Some oth))" using assms by (simp add: grow_only_Merge)
  have v: "sint (Value ord (Merge ord c (Some oth))) = counter_total (Merge ord c (Some oth))"
    using assms m by (intro Value_exact)
  have "counter_total c \<le> counter_total (Merge ord c (Some oth))"
    using assms m by (intro counter_total_mono) (auto simp: abs_counter_Merge)
  moreover from this have "sint (Value ord c) = counter_total c"
    using assms by (intro Value_exact) auto
  ultimately show ?thesis using v by simp
qed

theorem Value_after_Merge_witness:
  "sint (Value sorted_order counter_a) \<le> sint (Value sorted_order (Merge sorted_order counter_a (Some counter_b)))"
proof (rule Value_after_Merge [THEN conjunct2])
  have "fmdom' (read_counts (Merge sorted_order counter_a (Some counter_b))) \<subseteq> {''node-a'', ''node-b''}"
    by (auto simp: fmlookup_dom'_iff lookup_Merge split: if_splits)
  then have "counter_total (Merge sorted_order counter_a (Some counter_b)) \<le>
      (\<Sum>k\<in>{''node-a'', ''node-b''}. sint (component (Merge sorted_order counter_a (Some counter_b)) k))"
    unfolding counter_total_def
    by (intro sum_mono2) (auto simp: sint_component_grow_only grow_only_Merge grow_only_ab)
  also have "\<dots> = 12"
    by (simp add: component_Merge) (simp add: component_def)
  finally show "counter_total (Merge sorted_order counter_a (Some counter_b)) \<le> int64_max"
    by (simp add: int64_max_def)
qed (simp_all add: grow_only_ab)

text \<open>The commutativity that the comment on Merge promises needs counters without zero or
  negative entries: Increment accepts any delta, and after an increment by a negative number the two
  merge orders leave the replicas with different values.\<close>

theorem Merge_not_commutative_after_negative_increment:
  "\<exists>c oth. c = Increment NewGCounter ''node-a'' (- 1) \<and> oth = NewGCounter \<and>
     Value sorted_order (Merge sorted_order c (Some oth)) = - 1 \<and>
     Value sorted_order (Merge sorted_order oth (Some c)) = 0"
  by (intro exI [of _ "Increment NewGCounter ''node-a'' (- 1)"] exI [of _ NewGCounter])
    (simp add: Value_eq read_counts_Merge read_counts_Increment fm_sum_def get0_def merge_body_def
      go_range_def sorted_order_def sorted_list_of_fset.rep_eq range_step_def int64_gt_def)

end
