(* ===== verification/Transition.thy ===== *)
theory Transition
  imports GoPrelude
begin

text \<open>
  What the components with a step relation or an event log share: reachable states with the
  rule that an inductive invariant holds in all of them, and the contract of a membership table
  (join, leave, lookup) with the meaning of a whole log of joins and leaves.
\<close>

section \<open>Reachable states\<close>

inductive reaches :: "('s \<Rightarrow> bool) \<Rightarrow> ('s \<Rightarrow> 's \<Rightarrow> bool) \<Rightarrow> 's \<Rightarrow> bool"
  for start :: "'s \<Rightarrow> bool" and step :: "'s \<Rightarrow> 's \<Rightarrow> bool" where
  reaches_start: "start s \<Longrightarrow> reaches start step s"
| reaches_step: "reaches start step s \<Longrightarrow> step s t \<Longrightarrow> reaches start step t"

lemma reaches_mono: "reaches start step s \<Longrightarrow> (\<And>x. start x \<Longrightarrow> start' x) \<Longrightarrow> reaches start' step s"
  by (induction rule: reaches.induct) (auto intro: reaches.intros)

locale safe_system =
  fixes start :: "'s \<Rightarrow> bool" and step :: "'s \<Rightarrow> 's \<Rightarrow> bool" and good :: "'s \<Rightarrow> bool"
  assumes start_good: "start s \<Longrightarrow> good s"
    and step_good: "good s \<Longrightarrow> step s t \<Longrightarrow> good t"
begin

lemma reaches_good: "reaches start step s \<Longrightarrow> good s"
  by (induction rule: reaches.induct) (auto intro: start_good step_good)

lemma steps_good: "step\<^sup>*\<^sup>* s t \<Longrightarrow> good s \<Longrightarrow> good t"
  by (induction rule: rtranclp_induct) (auto intro: step_good)

end

text \<open>
  A system whose steps lower a weight: its runs are no longer than the weight of the state they start in,
  and every run can be continued to one that cannot go on.
\<close>

locale terminating_system = safe_system +
  fixes weight :: "'s \<Rightarrow> nat"
  assumes step_weight: "good s \<Longrightarrow> step s t \<Longrightarrow> weight t < weight s"
begin

lemma run_weight: "good s \<Longrightarrow> (step ^^ m) s t \<Longrightarrow> good t \<and> weight t + m \<le> weight s"
proof (induction m arbitrary: t)
  case (Suc m)
  then obtain u where u: "(step ^^ m) s u" "step u t" by auto
  then have IH: "good u" "weight u + m \<le> weight s" using Suc.IH Suc.prems(1) by auto
  then show ?case using step_weight [OF IH(1) u(2)] step_good [OF IH(1) u(2)] by simp
qed simp

lemma run_ends: "good s \<Longrightarrow> \<exists>t. step\<^sup>*\<^sup>* s t \<and> (\<nexists>u. step t u)"
proof (induction "weight s" arbitrary: s rule: less_induct)
  case less
  show ?case
  proof (cases "\<exists>t. step s t")
    case True
    then obtain t where t: "step s t" by blast
    then obtain u where "step\<^sup>*\<^sup>* t u" "\<nexists>v. step u v"
      using less.hyps [OF step_weight [OF less.prems t]] step_good [OF less.prems t] by blast
    then show ?thesis using converse_rtranclp_into_rtranclp [of step, OF t] by blast
  qed (use rtranclp.rtrancl_refl in blast)
qed

end

lemma reaches_rtranclp: "step\<^sup>*\<^sup>* s t \<Longrightarrow> reaches start step s \<Longrightarrow> reaches start step t"
  by (induction rule: rtranclp_induct) (auto intro: reaches_step)

section \<open>Membership tables\<close>

datatype ('k, 'v) member_event = Joined 'k 'v | Departed 'k

fun last_event :: "'k \<Rightarrow> ('k, 'v) member_event list \<Rightarrow> 'v option option" where
  "last_event k [] = None"
| "last_event k (Joined k' v # es) =
     (case last_event k es of None \<Rightarrow> (if k = k' then Some (Some v) else None) | Some e \<Rightarrow> Some e)"
| "last_event k (Departed k' # es) =
     (case last_event k es of None \<Rightarrow> (if k = k' then Some None else None) | Some e \<Rightarrow> Some e)"

primrec apply_member ::
    "('s \<Rightarrow> 'k \<Rightarrow> 'v \<Rightarrow> 's) \<Rightarrow> ('s \<Rightarrow> 'k \<Rightarrow> 's) \<Rightarrow> 's \<Rightarrow> ('k, 'v) member_event \<Rightarrow> 's" where
  "apply_member enter leave s (Joined k v) = enter s k v"
| "apply_member enter leave s (Departed k) = leave s k"

locale membership =
  fixes table :: "'s \<Rightarrow> 'k \<Rightarrow> 'v option"
    and enter :: "'s \<Rightarrow> 'k \<Rightarrow> 'v \<Rightarrow> 's"
    and leave :: "'s \<Rightarrow> 'k \<Rightarrow> 's"
  assumes table_enter: "table (enter s k v) = (table s)(k := Some v)"
    and table_leave: "table (leave s k) = (table s)(k := None)"
begin

lemma table_log:
  "table (foldl (apply_member enter leave) s es) k = (case last_event k es of None \<Rightarrow> table s k | Some e \<Rightarrow> e)"
proof (induction es arbitrary: s)
  case Nil
  then show ?case by simp
next
  case (Cons e es)
  then show ?case
    by (cases e) (auto simp: table_enter table_leave split: option.splits)
qed

end

section \<open>First-in first-out channels\<close>

text \<open>
  What a mailbox promises, whoever interleaves its operations: a put appends to the stream of
  messages that were or will be taken, a take moves the front of the queue over and changes
  nothing else.
\<close>

locale fifo_channel =
  fixes taken :: "'q \<Rightarrow> 'm list"
    and queued :: "'q \<Rightarrow> 'm list"
    and put :: "'m \<Rightarrow> 'q \<Rightarrow> 'q"
    and get :: "'q \<Rightarrow> 'q"
  assumes stream_put: "taken (put m q) @ queued (put m q) = taken q @ queued q @ [m]"
    and stream_get: "taken (get q) @ queued (get q) = taken q @ queued q"
begin

definition apply_op :: "'m option \<Rightarrow> 'q \<Rightarrow> 'q" where
  "apply_op op q = (case op of None \<Rightarrow> get q | Some m \<Rightarrow> put m q)"

lemma stream_ops:
  "taken (fold apply_op ops q) @ queued (fold apply_op ops q) = taken q @ queued q @ List.map_filter (\<lambda>op. op) ops"
proof (induction ops arbitrary: q)
  case (Cons op ops)
  then show ?case
    by (cases op) (simp_all add: apply_op_def stream_get map_filter_simps flip: append_assoc,
      simp_all add: stream_put stream_get)
qed (simp add: map_filter_simps)

end

end
