(* ===== verification/Registry.thy ===== *)
theory Registry
  imports GCounter Transition
begin

text \<open>
  The registry actor of \<^verbatim>\<open>internal/registry\<close>: the set of active nodes, a G-Counter of
  completed rounds, one handler per message.  Replies are returned as a list of sends.  A
  cluster of registries that gossip their snapshots over a network which may delay, reorder,
  duplicate and lose them is a step relation; no replica ever counts a round that did not
  happen, and a complete exchange makes every replica's counter the true one.
\<close>

section \<open>Messages and state\<close>

text \<open>\<open>'p\<close> is the type of PIDs; \<open>OtherMsg\<close> is a message of any other Go type.\<close>

datatype 'p registry_msg =
    NodeJoin string
  | NodeLeave string
  | RoundComplete string
  | MergeRequest string "(string, int64) fmap"
  | QueryState "'p option"
  | OtherMsg

record registry_state =
  ActiveNodes :: "string list"
  CompletedRounds :: int64
  Counter :: "(string, int64) fmap"

record registry_actor =
  RegistryID :: string
  counter :: gcounter
  active :: "string fset"

definition NewRegistryActor :: "string \<Rightarrow> registry_actor" where
  "NewRegistryActor rid = \<lparr>RegistryID = rid, counter = NewGCounter, active = {||}\<rparr>"

section \<open>Conversions and the handler\<close>

definition toInt64Map :: "string order \<Rightarrow> (string, int64) fmap \<Rightarrow> (string, int64) fmap" where
  "toInt64Map ord m = go_range ord m (\<lambda>k v. fmupd k (int64_of_int v)) fmempty"

definition toIntMap :: "string order \<Rightarrow> (string, int64) fmap \<Rightarrow> (string, int64) fmap" where
  "toIntMap ord m = go_range ord m (\<lambda>k v. fmupd k (int_of_int64 v)) fmempty"

definition replyState ::
    "runtime \<Rightarrow> registry_actor \<Rightarrow> 'p option \<Rightarrow> ('p \<times> registry_state) list" where
  "replyState rt r replyTo =
     (case replyTo of
        None \<Rightarrow> []
      | Some pid \<Rightarrow>
          (let nodes = rt [0] (active r)
           in [(pid, \<lparr>ActiveNodes = sort nodes,
                      CompletedRounds = Value (rt [1]) (counter r),
                      Counter = Snapshot (rt [2]) (counter r)\<rparr>)]))"

definition registry_receive ::
    "runtime \<Rightarrow> registry_actor \<Rightarrow> 'p registry_msg \<Rightarrow> registry_actor \<times> ('p \<times> registry_state) list" where
  "registry_receive rt r msg =
     (case msg of
        NodeJoin n \<Rightarrow> (r\<lparr>active := finsert n (active r)\<rparr>, [])
      | NodeLeave n \<Rightarrow> (r\<lparr>active := active r |-| {|n|}\<rparr>, [])
      | RoundComplete n \<Rightarrow> (r\<lparr>counter := Increment (counter r) n 1\<rparr>, [])
      | MergeRequest _ m \<Rightarrow>
          (r\<lparr>counter := Merge (rt [2]) (counter r) (Some (FromSnapshot (rt [1]) (toIntMap (rt [0]) m)))\<rparr>, [])
      | QueryState replyTo \<Rightarrow> (r, replyState rt r replyTo)
      | OtherMsg \<Rightarrow> (r, []))"

lemma toIntMap_eq: "map_order ord \<Longrightarrow> toIntMap ord m = m"
  using range_copy [of ord m] by (simp add: toIntMap_def)

lemma toInt64Map_eq: "map_order ord \<Longrightarrow> toInt64Map ord m = m"
  using range_copy [of ord m] by (simp add: toInt64Map_def)

lemma registry_receive_simps [simp]:
  "registry_receive rt r (NodeJoin n) = (r\<lparr>active := finsert n (active r)\<rparr>, [])"
  "registry_receive rt r (NodeLeave n) = (r\<lparr>active := active r |-| {|n|}\<rparr>, [])"
  "registry_receive rt r (RoundComplete n) = (r\<lparr>counter := Increment (counter r) n 1\<rparr>, [])"
  "registry_receive rt r (QueryState q) = (r, replyState rt r q)"
  "registry_receive rt r OtherMsg = (r, [])"
  by (simp_all add: registry_receive_def)

lemma registry_receive_merge:
  "map_runtime rt \<Longrightarrow> registry_receive rt r (MergeRequest n m) =
     (r\<lparr>counter := Merge sorted_order (counter r) (Some \<lparr>counts = Some m\<rparr>)\<rparr>, [])"
  by (simp add: registry_receive_def toIntMap_eq FromSnapshot_eq order_intros
      Merge_order_irrelevant [of "rt [2]" sorted_order])

section \<open>Replies do not depend on the iteration order\<close>

lemma sort_order_eq: "map_order ord \<Longrightarrow> sort (ord A) = sorted_list_of_fset A"
  by (metis map_order_distinct map_order_set sorted_list_of_fset.rep_eq sorted_list_of_set_sort_remdups
      distinct_remdups_id)

lemma replyState_eq:
  "map_runtime rt \<Longrightarrow> replyState rt r (Some pid) =
     [(pid, \<lparr>ActiveNodes = sorted_list_of_fset (active r),
             CompletedRounds = fm_sum (read_counts (counter r)),
             Counter = read_counts (counter r)\<rparr>)]"
  by (simp add: replyState_def Value_eq Snapshot_eq order_intros sort_order_eq)

section \<open>The active set is a membership table\<close>

definition active_table :: "registry_actor \<Rightarrow> string \<Rightarrow> unit option" where
  "active_table r n = (if n |\<in>| active r then Some () else None)"

definition registry_join :: "registry_actor \<Rightarrow> string \<Rightarrow> unit \<Rightarrow> registry_actor" where
  "registry_join r n _ = fst (registry_receive sorted_runtime r (NodeJoin n :: unit registry_msg))"

definition registry_leave :: "registry_actor \<Rightarrow> string \<Rightarrow> registry_actor" where
  "registry_leave r n = fst (registry_receive sorted_runtime r (NodeLeave n :: unit registry_msg))"

interpretation reg_members: membership active_table registry_join registry_leave
  by unfold_locales (auto simp: active_table_def registry_join_def registry_leave_def)

text \<open>The joins and leaves of a message log.\<close>

fun membership_log :: "'p registry_msg list \<Rightarrow> (string, unit) member_event list" where
  "membership_log [] = []"
| "membership_log (NodeJoin n # ms) = Joined n () # membership_log ms"
| "membership_log (NodeLeave n # ms) = Departed n # membership_log ms"
| "membership_log (_ # ms) = membership_log ms"

definition registry_run :: "runtime \<Rightarrow> registry_actor \<Rightarrow> 'p registry_msg list \<Rightarrow> registry_actor" where
  "registry_run rt = foldl (\<lambda>r m. fst (registry_receive rt r m))"

lemma active_run:
  "active (registry_run rt r ms) = active (foldl (apply_member registry_join registry_leave) r (membership_log ms))"
proof -
  have "active a = active b \<Longrightarrow> active (registry_run rt a ms) =
      active (foldl (apply_member registry_join registry_leave) b (membership_log ms))" for a b
    by (induction ms arbitrary: a b rule: membership_log.induct)
      (simp_all add: registry_run_def registry_receive_def registry_join_def registry_leave_def)
  then show ?thesis by simp
qed

lemma active_log:
  "active_table (registry_run rt r ms) n =
     (case last_event n (membership_log ms) of None \<Rightarrow> active_table r n | Some e \<Rightarrow> e)"
  using reg_members.table_log [of r "membership_log ms" n]
  by (simp add: active_table_def active_run)

section \<open>Gossip between registries\<close>

record gossip =
  replicas :: "string \<Rightarrow> registry_actor"
  wire :: "(string, int64) fmap set"
  rounds :: "string \<Rightarrow> nat"

definition gossip_start :: "gossip \<Rightarrow> bool" where
  "gossip_start g \<longleftrightarrow> (\<forall>n. counter (replicas g n) = NewGCounter) \<and> wire g = {} \<and> (\<forall>n. rounds g n = 0)"

definition gossip_snapshot :: "runtime \<Rightarrow> registry_actor \<Rightarrow> (string, int64) fmap" where
  "gossip_snapshot rt r = toInt64Map (rt [1]) (Snapshot (rt [0]) (counter r))"

inductive gossip_step :: "gossip \<Rightarrow> gossip \<Rightarrow> bool" where
  finish_round:
    "map_runtime rt \<Longrightarrow> int (rounds g n) < int64_max \<Longrightarrow>
     gossip_step g (g\<lparr>replicas := (replicas g)
         (n := fst (registry_receive rt (replicas g n) (RoundComplete n :: unit registry_msg))),
       rounds := (rounds g)(n := Suc (rounds g n))\<rparr>)"
| send_snapshot:
    "map_runtime rt \<Longrightarrow>
     gossip_step g (g\<lparr>wire := insert (gossip_snapshot rt (replicas g n)) (wire g)\<rparr>)"
| deliver_snapshot:
    "map_runtime rt \<Longrightarrow> s \<in> wire g \<Longrightarrow>
     gossip_step g (g\<lparr>replicas := (replicas g)
         (n := fst (registry_receive rt (replicas g n) (MergeRequest m s :: unit registry_msg)))\<rparr>)"

definition counts_below :: "(string \<Rightarrow> nat) \<Rightarrow> gcounter \<Rightarrow> bool" where
  "counts_below t c \<longleftrightarrow> grow_only c \<and> abs_counter c \<le> t"

definition gossip_inv :: "gossip \<Rightarrow> bool" where
  "gossip_inv g \<longleftrightarrow>
     (\<forall>n. counts_below (rounds g) (counter (replicas g n)) \<and>
          abs_counter (counter (replicas g n)) n = rounds g n) \<and>
     (\<forall>s\<in>wire g. counts_below (rounds g) \<lparr>counts = Some s\<rparr>)"

lemma counts_below_mono: "counts_below t c \<Longrightarrow> t \<le> t' \<Longrightarrow> counts_below t' c"
  by (auto simp: counts_below_def intro: order_trans)

lemma counts_below_Merge:
  "counts_below t c \<Longrightarrow> counts_below t d \<Longrightarrow> counts_below t (Merge sorted_order c (Some d))"
  by (simp add: counts_below_def grow_only_Merge abs_counter_Merge)

lemma gossip_snapshot_eq:
  "map_runtime rt \<Longrightarrow> gossip_snapshot rt r = read_counts (counter r)"
  by (simp add: gossip_snapshot_def toInt64Map_eq Snapshot_eq order_intros)

lemma grow_only_counts: "grow_only c \<Longrightarrow> \<lparr>counts = Some (read_counts c)\<rparr> = c"
  by (cases c) (auto simp: grow_only_def read_counts_def)

lemma abs_counter_bump:
  assumes "grow_only c" and "int (abs_counter c n) < int64_max"
  shows "abs_counter (Increment c n 1) = (abs_counter c)(n := Suc (abs_counter c n))"
    and "grow_only (Increment c n 1)"
  using assms sint_component_grow_only [OF assms(1), of n]
    abs_counter_Increment [of c n 1] grow_only_Increment [of c 1 n]
  by (auto simp: nat_add_distrib)

lemma gossip_step_inv:
  assumes "gossip_inv g" and "gossip_step g g'"
  shows "gossip_inv g'"
  using assms(2)
proof cases
  case (finish_round rt n)
  have own: "grow_only (counter (replicas g n))" "abs_counter (counter (replicas g n)) n = rounds g n"
    "abs_counter (counter (replicas g n)) \<le> rounds g"
    using assms(1) by (auto simp: gossip_inv_def counts_below_def)
  have le: "rounds g \<le> (rounds g)(n := Suc (rounds g n))" by (simp add: le_fun_def)
  have "counts_below ((rounds g)(n := Suc (rounds g n))) (Increment (counter (replicas g n)) n 1)"
    using own finish_round(3)
    by (auto simp: counts_below_def abs_counter_bump le_fun_def)
  moreover have "abs_counter (Increment (counter (replicas g n)) n 1) n = Suc (rounds g n)"
    using own finish_round(3) by (simp add: abs_counter_bump)
  ultimately show ?thesis
    using assms(1) counts_below_mono [OF _ le] unfolding finish_round(1) gossip_inv_def
    by auto
next
  case (send_snapshot rt n)
  have "counts_below (rounds g) (counter (replicas g n))"
    using assms(1) by (simp add: gossip_inv_def)
  then have "counts_below (rounds g) \<lparr>counts = Some (gossip_snapshot rt (replicas g n))\<rparr>"
    by (simp add: gossip_snapshot_eq send_snapshot(2) grow_only_counts counts_below_def)
  then show ?thesis using assms(1) unfolding send_snapshot(1) gossip_inv_def by simp
next
  case (deliver_snapshot rt s n m)
  have below: "counts_below (rounds g) \<lparr>counts = Some s\<rparr>"
    and own: "counts_below (rounds g) (counter (replicas g n))"
      "abs_counter (counter (replicas g n)) n = rounds g n"
    using assms(1) deliver_snapshot(3) by (auto simp: gossip_inv_def)
  have "abs_counter \<lparr>counts = Some s\<rparr> n \<le> rounds g n"
    using below by (simp add: counts_below_def le_fun_def)
  then have "abs_counter (Merge sorted_order (counter (replicas g n)) (Some \<lparr>counts = Some s\<rparr>)) n = rounds g n"
    using own by (simp add: abs_counter_Merge sup_nat_def)
  then show ?thesis
    using assms(1) counts_below_Merge [OF own(1) below]
    unfolding deliver_snapshot(1) gossip_inv_def by (auto simp: registry_receive_merge deliver_snapshot(2))
qed

lemma gossip_start_inv: "gossip_start g \<Longrightarrow> gossip_inv g"
  by (auto simp: gossip_start_def gossip_inv_def counts_below_def abs_counter_def le_fun_def)

interpretation gossip_sys: safe_system gossip_start gossip_step gossip_inv
  by unfold_locales (auto intro: gossip_start_inv gossip_step_inv)

section \<open>A complete exchange\<close>

text \<open>Every node's snapshot, delivered to one replica in some order.\<close>

definition exchange :: "runtime \<Rightarrow> gossip \<Rightarrow> string list \<Rightarrow> unit registry_msg list" where
  "exchange rt g ns = map (\<lambda>n. MergeRequest n (gossip_snapshot rt (replicas g n))) ns"

lemma run_Cons:
  "registry_run rt r (m # ms) = registry_run rt (fst (registry_receive rt r m)) ms"
  by (simp add: registry_run_def)

lemma run_Nil [simp]: "registry_run rt r [] = r"
  by (simp add: registry_run_def)

lemma exchange_abs:
  assumes "map_runtime rt" and "gossip_inv g" and "counts_below (rounds g) (counter r)"
  shows "counts_below (rounds g) (counter (registry_run rt r (exchange rt g ns))) \<and>
    abs_counter (counter r) \<le> abs_counter (counter (registry_run rt r (exchange rt g ns))) \<and>
    (\<forall>n\<in>set ns. rounds g n \<le> abs_counter (counter (registry_run rt r (exchange rt g ns))) n)"
  using assms(3)
proof (induction ns arbitrary: r)
  case Nil
  then show ?case by (simp add: exchange_def)
next
  case (Cons n ns)
  let ?r = "r\<lparr>counter := Merge sorted_order (counter r) (Some (counter (replicas g n)))\<rparr>"
  have n: "counts_below (rounds g) (counter (replicas g n))" "abs_counter (counter (replicas g n)) n = rounds g n"
    using assms(2) by (auto simp: gossip_inv_def)
  have eq: "registry_run rt r (exchange rt g (n # ns)) = registry_run rt ?r (exchange rt g ns)"
    using n(1) by (simp add: exchange_def run_Cons registry_receive_merge assms(1) gossip_snapshot_eq
        grow_only_counts counts_below_def)
  have below: "counts_below (rounds g) (counter ?r)"
    using counts_below_Merge [OF Cons.prems n(1)] by simp
  have abs: "abs_counter (counter ?r) = sup (abs_counter (counter r)) (abs_counter (counter (replicas g n)))"
    by (simp add: abs_counter_Merge)
  have "rounds g n \<le> abs_counter (counter ?r) n" using n(2) by (simp add: abs_counter_Merge sup_nat_def)
  then show ?case unfolding eq using Cons.IH [OF below] abs
    by (fastforce simp: le_fun_def intro: order_trans)
qed

lemma exchange_complete:
  assumes "map_runtime rt" and "gossip_inv g" and "\<And>n. n \<notin> set ns \<Longrightarrow> rounds g n = 0"
  shows "abs_counter (counter (registry_run rt (replicas g i) (exchange rt g ns))) = rounds g"
    and "grow_only (counter (registry_run rt (replicas g i) (exchange rt g ns)))"
proof -
  have "counts_below (rounds g) (counter (replicas g i))" using assms(2) by (simp add: gossip_inv_def)
  note ex = exchange_abs [OF assms(1,2) this, of ns]
  show "abs_counter (counter (registry_run rt (replicas g i) (exchange rt g ns))) = rounds g"
  proof (rule ext)
    fix k
    show "abs_counter (counter (registry_run rt (replicas g i) (exchange rt g ns))) k = rounds g k"
    proof (rule antisym)
      show "abs_counter (counter (registry_run rt (replicas g i) (exchange rt g ns))) k \<le> rounds g k"
        using ex by (simp add: counts_below_def le_fun_def)
      show "rounds g k \<le> abs_counter (counter (registry_run rt (replicas g i) (exchange rt g ns))) k"
        using ex assms(3) [of k] by (cases "k \<in> set ns") simp_all
    qed
  qed
  show "grow_only (counter (registry_run rt (replicas g i) (exchange rt g ns)))"
    using ex by (simp add: counts_below_def)
qed

section \<open>Properties\<close>

definition gossip_init :: gossip where
  "gossip_init = \<lparr>replicas = NewRegistryActor, wire = {}, rounds = (\<lambda>_. 0)\<rparr>"

definition gossip_one :: gossip where
  "gossip_one = gossip_init\<lparr>replicas := (replicas gossip_init)
       (''a'' := fst (registry_receive sorted_runtime (replicas gossip_init ''a'') (RoundComplete ''a'' :: unit registry_msg))),
     rounds := (rounds gossip_init)(''a'' := Suc (rounds gossip_init ''a''))\<rparr>"

lemma gossip_one_reachable: "reaches gossip_start gossip_step gossip_one"
proof (rule reaches_step)
  show "reaches gossip_start gossip_step gossip_init"
    by (rule reaches_start) (simp add: gossip_start_def gossip_init_def NewRegistryActor_def)
  show "gossip_step gossip_init gossip_one" unfolding gossip_one_def
    by (rule gossip_step.finish_round) (simp_all add: gossip_init_def int64_max_def)
qed

text \<open>After any log of messages a node is in the registry's active set exactly when its last join
  or leave in the log is a join (or it was active before and the log mentions it in neither).\<close>

theorem registry_active_last_event:
  "active_table (registry_run rt r ms) n =
     (case last_event n (membership_log ms) of None \<Rightarrow> active_table r n | Some e \<Rightarrow> e)"
  by (rule active_log)

text \<open>The reply to QueryState is one message to ReplyTo that lists the active nodes in ascending
  order without duplicates, with the counter and its sum, whatever orders the loops take; the state
  does not change.\<close>

theorem registry_query_reply:
  assumes "map_runtime rt"
  shows "registry_receive rt r (QueryState (Some pid)) =
     (r, [(pid, \<lparr>ActiveNodes = sorted_list_of_fset (active r),
                 CompletedRounds = fm_sum (read_counts (counter r)),
                 Counter = read_counts (counter r)\<rparr>)])"
  by (simp add: replyState_eq assms)

theorem registry_query_reply_witness:
  "snd (registry_receive reversed_runtime
      (registry_run reversed_runtime (NewRegistryActor ''registry'')
         [NodeJoin ''node-b'', NodeJoin ''node-a'' :: nat registry_msg, RoundComplete ''node-a'']) (QueryState (Some (7 :: nat)))) =
     [(7, \<lparr>ActiveNodes = [''node-a'', ''node-b''], CompletedRounds = 1, Counter = fmupd ''node-a'' 1 fmempty\<rparr>)]"
  using registry_query_reply [OF map_runtime_reversed, of
      "registry_run reversed_runtime (NewRegistryActor ''registry'')
         [NodeJoin ''node-b'', NodeJoin ''node-a'' :: nat registry_msg, RoundComplete ''node-a'']" "7 :: nat"]
  by (simp add: run_Cons NewRegistryActor_def read_counts_Increment fm_sum_def sorted_list_of_fset.rep_eq
      component_def)

text \<open>C23: In every reachable state of a cluster of registries that complete rounds and gossip
  snapshots over a network that may lose, delay, duplicate and reorder them, a node's own replica
  holds exactly the rounds it completed, and no replica counts more for any node.\<close>

theorem gossip_never_overcounts:
  assumes "reaches gossip_start gossip_step g"
  shows "abs_counter (counter (replicas g n)) k \<le> rounds g k \<and>
    abs_counter (counter (replicas g n)) n = rounds g n"
  using gossip_sys.reaches_good [OF assms]
  by (simp add: gossip_inv_def counts_below_def le_fun_def)

theorem gossip_never_overcounts_witness:
  "abs_counter (counter (replicas gossip_one ''b'')) ''a'' \<le> rounds gossip_one ''a'' \<and>
   abs_counter (counter (replicas gossip_one ''b'')) ''b'' = rounds gossip_one ''b''"
  by (rule gossip_never_overcounts [OF gossip_one_reachable])

text \<open>C24: A complete exchange makes any two replicas equal: a replica that merged a snapshot of every
  node, in any order, holds the true number of completed rounds of every node, and so do the counters
  of any two replicas that did.\<close>

theorem gossip_exchange_converges:
  assumes "reaches gossip_start gossip_step g" and "map_runtime rt"
    and "\<And>n. n \<notin> set ns \<Longrightarrow> rounds g n = 0" and "set ns' = set ns"
  shows "abs_counter (counter (registry_run rt (replicas g i) (exchange rt g ns))) = rounds g \<and>
    counter (registry_run rt (replicas g i) (exchange rt g ns)) =
      counter (registry_run rt (replicas g j) (exchange rt g ns'))"
proof -
  note inv = gossip_sys.reaches_good [OF assms(1)]
  have ns': "\<And>n. n \<notin> set ns' \<Longrightarrow> rounds g n = 0" using assms(3,4) by simp
  note i = exchange_complete [OF assms(2) inv assms(3), of ns i]
  note j = exchange_complete [OF assms(2) inv ns', of ns' j]
  from i j show ?thesis by (auto intro!: grow_only_eqI)
qed

theorem gossip_exchange_converges_witness:
  "counter (registry_run sorted_runtime (replicas gossip_one ''b'') (exchange sorted_runtime gossip_one [''a'', ''b''])) =
   counter (registry_run sorted_runtime (replicas gossip_one ''a'') (exchange sorted_runtime gossip_one [''b'', ''a'']))"
  by (rule gossip_exchange_converges [OF gossip_one_reachable, THEN conjunct2])
    (auto simp: gossip_one_def gossip_init_def)

end
