(* ===== verification/GoSlice.thy ===== *)
theory GoSlice
  imports GoPrelude
begin

text \<open>
  Slices and the string functions of the standard library that the program calls.  A slice
  expression out of bounds panics: it is \<open>None\<close>.  Strings are byte lists.
\<close>

section \<open>Slices\<close>

definition go_slice :: "'a list \<Rightarrow> int \<Rightarrow> int \<Rightarrow> 'a list option" where
  "go_slice xs lo hi =
     (if 0 \<le> lo \<and> lo \<le> hi \<and> hi \<le> int (length xs)
      then Some (take (nat (hi - lo)) (drop (nat lo) xs)) else None)"

definition swap :: "'a list \<Rightarrow> nat \<Rightarrow> nat \<Rightarrow> 'a list" where
  "swap xs i j = xs[i := xs ! j, j := xs ! i]"

lemma length_swap [simp]: "length (swap xs i j) = length xs"
  by (simp add: swap_def)

lemma mset_swap [simp]: "i < length xs \<Longrightarrow> j < length xs \<Longrightarrow> mset (swap xs i j) = mset xs"
  by (simp add: swap_def mset_swap)

section \<open>Strings\<close>

text \<open>\<^verbatim>\<open>strings.SplitN(s, sep, 2)\<close> with a one-byte separator; \<open>None\<close> where the
  separator is missing, so that the result has one part.\<close>

definition split_first :: "char \<Rightarrow> string \<Rightarrow> (string \<times> string) option" where
  "split_first sep s =
     (if sep \<in> set s then Some (takeWhile (\<lambda>c. c \<noteq> sep) s, tl (dropWhile (\<lambda>c. c \<noteq> sep) s)) else None)"

lemma split_first_append [simp]:
  "sep \<notin> set a \<Longrightarrow> split_first sep (a @ sep # b) = Some (a, b)"
  by (simp add: split_first_def takeWhile_append dropWhile_append)

lemma split_first_None [simp]: "sep \<notin> set s \<Longrightarrow> split_first sep s = None"
  by (simp add: split_first_def)

lemma split_first_Some:
  assumes "split_first sep s = Some (a, b)"
  shows "s = a @ sep # b \<and> sep \<notin> set a"
proof -
  from assms have sep: "sep \<in> set s" and a: "a = takeWhile (\<lambda>c. c \<noteq> sep) s"
    and b: "b = tl (dropWhile (\<lambda>c. c \<noteq> sep) s)"
    by (auto simp: split_first_def split: if_splits)
  from sep have "dropWhile (\<lambda>c. c \<noteq> sep) s \<noteq> []" by (simp add: dropWhile_eq_Nil_conv)
  then obtain d ds where d: "dropWhile (\<lambda>c. c \<noteq> sep) s = d # ds" by (meson neq_Nil_conv)
  then have "d = sep" by (metis (mono_tags) hd_dropWhile list.sel(1) list.distinct(1))
  with d have "s = a @ sep # b" using a b by (metis list.sel(3) takeWhile_dropWhile_id)
  moreover have "sep \<notin> set a" unfolding a by (auto dest: set_takeWhileD)
  ultimately show ?thesis by simp
qed

text \<open>\<^verbatim>\<open>strings.Split(s, sep)\<close> with a one-byte separator: always at least one part.\<close>

fun split_all :: "char \<Rightarrow> string \<Rightarrow> string list" where
  "split_all sep [] = [[]]"
| "split_all sep (c # cs) =
     (if c = sep then [] # split_all sep cs
      else (case split_all sep cs of [] \<Rightarrow> [[c]] | p # ps \<Rightarrow> (c # p) # ps))"

lemma split_all_nonempty [simp]: "split_all sep s \<noteq> []"
  by (induction s) (auto split: list.split)

fun join_with :: "'a list \<Rightarrow> 'a list list \<Rightarrow> 'a list" where
  "join_with sep [] = []"
| "join_with sep [p] = p"
| "join_with sep (p # q # ps) = p @ sep @ join_with sep (q # ps)"

lemma split_all_notin: "sep \<notin> set p \<Longrightarrow> split_all sep p = [p]"
  by (induction p) auto

lemma split_all_append:
  "sep \<notin> set p \<Longrightarrow> split_all sep (p @ sep # s) = p # split_all sep s"
  by (induction p) auto

lemma split_all_join:
  "ps \<noteq> [] \<Longrightarrow> (\<And>p. p \<in> set ps \<Longrightarrow> sep \<notin> set p) \<Longrightarrow> split_all sep (join_with [sep] ps) = ps"
  by (induction "[sep]" ps rule: join_with.induct) (auto simp: split_all_notin split_all_append)

text \<open>\<^verbatim>\<open>strings.TrimSpace\<close>: the UTF-8 encodings of the white space runes are removed
  from both ends.\<close>

definition space_runes :: "string list" where
  "space_runes =
     map (\<lambda>c. [c]) [CHR 0x09, CHR 0x0A, CHR 0x0B, CHR 0x0C, CHR 0x0D, CHR 0x20] @
     map (\<lambda>c. [CHR 0xC2, c]) [CHR 0x85, CHR 0xA0] @
     [[CHR 0xE1, CHR 0x9A, CHR 0x80]] @
     map (\<lambda>c. [CHR 0xE2, CHR 0x80, c])
       [CHR 0x80, CHR 0x81, CHR 0x82, CHR 0x83, CHR 0x84, CHR 0x85, CHR 0x86, CHR 0x87, CHR 0x88,
        CHR 0x89, CHR 0x8A, CHR 0xA8, CHR 0xA9, CHR 0xAF] @
     [[CHR 0xE2, CHR 0x81, CHR 0x9F], [CHR 0xE3, CHR 0x80, CHR 0x80]]"

text \<open>Removing, as long as it is possible, one of the non-empty words \<open>ws\<close> from the front.\<close>

function strip_front :: "string list \<Rightarrow> string \<Rightarrow> string" where
  "strip_front ws s =
     (case find (\<lambda>w. w \<noteq> [] \<and> take (length w) s = w) ws of
        None \<Rightarrow> s
      | Some w \<Rightarrow> strip_front ws (drop (length w) s))"
  by pat_completeness auto
termination
proof (relation "measure (\<lambda>(ws, s). length s)")
  fix ws s w
  assume "find (\<lambda>w. w \<noteq> [] \<and> take (length w) s = w) ws = Some w"
  then have w: "w \<noteq> []" "take (length w) s = w" by (auto simp: find_Some_iff)
  then have "s \<noteq> []" by force
  with w show "((ws, drop (length w) s), ws, s) \<in> measure (\<lambda>(ws, s). length s)" by simp
qed simp

declare strip_front.simps [simp del]

definition trim_space :: "string \<Rightarrow> string" where
  "trim_space s = rev (strip_front (map rev space_runes) (rev (strip_front space_runes s)))"

text \<open>A string whose first and last bytes are printable ASCII is left alone.\<close>

definition is_graphic :: "char \<Rightarrow> bool" where
  "is_graphic c \<longleftrightarrow> 33 \<le> (of_char c :: nat) \<and> (of_char c :: nat) < 127"

lemma strip_front_id:
  assumes "\<And>w. w \<in> set ws \<Longrightarrow> w \<noteq> [] \<Longrightarrow> s \<noteq> [] \<Longrightarrow> hd w \<noteq> hd s"
  shows "strip_front ws s = s"
proof -
  have "find (\<lambda>w. w \<noteq> [] \<and> take (length w) s = w) ws = None"
    unfolding find_None_iff using assms
    by (metis hd_take length_greater_0_conv take_Nil)
  then show ?thesis by (simp add: strip_front.simps)
qed

lemma graphic_not_space:
  "is_graphic c \<Longrightarrow> w \<in> set space_runes \<Longrightarrow> hd w \<noteq> c \<and> last w \<noteq> c"
  by (auto simp: space_runes_def is_graphic_def)

lemma trim_space_id:
  assumes "s = [] \<or> is_graphic (hd s) \<and> is_graphic (last s)"
  shows "trim_space s = s"
proof (cases "s = []")
  case True
  then show ?thesis by (simp add: trim_space_def strip_front_id)
next
  case False
  have "strip_front space_runes s = s"
    using assms False by (intro strip_front_id) (metis graphic_not_space)
  moreover have "strip_front (map rev space_runes) (rev s) = rev s"
    using assms False by (intro strip_front_id) (auto simp: hd_rev dest: graphic_not_space)
  ultimately show ?thesis by (simp add: trim_space_def)
qed

end
