(* ===== verification/GoFloat.thy ===== *)
theory GoFloat
  imports Complex_Main GoPrelude
begin

text \<open>
  Go's \<^verbatim>\<open>float64\<close>: finite values, the two infinities and NaN, with the special cases
  of IEEE 754 written out (signed zeros are one value: no operation of the program tells them
  apart).  How a real result is rounded to a representable one, and how accurate
  \<^verbatim>\<open>math.Log\<close> is, belong to the machine and the standard library: they are the
  parameter \<open>fpu\<close>.  No magnitude the program computes comes near the overflow threshold,
  so rounding maps reals to reals, with an unbounded exponent range.  \<open>ieee_rounding\<close>
  states what the proofs use of round-to-nearest binary64 arithmetic.
\<close>

section \<open>Values and operations\<close>

datatype float64 = Fin real | PInf | NInf | NaN

record fpu =
  fl :: "real \<Rightarrow> real"
  lnf :: "real \<Rightarrow> real"

definition f_of_int :: "fpu \<Rightarrow> int64 \<Rightarrow> float64" where
  "f_of_int fp w = Fin (fl fp (of_int (sint w)))"

fun f_neg :: "float64 \<Rightarrow> bool" where
  "f_neg (Fin x) \<longleftrightarrow> x < 0"
| "f_neg PInf \<longleftrightarrow> False"
| "f_neg NInf \<longleftrightarrow> True"
| "f_neg NaN \<longleftrightarrow> False"

fun f_is_zero :: "float64 \<Rightarrow> bool" where
  "f_is_zero (Fin x) \<longleftrightarrow> x = 0"
| "f_is_zero _ \<longleftrightarrow> False"

fun f_add :: "fpu \<Rightarrow> float64 \<Rightarrow> float64 \<Rightarrow> float64" where
  "f_add fp (Fin x) (Fin y) = Fin (fl fp (x + y))"
| "f_add fp NaN _ = NaN"
| "f_add fp _ NaN = NaN"
| "f_add fp PInf NInf = NaN"
| "f_add fp NInf PInf = NaN"
| "f_add fp PInf _ = PInf"
| "f_add fp _ PInf = PInf"
| "f_add fp NInf _ = NInf"
| "f_add fp _ NInf = NInf"

text \<open>The infinity with the sign of a product or quotient.\<close>

definition f_inf :: "bool \<Rightarrow> float64" where
  "f_inf negative = (if negative then NInf else PInf)"

fun f_mul :: "fpu \<Rightarrow> float64 \<Rightarrow> float64 \<Rightarrow> float64" where
  "f_mul fp (Fin x) (Fin y) = Fin (fl fp (x * y))"
| "f_mul fp NaN _ = NaN"
| "f_mul fp _ NaN = NaN"
| "f_mul fp a b =
     (if f_is_zero a \<or> f_is_zero b then NaN else f_inf (f_neg a \<noteq> f_neg b))"

fun f_div :: "fpu \<Rightarrow> float64 \<Rightarrow> float64 \<Rightarrow> float64" where
  "f_div fp NaN _ = NaN"
| "f_div fp _ NaN = NaN"
| "f_div fp (Fin x) (Fin y) =
     (if y = 0 then (if x = 0 then NaN else f_inf (x < 0)) else Fin (fl fp (x / y)))"
| "f_div fp (Fin x) _ = Fin 0"
| "f_div fp a (Fin y) = f_inf (f_neg a \<noteq> (y < 0))"
| "f_div fp _ _ = NaN"

fun f_log :: "fpu \<Rightarrow> float64 \<Rightarrow> float64" where
  "f_log fp (Fin x) = (if x < 0 then NaN else if x = 0 then NInf else Fin (lnf fp x))"
| "f_log fp PInf = PInf"
| "f_log fp NInf = NaN"
| "f_log fp NaN = NaN"

text \<open>Comparisons: every comparison with NaN is false.\<close>

fun f_lt :: "float64 \<Rightarrow> float64 \<Rightarrow> bool" where
  "f_lt (Fin x) (Fin y) \<longleftrightarrow> x < y"
| "f_lt NaN _ \<longleftrightarrow> False"
| "f_lt _ NaN \<longleftrightarrow> False"
| "f_lt NInf b \<longleftrightarrow> b \<noteq> NInf"
| "f_lt a PInf \<longleftrightarrow> a \<noteq> PInf"
| "f_lt _ _ \<longleftrightarrow> False"

definition f_le :: "float64 \<Rightarrow> float64 \<Rightarrow> bool" where
  "f_le a b \<longleftrightarrow> f_lt a b \<or> (a = b \<and> a \<noteq> NaN)"

text \<open>
  \<^verbatim>\<open>int(f)\<close> truncates towards zero; a value without an \<^verbatim>\<open>int\<close>
  counterpart becomes the least integer, as on amd64.
\<close>

definition trunc :: "real \<Rightarrow> int" where
  "trunc r = (if r < 0 then \<lceil>r\<rceil> else \<lfloor>r\<rfloor>)"

fun f_to_int :: "float64 \<Rightarrow> int" where
  "f_to_int (Fin r) = (if - (2 ^ 63) \<le> trunc r \<and> trunc r \<le> int64_max then trunc r else - (2 ^ 63))"
| "f_to_int _ = - (2 ^ 63)"

section \<open>What the proofs use of the arithmetic\<close>

definition ieee_rounding :: "fpu \<Rightarrow> bool" where
  "ieee_rounding fp \<longleftrightarrow>
     mono (fl fp) \<and>
     (\<forall>i::int. \<bar>i\<bar> \<le> 2 ^ 53 \<longrightarrow> fl fp (of_int i) = of_int i) \<and>
     (\<forall>x. fl fp (fl fp x) = fl fp x) \<and>
     (\<forall>x. fl fp x = x \<longrightarrow> fl fp (2 * x) = 2 * x) \<and>
     (\<forall>k::nat. k \<le> 1000 \<longrightarrow> fl fp (1 / 2 ^ k) = 1 / 2 ^ k)"

text \<open>Exact arithmetic, as an instance.\<close>

definition exact_fpu :: fpu where
  "exact_fpu = \<lparr>fl = (\<lambda>x. x), lnf = ln\<rparr>"

lemma ieee_rounding_exact [simp]: "ieee_rounding exact_fpu"
  by (simp add: ieee_rounding_def exact_fpu_def mono_def)

lemma fl_exact [simp]: "fl exact_fpu x = x"
  by (simp add: exact_fpu_def)

lemma fl_mono: "ieee_rounding fp \<Longrightarrow> x \<le> y \<Longrightarrow> fl fp x \<le> fl fp y"
  by (auto simp: ieee_rounding_def dest: monoD)

lemma fl_int: "ieee_rounding fp \<Longrightarrow> \<bar>i\<bar> \<le> 2 ^ 53 \<Longrightarrow> fl fp (of_int i) = of_int i"
  by (simp add: ieee_rounding_def)

lemma fl_idem: "ieee_rounding fp \<Longrightarrow> fl fp (fl fp x) = fl fp x"
  by (simp add: ieee_rounding_def)

lemma fl_double: "ieee_rounding fp \<Longrightarrow> fl fp x = x \<Longrightarrow> fl fp (2 * x) = 2 * x"
  by (simp add: ieee_rounding_def)

lemma fl_0 [simp]: "ieee_rounding fp \<Longrightarrow> fl fp 0 = 0"
  using fl_int [of fp 0] by simp

lemma fl_1 [simp]: "ieee_rounding fp \<Longrightarrow> fl fp 1 = 1"
  using fl_int [of fp 1] by simp

lemma fl_nonneg: "ieee_rounding fp \<Longrightarrow> 0 \<le> x \<Longrightarrow> 0 \<le> fl fp x"
  using fl_mono [of fp 0 x] by simp

lemma fl_le_1: "ieee_rounding fp \<Longrightarrow> x \<le> 1 \<Longrightarrow> fl fp x \<le> 1"
  using fl_mono [of fp x 1] by simp

lemma fl_pos: "ieee_rounding fp \<Longrightarrow> 1 / 2 ^ k \<le> x \<Longrightarrow> k \<le> 1000 \<Longrightarrow> 0 < fl fp x"
proof -
  assume fp: "ieee_rounding fp" and x: "1 / 2 ^ k \<le> x" and k: "k \<le> 1000"
  then have "fl fp (1 / 2 ^ k) = 1 / 2 ^ k" by (simp add: ieee_rounding_def)
  then have "1 / 2 ^ k \<le> fl fp x" using fl_mono [OF fp x] by simp
  then show "0 < fl fp x" by (meson divide_pos_pos less_le_trans zero_less_numeral zero_less_one zero_less_power)
qed

lemma f_lt_NInf_iff [simp]: "f_lt NInf (Fin x)" "\<not> f_lt NInf NInf" "\<not> f_lt NInf NaN" "f_lt NInf PInf"
  by simp_all

lemma f_lt_irrefl [simp]: "\<not> f_lt a a"
  by (cases a) simp_all

lemma f_lt_trans: "f_lt a b \<Longrightarrow> f_lt b c \<Longrightarrow> f_lt a c"
  by (cases a; cases b; cases c) simp_all

end
