(* ===== verification/Dataset.thy ===== *)
theory Dataset
  imports GoSlice GoFloat
begin

text \<open>
  \<^verbatim>\<open>internal/dataset/dataset.go\<close>: tokenizing, loading and saving the TSV files, the
  train/test split and the partition into shards.  The file system is a parameter state: a map
  from paths to contents, with the failures of the operating system as fields.  Texts are UTF-8
  byte strings.
\<close>

section \<open>Records and tokens\<close>

definition LabelSpam :: string where
  "LabelSpam = ''spam''"

definition LabelHam :: string where
  "LabelHam = ''ham''"

record data_record =
  Label :: string
  Text :: string

definition code :: "char \<Rightarrow> nat" where
  "code c = of_char c"

definition is_lower :: "char \<Rightarrow> bool" where
  "is_lower c \<longleftrightarrow> 97 \<le> code c \<and> code c \<le> 122"

definition is_upper :: "char \<Rightarrow> bool" where
  "is_upper c \<longleftrightarrow> 65 \<le> code c \<and> code c \<le> 90"

definition is_digit :: "char \<Rightarrow> bool" where
  "is_digit c \<longleftrightarrow> 48 \<le> code c \<and> code c \<le> 57"

text \<open>The character class \<^verbatim>\<open>[a-zA-Z0-9]\<close> of \<^verbatim>\<open>tokenPattern\<close>.\<close>

definition is_token_char :: "char \<Rightarrow> bool" where
  "is_token_char c \<longleftrightarrow> is_lower c \<or> is_upper c \<or> is_digit c"

definition lower_byte :: "char \<Rightarrow> char" where
  "lower_byte c = (if is_upper c then char_of (code c + 32) else c)"

text \<open>
  \<^verbatim>\<open>strings.ToLower\<close>, as far as the token pattern can see.  Two non-ASCII runes have
  an ASCII lower case: U+0130 (bytes C4 B0) becomes \<^verbatim>\<open>i\<close> and U+212A (bytes E2 84 AA)
  becomes \<^verbatim>\<open>k\<close>; their lead bytes never continue another rune, so the byte patterns
  are exact.  Every other non-ASCII rune has a non-ASCII lower case and invalid bytes become
  U+FFFD: the token pattern matches none of these bytes, and the model keeps them as they are.
\<close>

fun to_lower :: "string \<Rightarrow> string" where
  "to_lower [] = []"
| "to_lower (c # cs) =
     (if c = CHR 0xC4 \<and> take 1 cs = [CHR 0xB0] then CHR ''i'' # to_lower (drop 1 cs)
      else if c = CHR 0xE2 \<and> take 2 cs = [CHR 0x84, CHR 0xAA] then CHR ''k'' # to_lower (drop 2 cs)
      else lower_byte c # to_lower cs)"

text \<open>\<^verbatim>\<open>FindAllString(s, -1)\<close>: the maximal runs of token characters, left to right.\<close>

function find_tokens :: "string \<Rightarrow> string list" where
  "find_tokens [] = []"
| "find_tokens (c # cs) =
     (if is_token_char c
      then (c # takeWhile is_token_char cs) # find_tokens (dropWhile is_token_char cs)
      else find_tokens cs)"
  by pat_completeness auto
termination
  by (relation "measure length") (auto simp: le_imp_less_Suc length_dropWhile_le)

definition Tokenize :: "string \<Rightarrow> string list" where
  "Tokenize text = find_tokens (to_lower text)"

section \<open>Files\<close>

text \<open>
  A file's bytes, and whether reading fails after them.  \<open>room\<close> is how many bytes can be
  written to a path before the system reports an error, if it ever does.
\<close>

record file_data =
  bytes :: string
  read_fails :: bool

record filesystem =
  files :: "string \<Rightarrow> file_data option"
  creatable :: "string \<Rightarrow> bool"
  room :: "string \<Rightarrow> nat option"

datatype data_error =
    OpenError string
  | MalformedLine string string
  | ReadError string
  | CreateError string
  | WriteError string

definition newline :: char where
  "newline = CHR 0x0A"

definition tab :: char where
  "tab = CHR 0x09"

definition carriage :: char where
  "carriage = CHR 0x0D"

text \<open>The limit given to \<^verbatim>\<open>scanner.Buffer\<close>.\<close>

definition max_token :: nat where
  "max_token = 1024 * 1024"

text \<open>\<^verbatim>\<open>bufio.ScanLines\<close>: the pieces between newlines, the last one only when it is
  not empty, each without one trailing carriage return.\<close>

function raw_lines :: "string \<Rightarrow> string list" where
  "raw_lines [] = []"
| "raw_lines (c # cs) =
     (let l = takeWhile (\<lambda>x. x \<noteq> newline) (c # cs)
      in l # raw_lines (drop (Suc (length l)) (c # cs)))"
  by pat_completeness auto
termination
  by (relation "measure length") (auto simp: Let_def)

definition drop_cr :: "string \<Rightarrow> string" where
  "drop_cr l = (if l \<noteq> [] \<and> last l = carriage then butlast l else l)"

text \<open>
  The scan loop of \<^verbatim>\<open>Load\<close>.  The buffer holds a line with its newline up to the limit;
  a longer line stops the scanner with an error, as does a failing read once the data is used up.
\<close>

fun load_lines :: "string \<Rightarrow> bool \<Rightarrow> string list \<Rightarrow> data_record list \<Rightarrow> data_error + data_record list" where
  "load_lines path failing [] records = (if failing then Inl (ReadError path) else Inr records)"
| "load_lines path failing (l # ls) records =
     (if max_token \<le> length l then Inl (ReadError path)
      else (let line = drop_cr l in
        if line = [] then load_lines path failing ls records
        else (case split_first tab line of
            None \<Rightarrow> Inl (MalformedLine line path)
          | Some (a, b) \<Rightarrow> load_lines path failing ls (records @ [\<lparr>Label = a, Text = b\<rparr>]))))"

definition Load :: "filesystem \<Rightarrow> string \<Rightarrow> data_error + data_record list" where
  "Load fs path =
     (case files fs path of
        None \<Rightarrow> Inl (OpenError path)
      | Some f \<Rightarrow> load_lines path (read_fails f) (raw_lines (bytes f)) [])"

definition record_bytes :: "data_record \<Rightarrow> string" where
  "record_bytes r = Label r @ tab # Text r @ [newline]"

definition save_bytes :: "data_record list \<Rightarrow> string" where
  "save_bytes records = concat (map record_bytes records)"

definition Save :: "filesystem \<Rightarrow> data_record list \<Rightarrow> string \<Rightarrow> data_error option \<times> filesystem" where
  "Save fs records path =
     (if \<not> creatable fs path then (Some (CreateError path), fs)
      else (let out = save_bytes records in
        (case room fs path of
           None \<Rightarrow> (None, fs\<lparr>files := (files fs)(path \<mapsto> \<lparr>bytes = out, read_fails = False\<rparr>)\<rparr>)
         | Some n \<Rightarrow>
             (if length out \<le> n
              then (None, fs\<lparr>files := (files fs)(path \<mapsto> \<lparr>bytes = out, read_fails = False\<rparr>)\<rparr>)
              else (Some (WriteError path),
                    fs\<lparr>files := (files fs)(path \<mapsto> \<lparr>bytes = take n out, read_fails = False\<rparr>)\<rparr>)))))"

section \<open>Splitting and partitioning\<close>

text \<open>
  The generator is a parameter: \<open>rng seed n i\<close> is the index that
  \<^verbatim>\<open>Shuffle(n, _)\<close> draws when it exchanges position \<open>i\<close>, documented to lie in
  \<open>0..i\<close>.
\<close>

type_synonym rng = "int64 \<Rightarrow> nat \<Rightarrow> nat \<Rightarrow> nat"

definition rng_in_range :: "rng \<Rightarrow> bool" where
  "rng_in_range rng \<longleftrightarrow> (\<forall>seed n i. rng seed n i \<le> i)"

fun shuffle_from :: "(nat \<Rightarrow> nat) \<Rightarrow> nat \<Rightarrow> 'a list \<Rightarrow> 'a list" where
  "shuffle_from draw 0 xs = xs"
| "shuffle_from draw (Suc i) xs = shuffle_from draw i (swap xs (Suc i) (draw (Suc i)))"

definition SplitTrainTest ::
    "fpu \<Rightarrow> rng \<Rightarrow> 'a list \<Rightarrow> float64 \<Rightarrow> int64 \<Rightarrow> ('a list \<times> 'a list) option" where
  "SplitTrainTest fp rng records trainRatio seed =
     (let n = length records;
          shuffled = shuffle_from (rng seed n) (n - 1) records;
          splitAt = f_to_int (f_mul fp (f_of_int fp (of_nat n)) trainRatio)
      in (case go_slice shuffled 0 splitAt of
            None \<Rightarrow> None
          | Some train \<Rightarrow>
              (case go_slice shuffled splitAt (int n) of
                 None \<Rightarrow> None
               | Some test \<Rightarrow> Some (train, test))))"

function partition_from ::
    "'a list \<Rightarrow> nat \<Rightarrow> nat \<Rightarrow> nat \<Rightarrow> nat \<Rightarrow> nat \<Rightarrow> 'a list list option" where
  "partition_from records base remainder n i start =
     (if i < n
      then (let size = (if i < remainder then base + 1 else base) in
        (case go_slice records (int start) (int (start + size)) of
           None \<Rightarrow> None
         | Some shard \<Rightarrow>
             map_option (\<lambda>shards. shard # shards)
               (partition_from records base remainder n (Suc i) (start + size))))
      else Some [])"
  by pat_completeness auto
termination
  by (relation "measure (\<lambda>(records, base, remainder, n, i, start). n - i)") auto

declare partition_from.simps [simp del]

definition Partition :: "'a list \<Rightarrow> int \<Rightarrow> 'a list list option" where
  "Partition records n =
     (if n \<le> 0 then Some []
      else partition_from records (length records div nat n) (length records mod nat n) (nat n) 0 0)"

section \<open>Tokens\<close>

definition is_token :: "string \<Rightarrow> bool" where
  "is_token t \<longleftrightarrow> t \<noteq> [] \<and> list_all (\<lambda>c. is_lower c \<or> is_digit c) t"

lemma code_char_of: "n < 256 \<Longrightarrow> code (char_of n) = n"
  by (simp add: code_def)

lemma lower_byte_not_upper: "\<not> is_upper (lower_byte c)"
  by (auto simp: lower_byte_def is_upper_def code_char_of)

lemma lower_byte_id: "is_lower c \<or> is_digit c \<Longrightarrow> lower_byte c = c"
  by (auto simp: lower_byte_def is_lower_def is_digit_def is_upper_def)

lemma is_token_char_ascii: "is_token_char c \<Longrightarrow> code c < 128"
  by (auto simp: is_token_char_def is_lower_def is_upper_def is_digit_def)

lemma not_token_lead [simp]:
  "\<not> is_token_char (CHR 0xC4)" "\<not> is_token_char (CHR 0xE2)" "\<not> is_token_char (CHR '' '')"
  by (simp_all add: is_token_char_def is_lower_def is_upper_def is_digit_def code_def)

lemma to_lower_not_upper: "c \<in> set (to_lower s) \<Longrightarrow> \<not> is_upper c"
proof (induction s rule: to_lower.induct)
  case 1
  then show ?case by simp
next
  case (2 a s)
  have "\<not> is_upper (CHR ''i'')" "\<not> is_upper (CHR ''k'')" by (simp_all add: is_upper_def code_def)
  with 2 show ?case by (auto simp: lower_byte_not_upper split: if_splits)
qed

lemma to_lower_id: "(\<And>c. c \<in> set s \<Longrightarrow> is_lower c \<or> is_digit c \<or> c = CHR '' '') \<Longrightarrow> to_lower s = s"
proof (induction s)
  case Nil
  then show ?case by simp
next
  case (Cons c s)
  have c: "is_lower c \<or> is_digit c \<or> c = CHR '' ''" using Cons.prems by simp
  then have "c \<noteq> CHR 0xC4" "c \<noteq> CHR 0xE2"
    by (auto simp: is_lower_def is_digit_def code_def)
  moreover have "lower_byte c = c"
    using c by (auto simp: lower_byte_id) (simp add: lower_byte_def is_upper_def code_def)
  ultimately show ?case using Cons by simp
qed

lemma concat_find_tokens: "concat (find_tokens s) = filter is_token_char s"
proof (induction s rule: find_tokens.induct)
  case 1
  then show ?case by simp
next
  case (2 c cs)
  have "filter is_token_char cs = takeWhile is_token_char cs @ filter is_token_char (dropWhile is_token_char cs)"
    by (metis filter_append filter_True set_takeWhileD takeWhile_dropWhile_id)
  with 2 show ?case by simp
qed

lemma find_tokens_chars:
  "t \<in> set (find_tokens s) \<Longrightarrow> t \<noteq> [] \<and> set t \<subseteq> {c \<in> set s. is_token_char c}"
proof (induction s rule: find_tokens.induct)
  case 1
  then show ?case by simp
next
  case (2 c cs)
  show ?case
  proof (cases "is_token_char c")
    case True
    with "2.prems" consider "t = c # takeWhile is_token_char cs" | "t \<in> set (find_tokens (dropWhile is_token_char cs))"
      by auto
    then show ?thesis
    proof cases
      case 1
      with True show ?thesis by (auto dest: set_takeWhileD)
    next
      case 2
      with "2.IH"(1) [OF True] show ?thesis by (auto dest: set_dropWhileD)
    qed
  next
    case False
    with "2.prems" "2.IH"(2) show ?thesis by auto
  qed
qed

lemma Tokenize_tokens: "t \<in> set (Tokenize text) \<Longrightarrow> is_token t"
  using find_tokens_chars [of t "to_lower text"]
  by (auto simp: Tokenize_def is_token_def list_all_iff is_token_char_def dest!: to_lower_not_upper)

lemma find_tokens_word:
  "t \<noteq> [] \<Longrightarrow> list_all is_token_char t \<Longrightarrow> find_tokens t = [t]"
  by (cases t) (auto simp: list_all_iff takeWhile_eq_all_conv [THEN iffD2] dropWhile_eq_Nil_conv [THEN iffD2])

lemma find_tokens_word_append:
  "t \<noteq> [] \<Longrightarrow> list_all is_token_char t \<Longrightarrow> \<not> is_token_char c \<Longrightarrow>
   find_tokens (t @ c # s) = t # find_tokens s"
  by (cases t) (auto simp: list_all_iff takeWhile_append dropWhile_append)

lemma find_tokens_join:
  "list_all is_token ts \<Longrightarrow> find_tokens (join_with '' '' ts) = ts"
proof (induction "'' ''" ts rule: join_with.induct)
  case 1
  then show ?case by simp
next
  case (2 t)
  then have "t \<noteq> []" "list_all is_token_char t"
    by (auto simp: is_token_def list_all_iff is_token_char_def)
  then show ?case by (simp add: find_tokens_word)
next
  case (3 t u ts)
  then have "t \<noteq> []" "list_all is_token_char t"
    by (auto simp: is_token_def list_all_iff is_token_char_def)
  with 3 show ?case by (simp add: find_tokens_word_append)
qed

lemma set_join_with: "set (join_with sep ts) \<subseteq> set sep \<union> \<Union> (set ` set ts)"
  by (induction sep ts rule: join_with.induct) auto

lemma Tokenize_join:
  assumes "list_all is_token ts"
  shows "Tokenize (join_with '' '' ts) = ts"
proof -
  have "to_lower (join_with '' '' ts) = join_with '' '' ts"
    using assms set_join_with [of "'' ''" ts]
    by (intro to_lower_id) (fastforce simp: list_all_iff is_token_def)
  then show ?thesis using find_tokens_join [OF assms] by (simp add: Tokenize_def)
qed

section \<open>Save and Load\<close>

text \<open>What a record must satisfy to survive a file: no separator inside the fields, no trailing
  carriage return, and a line within the scanner's limit.\<close>

definition savable :: "data_record \<Rightarrow> bool" where
  "savable r \<longleftrightarrow> tab \<notin> set (Label r) \<and> newline \<notin> set (Label r) \<and> newline \<notin> set (Text r) \<and>
     (Text r = [] \<or> last (Text r) \<noteq> carriage) \<and> length (Label r) + length (Text r) + 1 < max_token"

definition record_line :: "data_record \<Rightarrow> string" where
  "record_line r = Label r @ tab # Text r"

lemma separators_distinct [simp]: "tab \<noteq> newline" "tab \<noteq> carriage" "carriage \<noteq> newline"
  "newline \<noteq> tab" "carriage \<noteq> tab" "newline \<noteq> carriage"
  by (simp_all add: tab_def newline_def carriage_def)

lemma record_bytes_line: "record_bytes r = record_line r @ [newline]"
  by (simp add: record_bytes_def record_line_def)

lemma raw_lines_append:
  assumes "newline \<notin> set l"
  shows "raw_lines (l @ newline # s) = l # raw_lines s"
proof (cases "l @ newline # s")
  case (Cons c cs)
  moreover have "takeWhile (\<lambda>x. x \<noteq> newline) (l @ newline # s) = l"
    using assms by (auto simp: takeWhile_append)
  ultimately have "raw_lines (l @ newline # s) = l # raw_lines (drop (Suc (length l)) (l @ newline # s))"
    by (metis raw_lines.simps(2))
  then show ?thesis by simp
qed simp

lemma raw_lines_record: "savable r \<Longrightarrow> raw_lines (record_bytes r @ s) = record_line r # raw_lines s"
  using raw_lines_append [of "record_line r" s]
  by (auto simp: record_bytes_line savable_def record_line_def)

lemma raw_lines_save:
  "list_all savable rs \<Longrightarrow> raw_lines (save_bytes rs @ s) = map record_line rs @ raw_lines s"
  by (induction rs) (simp_all add: save_bytes_def raw_lines_record)

lemma data_record_eta [simp]: "\<lparr>Label = Label r, Text = Text r\<rparr> = r"
  by (cases r) simp

lemma drop_cr_id: "l = [] \<or> last l \<noteq> carriage \<Longrightarrow> drop_cr l = l"
  by (auto simp: drop_cr_def)

lemma load_lines_savable:
  "list_all savable rs \<Longrightarrow>
   load_lines path failing (map record_line rs @ ls) acc = load_lines path failing ls (acc @ rs)"
proof (induction rs arbitrary: acc)
  case Nil
  then show ?case by simp
next
  case (Cons r rs)
  have r: "savable r" using Cons.prems by simp
  have "drop_cr (record_line r) = record_line r"
    using r by (intro drop_cr_id) (auto simp: savable_def record_line_def)
  moreover have "length (record_line r) < max_token" "split_first tab (record_line r) = Some (Label r, Text r)"
    using r by (simp_all add: savable_def record_line_def)
  ultimately show ?case using Cons by (simp add: record_line_def)
qed

lemma Load_save_bytes:
  assumes "list_all savable rs" and "files fs path = Some \<lparr>bytes = save_bytes rs, read_fails = False\<rparr>"
  shows "Load fs path = Inr rs"
  using raw_lines_save [OF assms(1), of "[]"] load_lines_savable [OF assms(1), of path False "[]" "[]"] assms(2)
  by (simp add: Load_def)

lemma Save_ok:
  "fst (Save fs rs path) = None \<Longrightarrow>
   files (snd (Save fs rs path)) = (files fs)(path \<mapsto> \<lparr>bytes = save_bytes rs, read_fails = False\<rparr>) \<and>
   creatable (snd (Save fs rs path)) = creatable fs \<and> room (snd (Save fs rs path)) = room fs"
  by (auto simp: Save_def Let_def split: if_splits option.splits)

text \<open>What is loaded from a file without carriage returns can be saved again.\<close>

lemma raw_lines_chars: "l \<in> set (raw_lines s) \<Longrightarrow> newline \<notin> set l \<and> set l \<subseteq> set s"
proof (induction s rule: raw_lines.induct)
  case (2 c cs)
  let ?l = "takeWhile (\<lambda>x. x \<noteq> newline) (c # cs)"
  from "2.prems" consider "l = ?l" | "l \<in> set (raw_lines (drop (Suc (length ?l)) (c # cs)))" by (auto simp: Let_def)
  then show ?case
  proof cases
    case 1
    then show ?thesis using set_takeWhileD [of _ "\<lambda>x. x \<noteq> newline" "c # cs"] by blast
  next
    case 2
    then show ?thesis using "2.IH" [OF refl] set_drop_subset [of "Suc (length ?l)" "c # cs"] by blast
  qed
qed simp

lemma load_lines_savable_result:
  "load_lines path failing ls acc = Inr recs \<Longrightarrow> \<forall>l\<in>set ls. newline \<notin> set l \<and> carriage \<notin> set l \<Longrightarrow>
   list_all savable acc \<Longrightarrow> list_all savable recs"
proof (induction path failing ls acc rule: load_lines.induct)
  case (2 path failing l ls acc)
  have cr: "drop_cr l = l" using "2.prems"(2) by (intro drop_cr_id) (auto dest: last_in_set)
  have len: "length l < max_token" using "2.prems"(1) by (auto split: if_splits)
  show ?case
  proof (cases "l = []")
    case True
    then show ?thesis using 2 cr len by (simp add: Let_def)
  next
    case False
    then obtain a b where ab: "split_first tab l = Some (a, b)"
      using "2.prems"(1) cr len by (auto simp: Let_def split: option.splits)
    then have l: "l = a @ tab # b" "tab \<notin> set a" using split_first_Some by blast+
    have "savable \<lparr>Label = a, Text = b\<rparr>"
      using "2.prems"(2) len l by (auto simp: savable_def dest: last_in_set)
    then show ?thesis using 2 cr len False ab by (simp add: Let_def)
  qed
qed (auto split: if_splits)

lemma Load_savable:
  assumes "Load fs path = Inr recs" and "files fs path = Some f" and "carriage \<notin> set (bytes f)"
  shows "list_all savable recs"
proof -
  have "\<forall>l\<in>set (raw_lines (bytes f)). newline \<notin> set l \<and> carriage \<notin> set l"
    using raw_lines_chars assms(3) by blast
  then show ?thesis using assms(1,2) load_lines_savable_result [of path "read_fails f" "raw_lines (bytes f)" "[]" recs]
    by (simp add: Load_def)
qed

section \<open>The split is a permutation\<close>

lemma length_shuffle [simp]: "length (shuffle_from draw i xs) = length xs"
  by (induction draw i xs rule: shuffle_from.induct) simp_all

lemma mset_shuffle:
  "(\<And>i. draw i \<le> i) \<Longrightarrow> i < length xs \<Longrightarrow> mset (shuffle_from draw i xs) = mset xs"
proof (induction draw i xs rule: shuffle_from.induct)
  case (1 draw xs)
  then show ?case by simp
next
  case (2 draw i xs)
  have "draw (Suc i) < length xs" using "2.prems"(1) [of "Suc i"] "2.prems"(2) by simp
  with 2 show ?case by simp
qed

lemma mset_shuffle_all:
  "rng_in_range rng \<Longrightarrow> mset (shuffle_from (rng seed n) (length xs - 1) xs) = mset xs"
  by (cases "xs = []") (auto simp: rng_in_range_def intro: mset_shuffle)

lemma go_slice_prefix: "0 \<le> k \<Longrightarrow> k \<le> int (length xs) \<Longrightarrow> go_slice xs 0 k = Some (take (nat k) xs)"
  by (simp add: go_slice_def)

lemma go_slice_suffix:
  "0 \<le> k \<Longrightarrow> k \<le> int (length xs) \<Longrightarrow> go_slice xs k (int (length xs)) = Some (drop (nat k) xs)"
  by (simp add: go_slice_def)

definition split_point :: "fpu \<Rightarrow> nat \<Rightarrow> float64 \<Rightarrow> int" where
  "split_point fp n ratio = f_to_int (f_mul fp (f_of_int fp (of_nat n)) ratio)"

lemma SplitTrainTest_eq:
  "SplitTrainTest fp rng records ratio seed =
     (let shuffled = shuffle_from (rng seed (length records)) (length records - 1) records;
          k = split_point fp (length records) ratio
      in if 0 \<le> k \<and> k \<le> int (length records) then Some (take (nat k) shuffled, drop (nat k) shuffled) else None)"
  by (auto simp: SplitTrainTest_def split_point_def Let_def go_slice_def)

lemma trunc_bounds: "0 \<le> x \<Longrightarrow> x \<le> of_int n \<Longrightarrow> 0 \<le> trunc x \<and> trunc x \<le> n"
  by (simp add: trunc_def floor_le_iff)

lemma split_point_bounds:
  assumes "ieee_rounding fp" and "int n \<le> 2 ^ 53" and "0 \<le> r" and "r \<le> 1"
  shows "0 \<le> split_point fp n (Fin r) \<and> split_point fp n (Fin r) \<le> int n \<and>
    split_point fp n (Fin r) = \<lfloor>fl fp (real n * r)\<rfloor>"
proof -
  have n: "sint (of_nat n :: int64) = int n"
    using assms(2) by (intro sint_of_nat) (simp add: int64_max_def)
  have fln: "fl fp (real n) = real n" using fl_int [OF assms(1), of "int n"] assms(2) by simp
  have nn: "0 \<le> fl fp (real n * r)" using assms by (intro fl_nonneg) auto
  have "fl fp (real n * r) \<le> fl fp (real n)"
    using assms by (intro fl_mono) (auto simp: mult_left_le)
  then have le: "fl fp (real n * r) \<le> real n" by (simp add: fln)
  define t where "t = trunc (fl fp (real n * r))"
  have t: "0 \<le> t \<and> t \<le> int n" using nn le unfolding t_def by (intro trunc_bounds) auto
  then have "- (2 ^ 63) \<le> t \<and> t \<le> int64_max" using assms(2) by (simp add: int64_max_def)
  then have "split_point fp n (Fin r) = t"
    by (simp add: split_point_def f_of_int_def n fln t_def)
  moreover have "t = \<lfloor>fl fp (real n * r)\<rfloor>" using nn by (simp add: t_def trunc_def)
  ultimately show ?thesis using t by simp
qed

section \<open>The partition\<close>

lemma partition_from_spec:
  assumes "i \<le> n" and "start + (n - i) * base + (remainder - i) = length xs" and "remainder \<le> n"
  shows "\<exists>shards. partition_from xs base remainder n i start = Some shards \<and>
    concat shards = drop start xs \<and> map length shards = map (\<lambda>j. if j < remainder then base + 1 else base) [i..<n]"
  using assms
proof (induction xs base remainder n i start rule: partition_from.induct)
  case (1 xs base remainder n i start)
  show ?case
  proof (cases "i < n")
    case False
    with "1.prems" have "start = length xs" by simp
    with False show ?thesis by (simp add: partition_from.simps)
  next
    case True
    define size where "size = (if i < remainder then base + 1 else base)"
    have split: "(n - i) * base = base + (n - Suc i) * base"
      using True by (metis Suc_diff_Suc mult_Suc)
    have le: "start + size + (n - Suc i) * base + (remainder - Suc i) = length xs"
      using "1.prems"(2) split by (auto simp: size_def)
    have slice: "go_slice xs (int start) (int (start + size)) = Some (take size (drop start xs))"
      using le by (simp add: go_slice_def)
    have "\<exists>shards. partition_from xs base remainder n (Suc i) (start + size) = Some shards \<and>
        concat shards = drop (start + size) xs \<and>
        map length shards = map (\<lambda>j. if j < remainder then base + 1 else base) [Suc i..<n]"
      using "1.IH" [OF True, of size "take size (drop start xs)"] slice le True "1.prems"(3)
      by (auto simp: size_def)
    then obtain shards where sh: "partition_from xs base remainder n (Suc i) (start + size) = Some shards"
      "concat shards = drop (start + size) xs"
      "map length shards = map (\<lambda>j. if j < remainder then base + 1 else base) [Suc i..<n]" by blast
    have "partition_from xs base remainder n i start = Some (take size (drop start xs) # shards)"
      using True slice sh(1) by (subst partition_from.simps) (simp add: size_def Let_def)
    moreover have "take size (drop start xs) @ drop (start + size) xs = drop start xs"
      by (metis append_take_drop_id drop_drop add.commute)
    moreover have "length (take size (drop start xs)) = size" using le by simp
    moreover have "[i..<n] = i # [Suc i..<n]" using True by (simp add: upt_conv_Cons)
    ultimately show ?thesis using sh by (simp add: size_def)
  qed
qed

lemma Partition_spec:
  assumes "0 < n"
  shows "\<exists>shards. Partition xs n = Some shards \<and> concat shards = xs \<and>
    map length shards = map (\<lambda>j. if j < length xs mod nat n then length xs div nat n + 1 else length xs div nat n) [0..<nat n]"
  using partition_from_spec [of 0 "nat n" 0 "length xs div nat n" "length xs mod nat n" xs] assms
  by (simp add: Partition_def less_imp_le mult.commute)

section \<open>Properties\<close>

text \<open>Tokenize returns exactly the maximal runs of ASCII letters and digits of the lowercased text:
  their concatenation is the text without its separators, and every token is a non-empty word of
  lowercase letters and digits.\<close>

theorem Tokenize_words:
  "concat (Tokenize text) = filter is_token_char (to_lower text) \<and> list_all is_token (Tokenize text)"
  using concat_find_tokens [of "to_lower text"] Tokenize_tokens
  by (auto simp: Tokenize_def list_all_iff)

text \<open>Tokenizing a space-separated list of words gives the words back.\<close>

theorem Tokenize_of_words:
  assumes "list_all is_token ts"
  shows "Tokenize (join_with '' '' ts) = ts"
  by (rule Tokenize_join [OF assms])

theorem Tokenize_of_words_witness:
  "Tokenize ''win 100 pounds now'' = [''win'', ''100'', ''pounds'', ''now'']"
  using Tokenize_of_words [of "[''win'', ''100'', ''pounds'', ''now'']"]
  by (simp add: is_token_def is_lower_def is_digit_def code_def)

text \<open>C29: Whenever Save reports success, Load reads back exactly the records saved, in order, provided
  no field contains a separator, no text ends in a carriage return and no line reaches the scanner's
  limit.\<close>

theorem Load_after_Save:
  assumes "list_all savable rs" and "fst (Save fs rs path) = None"
  shows "Load (snd (Save fs rs path)) path = Inr rs"
  using Load_save_bytes [OF assms(1)] Save_ok [OF assms(2)] by simp

definition sample_fs :: filesystem where
  "sample_fs = \<lparr>files = (\<lambda>_. None), creatable = (\<lambda>_. True), room = (\<lambda>_. None)\<rparr>"

definition sample_records :: "data_record list" where
  "sample_records = [\<lparr>Label = LabelHam, Text = ''hey you''\<rparr>, \<lparr>Label = LabelSpam, Text = ''win now''\<rparr>]"

lemma sample_savable: "list_all savable sample_records"
  by (simp add: sample_records_def savable_def LabelHam_def LabelSpam_def tab_def newline_def carriage_def
      max_token_def)

theorem Load_after_Save_witness:
  "Load (snd (Save sample_fs sample_records ''w'')) ''w'' = Inr sample_records"
  by (rule Load_after_Save [OF sample_savable]) (simp add: Save_def sample_fs_def)

text \<open>A text that ends in a carriage return does not survive a save and a load: the scanner strips
  it, so the record read back differs although Save reported success.\<close>

theorem Save_Load_loses_carriage_return:
  "fst (Save sample_fs [\<lparr>Label = LabelHam, Text = [CHR ''a'', carriage]\<rparr>] ''w'') = None \<and>
   Load (snd (Save sample_fs [\<lparr>Label = LabelHam, Text = [CHR ''a'', carriage]\<rparr>] ''w'')) ''w'' =
     Inr [\<lparr>Label = LabelHam, Text = ''a''\<rparr>]"
  by (simp add: Save_def Load_def sample_fs_def save_bytes_def record_bytes_def LabelHam_def
      tab_def newline_def carriage_def drop_cr_def max_token_def split_first_def)

text \<open>Load stops at the first malformed line: after any saved records, a non-empty line without a
  tab makes Load fail with an error that names this line, whatever follows.\<close>

theorem Load_rejects_malformed:
  assumes "list_all savable rs" and "newline \<notin> set line" and "tab \<notin> set line"
    and "drop_cr line \<noteq> []" and "length line < max_token"
    and "files fs path = Some \<lparr>bytes = save_bytes rs @ line @ newline # rest, read_fails = failing\<rparr>"
  shows "Load fs path = Inl (MalformedLine (drop_cr line) path)"
proof -
  have "tab \<notin> set (drop_cr line)" using assms(3) by (auto simp: drop_cr_def dest: in_set_butlastD)
  then show ?thesis
    using assms by (simp add: Load_def raw_lines_save raw_lines_append load_lines_savable)
qed

theorem Load_rejects_malformed_witness:
  "Load (sample_fs\<lparr>files := [''p'' \<mapsto> \<lparr>bytes = save_bytes sample_records @ ''no-separator'' @ newline # ''junk'',
       read_fails = False\<rparr>]\<rparr>) ''p'' = Inl (MalformedLine ''no-separator'' ''p'')"
proof -
  have "drop_cr ''no-separator'' = ''no-separator''" by (simp add: drop_cr_def carriage_def)
  then show ?thesis
    using Load_rejects_malformed [OF sample_savable, of "''no-separator''"
      "sample_fs\<lparr>files := [''p'' \<mapsto> \<lparr>bytes = save_bytes sample_records @ ''no-separator'' @ newline # ''junk'',
       read_fails = False\<rparr>]\<rparr>" "''p''" "''junk''" False]
    by (simp add: newline_def tab_def max_token_def)
qed

text \<open>C36: With a ratio between 0 and 1 the split never panics: train and test together are a
  permutation of the records, for every seed, and train has the rounded-down share.\<close>

theorem SplitTrainTest_permutes:
  assumes "ieee_rounding fp" and "rng_in_range rng" and "int (length records) \<le> 2 ^ 53"
    and "0 \<le> r" and "r \<le> 1"
  shows "\<exists>train test. SplitTrainTest fp rng records (Fin r) seed = Some (train, test) \<and>
    mset train + mset test = mset records \<and>
    int (length train) = \<lfloor>fl fp (real (length records) * r)\<rfloor>"
proof -
  define k where "k = split_point fp (length records) (Fin r)"
  define sh where "sh = shuffle_from (rng seed (length records)) (length records - 1) records"
  have k: "0 \<le> k" "k \<le> int (length records)" "k = \<lfloor>fl fp (real (length records) * r)\<rfloor>"
    using split_point_bounds [OF assms(1,3,4,5)] by (auto simp: k_def)
  have "SplitTrainTest fp rng records (Fin r) seed = Some (take (nat k) sh, drop (nat k) sh)"
    using k(1,2) by (simp add: SplitTrainTest_eq k_def sh_def Let_def)
  moreover have "mset (take (nat k) sh) + mset (drop (nat k) sh) = mset records"
    using mset_shuffle_all [OF assms(2)] by (simp add: sh_def flip: mset_append)
  moreover have "int (length (take (nat k) sh)) = k" using k(1,2) by (simp add: sh_def)
  ultimately show ?thesis using k(3) by blast
qed

theorem SplitTrainTest_permutes_witness:
  "\<exists>train test. SplitTrainTest exact_fpu (\<lambda>seed n i. 0) [1, 2, 3, 4, 5 :: nat] (Fin (4 / 5)) 42 = Some (train, test) \<and>
     mset train + mset test = mset [1, 2, 3, 4, 5] \<and>
     int (length train) = \<lfloor>fl exact_fpu (real (length [1, 2, 3, 4, 5 :: nat]) * (4 / 5))\<rfloor>"
  by (rule SplitTrainTest_permutes) (simp_all add: rng_in_range_def)

text \<open>C37: Partition with a positive number of workers never slices out of bounds: it returns exactly
  that many shards, contiguous and in order, the first \<open>length mod n\<close> of them one record longer
  than the others.\<close>

theorem Partition_shards:
  assumes "0 < n"
  shows "\<exists>shards. Partition records n = Some shards \<and> concat shards = records \<and>
    map length shards = map (\<lambda>j. if j < length records mod nat n then length records div nat n + 1
                                 else length records div nat n) [0..<nat n]"
  by (rule Partition_spec [OF assms])

theorem Partition_shards_witness:
  "\<exists>shards. Partition ''abcdefghij'' 3 = Some shards \<and> concat shards = ''abcdefghij'' \<and>
     map length shards = [4, 3, 3]"
proof -
  have "[0..<nat 3] = [0, 1, 2]" by (simp add: upt_rec)
  then show ?thesis using Partition_shards [of 3 "''abcdefghij''"] by simp
qed

end
