(* ===== verification/NaiveBayes.thy ===== *)
theory NaiveBayes
  imports Dataset
begin

text \<open>
  \<^verbatim>\<open>internal/nb/nb.go\<close>: local counting, aggregation with Laplace smoothing,
  prediction and evaluation.  Counts are 64-bit integers, probabilities and scores are
  \<open>float64\<close>, every loop over a map takes its order from the runtime.  The closed form
  of \<^verbatim>\<open>Aggregate\<close> depends on its arguments only through the summed statistics, from
  which order independence and the additivity of federated training follow.
\<close>

section \<open>Local counts\<close>

record local_counts =
  WordCounts :: "(string, (string, int64) fmap) fmap"
  ClassTotals :: "(string, int64) fmap"

definition count_token ::
    "string \<Rightarrow> string \<Rightarrow> (string, (string, int64) fmap) fmap \<times> (string, int64) fmap \<Rightarrow>
     (string, (string, int64) fmap) fmap \<times> (string, int64) fmap" where
  "count_token label tok st =
     (let (wordCounts, classTotals) = st; words = get_map wordCounts label
      in (fmupd label (fmupd tok (get0 words tok + 1) words) wordCounts,
          fmupd label (get0 classTotals label + 1) classTotals))"

definition count_record ::
    "data_record \<Rightarrow> (string, (string, int64) fmap) fmap \<times> (string, int64) fmap \<Rightarrow>
     (string, (string, int64) fmap) fmap \<times> (string, int64) fmap" where
  "count_record r st =
     (let (wordCounts, classTotals) = st;
          wordCounts = (case fmlookup wordCounts (Label r) of
              None \<Rightarrow> fmupd (Label r) fmempty wordCounts | Some _ \<Rightarrow> wordCounts)
      in fold (count_token (Label r)) (Tokenize (Text r)) (wordCounts, classTotals))"

definition CountLocal :: "data_record list \<Rightarrow> local_counts" where
  "CountLocal records =
     (let (wordCounts, classTotals) = fold count_record records (fmempty, fmempty)
      in \<lparr>WordCounts = wordCounts, ClassTotals = classTotals\<rparr>)"

section \<open>Aggregation\<close>

record global_model =
  WordProbs :: "(string, (string, float64) fmap) fmap"
  ClassPriors :: "(string, float64) fmap"
  VocabSize :: int64

definition add_word ::
    "string \<Rightarrow> string \<Rightarrow> int64 \<Rightarrow> (string, (string, int64) fmap) fmap \<times> (string, unit) fmap \<Rightarrow>
     (string, (string, int64) fmap) fmap \<times> (string, unit) fmap" where
  "add_word class word n st =
     (let (combined, vocab) = st; words = get_map combined class
      in (fmupd class (fmupd word (get0 words word + n) words) combined, fmupd word () vocab))"

definition add_class ::
    "runtime \<Rightarrow> string \<Rightarrow> (string, int64) fmap \<Rightarrow>
     (string, (string, int64) fmap) fmap \<times> (string, unit) fmap \<Rightarrow>
     (string, (string, int64) fmap) fmap \<times> (string, unit) fmap" where
  "add_class rt class words st =
     (let (combined, vocab) = st;
          combined = (case fmlookup combined class of
              None \<Rightarrow> fmupd class fmempty combined | Some _ \<Rightarrow> combined)
      in go_range (at_key rt class []) words (add_word class) (combined, vocab))"

definition add_total :: "string \<Rightarrow> int64 \<Rightarrow> (string, int64) fmap \<Rightarrow> (string, int64) fmap" where
  "add_total class n totals = fmupd class (get0 totals class + n) totals"

definition add_update ::
    "runtime \<Rightarrow> local_counts \<Rightarrow>
     (string, (string, int64) fmap) fmap \<times> (string, int64) fmap \<times> (string, unit) fmap \<Rightarrow>
     (string, (string, int64) fmap) fmap \<times> (string, int64) fmap \<times> (string, unit) fmap" where
  "add_update rt u st =
     (let (combined, totals, vocab) = st;
          (combined, vocab) = go_range (rt [0]) (WordCounts u) (add_class (sub_run rt 1)) (combined, vocab);
          totals = go_range (rt [2]) (ClassTotals u) add_total totals
      in (combined, totals, vocab))"

definition combine ::
    "runtime \<Rightarrow> local_counts list \<Rightarrow>
     (string, (string, int64) fmap) fmap \<times> (string, int64) fmap \<times> (string, unit) fmap" where
  "combine rt updates =
     fold (\<lambda>(i, u). add_update (sub_run rt i) u) (enumerate 0 updates) (fmempty, fmempty, fmempty)"

definition class_probs ::
    "fpu \<Rightarrow> string order \<Rightarrow> (string, (string, int64) fmap) fmap \<Rightarrow> (string, unit) fmap \<Rightarrow> int64 \<Rightarrow>
     string \<Rightarrow> int64 \<Rightarrow> (string, float64) fmap" where
  "class_probs fp ord combined vocab vocabSize class tot =
     go_range ord vocab
       (\<lambda>word _ probs.
          let n = get0 (get_map combined class) word
          in fmupd word (f_div fp (f_of_int fp (n + 1)) (f_of_int fp (tot + vocabSize))) probs)
       fmempty"

definition Aggregate :: "fpu \<Rightarrow> runtime \<Rightarrow> local_counts list \<Rightarrow> global_model" where
  "Aggregate fp rt updates =
     (let (combined, totals, vocab) = combine (sub_run rt 0) updates;
          vocabSize = of_nat (fcard (fmdom vocab));
          totalTokens = go_range (rt [1]) totals (\<lambda>_ total s. s + total) 0;
          (wordProbs, classPriors) =
            go_range (rt [2]) totals
              (\<lambda>class total (wordProbs, classPriors).
                 (fmupd class (class_probs fp (at_key (sub_run rt 3) class []) combined vocab vocabSize class total) wordProbs,
                  if int64_gt totalTokens 0
                  then fmupd class (f_div fp (f_of_int fp total) (f_of_int fp totalTokens)) classPriors
                  else classPriors))
              (fmempty, fmempty)
      in \<lparr>WordProbs = wordProbs, ClassPriors = classPriors, VocabSize = vocabSize\<rparr>)"

section \<open>Prediction and evaluation\<close>

definition add_token_score :: "fpu \<Rightarrow> global_model \<Rightarrow> string \<Rightarrow> string \<Rightarrow> float64 \<Rightarrow> float64" where
  "add_token_score fp model class tok score =
     (case fmlookup (get_map (WordProbs model) class) tok of
        None \<Rightarrow> score | Some p \<Rightarrow> f_add fp score (f_log fp p))"

definition class_score :: "fpu \<Rightarrow> global_model \<Rightarrow> string \<Rightarrow> string \<Rightarrow> float64 \<Rightarrow> float64" where
  "class_score fp model text class prior =
     fold (add_token_score fp model class) (Tokenize text) (f_log fp prior)"

definition predict_body ::
    "fpu \<Rightarrow> global_model \<Rightarrow> string \<Rightarrow> string \<Rightarrow> float64 \<Rightarrow> string \<times> float64 \<Rightarrow> string \<times> float64" where
  "predict_body fp model text class prior st =
     (let (best, bestScore) = st in
      if f_le prior (Fin 0) then (best, bestScore)
      else (let score = class_score fp model text class prior
            in if f_lt bestScore score then (class, score) else (best, bestScore)))"

definition Predict :: "fpu \<Rightarrow> string order \<Rightarrow> global_model \<Rightarrow> string \<Rightarrow> string" where
  "Predict fp ord model text =
     fst (go_range ord (ClassPriors model) (predict_body fp model text) ('''', NInf))"

record metrics =
  Accuracy :: float64
  Precision :: float64
  Recall :: float64
  F1 :: float64

record confusion =
  c_tp :: int64
  c_fp :: int64
  c_tn :: int64
  c_fn :: int64

definition tally :: "bool \<Rightarrow> bool \<Rightarrow> confusion \<Rightarrow> confusion" where
  "tally actualSpam predSpam c =
     (if actualSpam \<and> predSpam then c\<lparr>c_tp := c_tp c + 1\<rparr>
      else if \<not> actualSpam \<and> predSpam then c\<lparr>c_fp := c_fp c + 1\<rparr>
      else if \<not> actualSpam \<and> \<not> predSpam then c\<lparr>c_tn := c_tn c + 1\<rparr>
      else c\<lparr>c_fn := c_fn c + 1\<rparr>)"

definition confusion_of :: "fpu \<Rightarrow> runtime \<Rightarrow> global_model \<Rightarrow> data_record list \<Rightarrow> confusion" where
  "confusion_of fp rt model test =
     fold (\<lambda>(i, r). tally (Label r = LabelSpam) (Predict fp (rt [i]) model (Text r) = LabelSpam))
       (enumerate 0 test) \<lparr>c_tp = 0, c_fp = 0, c_tn = 0, c_fn = 0\<rparr>"

definition metrics_of :: "fpu \<Rightarrow> confusion \<Rightarrow> metrics" where
  "metrics_of fp c =
     (let total = c_tp c + c_fp c + c_tn c + c_fn c;
          accuracy = (if int64_gt total 0 then f_div fp (f_of_int fp (c_tp c + c_tn c)) (f_of_int fp total) else Fin 0);
          precision = (if int64_gt (c_tp c + c_fp c) 0 then f_div fp (f_of_int fp (c_tp c)) (f_of_int fp (c_tp c + c_fp c)) else Fin 0);
          recall = (if int64_gt (c_tp c + c_fn c) 0 then f_div fp (f_of_int fp (c_tp c)) (f_of_int fp (c_tp c + c_fn c)) else Fin 0);
          f1 = (if f_lt (Fin 0) (f_add fp precision recall)
                then f_div fp (f_mul fp (f_mul fp (Fin 2) precision) recall) (f_add fp precision recall)
                else Fin 0)
      in \<lparr>Accuracy = accuracy, Precision = precision, Recall = recall, F1 = f1\<rparr>)"

definition Evaluate :: "fpu \<Rightarrow> runtime \<Rightarrow> global_model \<Rightarrow> data_record list \<Rightarrow> metrics" where
  "Evaluate fp rt model test = metrics_of fp (confusion_of fp rt model test)"

end
