(* ===== verification/ActorCell.thy ===== *)
theory ActorCell
  imports Transition "HOL-Library.Sublist"
begin

text \<open>
  One running actor: \<^verbatim>\<open>pkg/actor/mailbox.go\<close> and \<^verbatim>\<open>pkg/actor/cell.go\<close>.
  The mailbox is a Go channel of fixed capacity and a \<^verbatim>\<open>closed\<close> flag.  Senders, the
  run loop and the stopping goroutine interleave: a step of the cell is one channel operation
  (or one \<^verbatim>\<open>select\<close>) of one of them, and senders that have passed the first
  \<^verbatim>\<open>select\<close> of \<^verbatim>\<open>enqueue\<close> but not the second are part of the state.
  History fields record what was accepted (\<^verbatim>\<open>Tell\<close> returned nil), rejected and
  handed to the actor.
\<close>

section \<open>Mailbox\<close>

datatype 'm envelope = Msg 'm | StopSignal

datatype mail_error = ErrMailboxClosed

record 'm mailbox =
  ch :: "'m envelope list"
  ch_size :: nat
  mb_closed :: bool

text \<open>\<^verbatim>\<open>make(chan Message, size)\<close> panics on a negative size.\<close>

definition newMailbox :: "int \<Rightarrow> 'm mailbox option" where
  "newMailbox size' = (if size' < 0 then None else Some \<lparr>ch = [], ch_size = nat size', mb_closed = False\<rparr>)"

definition mb_close :: "'m mailbox \<Rightarrow> 'm mailbox" where
  "mb_close mb = (if mb_closed mb then mb else mb\<lparr>mb_closed := True\<rparr>)"

text \<open>The first \<^verbatim>\<open>select\<close> of \<^verbatim>\<open>enqueue\<close>.\<close>

definition enqueue_check :: "'m mailbox \<Rightarrow> mail_error option" where
  "enqueue_check mb = (if mb_closed mb then Some ErrMailboxClosed else None)"

section \<open>Cell\<close>

text \<open>Where the run loop is, and where the (only) call of \<^verbatim>\<open>stop\<close> is.\<close>

datatype 'm runner = NotStarted | Receiving | Handling 'm | Exited

datatype stopper = NotCalled | Closing | Waiting | Returned

text \<open>The actor's hooks and its message handler, as state transformers.\<close>

record ('s, 'm) actor =
  OnStart :: "'s \<Rightarrow> 's"
  Receive :: "'s \<Rightarrow> 'm \<Rightarrow> 's"
  OnStop :: "'s \<Rightarrow> 's"

record ('s, 'm) cell =
  mailbox :: "'m mailbox"
  actor_state :: 's
  runner :: "'m runner"
  stopper :: stopper
  self_stopped :: bool
  senders :: "'m list"
  accepted :: "'m list"
  rejected :: "'m list"
  delivered :: "'m list"
  mark :: nat

text \<open>
  \<^verbatim>\<open>newActorCell\<close>, then \<^verbatim>\<open>start\<close> up to its \<^verbatim>\<open>go\<close> statement:
  OnStart has run on the spawning goroutine, the loop has not begun.
\<close>

definition start_cell :: "('s, 'm) actor \<Rightarrow> 's \<Rightarrow> int \<Rightarrow> ('s, 'm) cell option" where
  "start_cell a s size' =
     (case newMailbox size' of
        None \<Rightarrow> None
      | Some mb \<Rightarrow> Some \<lparr>mailbox = mb, actor_state = OnStart a s, runner = NotStarted, stopper = NotCalled,
          self_stopped = False, senders = [], accepted = [], rejected = [], delivered = [], mark = 0\<rparr>)"

text \<open>What the loop does with an envelope: leave on the stop signal, else call the behavior.\<close>

definition take_envelope :: "'m envelope \<Rightarrow> ('s, 'm) cell \<Rightarrow> ('s, 'm) cell" where
  "take_envelope e c =
     (case e of StopSignal \<Rightarrow> c\<lparr>runner := Exited\<rparr>
      | Msg m \<Rightarrow> c\<lparr>runner := Handling m, delivered := delivered c @ [m]\<rparr>)"

text \<open>
  A send on the channel: it is ready when the loop waits at an empty channel, which takes the
  value directly (the only way for an unbuffered channel), or when the buffer has room.
\<close>

definition receiver_waits :: "('s, 'm) cell \<Rightarrow> bool" where
  "receiver_waits c \<longleftrightarrow> (case runner c of Receiving \<Rightarrow> ch (mailbox c) = [] | _ \<Rightarrow> False)"

definition send_ready :: "('s, 'm) cell \<Rightarrow> bool" where
  "send_ready c \<longleftrightarrow> receiver_waits c \<or> length (ch (mailbox c)) < ch_size (mailbox c)"

definition send_envelope :: "'m envelope \<Rightarrow> ('s, 'm) cell \<Rightarrow> ('s, 'm) cell" where
  "send_envelope e c =
     (if receiver_waits c then take_envelope e c
      else c\<lparr>mailbox := (mailbox c)\<lparr>ch := ch (mailbox c) @ [e]\<rparr>\<rparr>)"

text \<open>The second \<^verbatim>\<open>select\<close> of \<^verbatim>\<open>enqueue\<close>: the outcomes of its ready cases.\<close>

definition enqueue_select :: "'m \<Rightarrow> ('s, 'm) cell \<Rightarrow> (('s, 'm) cell \<times> mail_error option) list" where
  "enqueue_select m c =
     (if send_ready c then [(send_envelope (Msg m) c, None)] else []) @
     (if mb_closed (mailbox c) then [(c, Some ErrMailboxClosed)] else [])"

definition log_tell :: "'m \<Rightarrow> ('s, 'm) cell \<times> mail_error option \<Rightarrow> ('s, 'm) cell" where
  "log_tell m r =
     (case r of (c, None) \<Rightarrow> c\<lparr>accepted := accepted c @ [m]\<rparr>
      | (c, Some _) \<Rightarrow> c\<lparr>rejected := rejected c @ [m]\<rparr>)"

definition receive_next :: "('s, 'm) cell \<Rightarrow> ('s, 'm) cell" where
  "receive_next c =
     (case ch (mailbox c) of [] \<Rightarrow> c
      | e # es \<Rightarrow> take_envelope e (c\<lparr>mailbox := (mailbox c)\<lparr>ch := es\<rparr>\<rparr>))"

definition finish_message :: "('s, 'm) actor \<Rightarrow> 'm \<Rightarrow> ('s, 'm) cell \<Rightarrow> ('s, 'm) cell" where
  "finish_message a m c = c\<lparr>runner := Receiving, actor_state := Receive a (actor_state c) m\<rparr>"

text \<open>The three blocking points of \<^verbatim>\<open>stop\<close>.\<close>

definition stop_close :: "('s, 'm) cell \<Rightarrow> ('s, 'm) cell" where
  "stop_close c = c\<lparr>mailbox := mb_close (mailbox c), stopper := Closing\<rparr>"

definition stop_signal :: "('s, 'm) cell \<Rightarrow> ('s, 'm) cell" where
  "stop_signal c = (send_envelope StopSignal c)\<lparr>stopper := Waiting, mark := length (accepted c)\<rparr>"

definition stop_return :: "('s, 'm) actor \<Rightarrow> ('s, 'm) cell \<Rightarrow> ('s, 'm) cell" where
  "stop_return a c = c\<lparr>stopper := Returned, actor_state := OnStop a (actor_state c)\<rparr>"

text \<open>
  One step.  \<open>call_stop_self\<close> is a handler that calls \<^verbatim>\<open>ctx.Stop(ctx.Self())\<close>: it
  goes on only when its own call of \<^verbatim>\<open>stop\<close> has returned.
\<close>

inductive cell_step :: "('s, 'm) actor \<Rightarrow> ('s, 'm) cell \<Rightarrow> ('s, 'm) cell \<Rightarrow> bool" for a where
  tell_checked: "enqueue_check (mailbox c) = None \<Longrightarrow> cell_step a c (c\<lparr>senders := senders c @ [m]\<rparr>)"
| tell_refused: "enqueue_check (mailbox c) = Some e \<Longrightarrow> cell_step a c (c\<lparr>rejected := rejected c @ [m]\<rparr>)"
| tell_selected: "senders c = xs @ m # ys \<Longrightarrow> r \<in> set (enqueue_select m (c\<lparr>senders := xs @ ys\<rparr>)) \<Longrightarrow>
    cell_step a c (log_tell m r)"
| run_started: "runner c = NotStarted \<Longrightarrow> cell_step a c (c\<lparr>runner := Receiving\<rparr>)"
| run_received: "runner c = Receiving \<Longrightarrow> ch (mailbox c) \<noteq> [] \<Longrightarrow> cell_step a c (receive_next c)"
| run_finished: "runner c = Handling m \<Longrightarrow> \<not> (self_stopped c \<and> stopper c \<noteq> Returned) \<Longrightarrow>
    cell_step a c (finish_message a m c)"
| call_stop: "stopper c = NotCalled \<Longrightarrow> cell_step a c (stop_close c)"
| call_stop_self: "stopper c = NotCalled \<Longrightarrow> runner c = Handling m \<Longrightarrow>
    cell_step a c ((stop_close c)\<lparr>self_stopped := True\<rparr>)"
| stop_signalled: "stopper c = Closing \<Longrightarrow> send_ready c \<Longrightarrow> cell_step a c (stop_signal c)"
| stop_returned: "stopper c = Waiting \<Longrightarrow> runner c = Exited \<Longrightarrow> cell_step a c (stop_return a c)"

inductive_cases cell_stepE: "cell_step a c c'"

section \<open>Invariant\<close>

primrec messages :: "'m envelope list \<Rightarrow> 'm list" where
  "messages [] = []"
| "messages (e # es) = (case e of Msg m \<Rightarrow> m # messages es | StopSignal \<Rightarrow> messages es)"

lemma messages_append [simp]: "messages (xs @ ys) = messages xs @ messages ys"
  by (induction xs) (simp_all split: envelope.split)

text \<open>The messages queued in front of the stop signal.\<close>

primrec before_stop :: "'m envelope list \<Rightarrow> 'm list" where
  "before_stop [] = []"
| "before_stop (e # es) = (case e of Msg m \<Rightarrow> m # before_stop es | StopSignal \<Rightarrow> [])"

lemma before_stop_append:
  "before_stop (xs @ ys) = (if StopSignal \<in> set xs then before_stop xs else messages xs @ before_stop ys)"
  by (induction xs) (auto split: envelope.split)

lemma before_stop_messages: "StopSignal \<notin> set xs \<Longrightarrow> before_stop xs = messages xs"
  by (induction xs) (auto split: envelope.split)

text \<open>The messages whose handling has completed.\<close>

definition handled :: "('s, 'm) cell \<Rightarrow> 'm list" where
  "handled c = (case runner c of Handling m \<Rightarrow> butlast (delivered c) | _ \<Rightarrow> delivered c)"

definition queue_ok :: "('s, 'm) cell \<Rightarrow> bool" where
  "queue_ok c \<longleftrightarrow> accepted c = delivered c @ messages (ch (mailbox c)) \<and>
     length (ch (mailbox c)) \<le> ch_size (mailbox c)"

definition state_ok :: "('s, 'm) actor \<Rightarrow> 's \<Rightarrow> ('s, 'm) cell \<Rightarrow> bool" where
  "state_ok a s c \<longleftrightarrow>
     actor_state c = (if stopper c = Returned then OnStop a else id) (foldl (Receive a) (OnStart a s) (handled c)) \<and>
     (\<forall>m. runner c = Handling m \<longrightarrow> delivered c \<noteq> [] \<and> last (delivered c) = m)"

definition stop_ok :: "('s, 'm) cell \<Rightarrow> bool" where
  "stop_ok c \<longleftrightarrow>
     (mb_closed (mailbox c) \<longleftrightarrow> stopper c \<noteq> NotCalled) \<and>
     (stopper c \<in> {NotCalled, Closing} \<longrightarrow> runner c \<noteq> Exited \<and> StopSignal \<notin> set (ch (mailbox c))) \<and>
     (runner c = Exited \<longrightarrow> StopSignal \<notin> set (ch (mailbox c)) \<and> mark c = length (delivered c)) \<and>
     (stopper c = Waiting \<and> runner c \<noteq> Exited \<longrightarrow>
        count_list (ch (mailbox c)) StopSignal = 1 \<and>
        mark c = length (delivered c) + length (before_stop (ch (mailbox c)))) \<and>
     (stopper c = Returned \<longrightarrow> runner c = Exited) \<and>
     (self_stopped c \<longrightarrow> stopper c \<noteq> NotCalled \<and> stopper c \<noteq> Returned \<and> (\<exists>m. runner c = Handling m))"

definition cell_inv :: "('s, 'm) actor \<Rightarrow> 's \<Rightarrow> ('s, 'm) cell \<Rightarrow> bool" where
  "cell_inv a s c \<longleftrightarrow> queue_ok c \<and> state_ok a s c \<and> stop_ok c"

lemmas cell_defs = enqueue_select_def send_envelope_def send_ready_def receiver_waits_def take_envelope_def
  log_tell_def receive_next_def finish_message_def stop_close_def stop_signal_def stop_return_def
  mb_close_def enqueue_check_def

lemma queue_ok_step: "cell_step a c c' \<Longrightarrow> queue_ok c \<Longrightarrow> queue_ok c'"
  by (induction rule: cell_step.induct)
    (auto simp: cell_defs queue_ok_def split: if_splits envelope.splits runner.splits list.splits)

lemma foldl_butlast: "xs \<noteq> [] \<Longrightarrow> foldl f s xs = f (foldl f s (butlast xs)) (last xs)"
  by (metis append_butlast_last_id foldl_Cons foldl_Nil foldl_append)

lemma state_ok_cong:
  "actor_state c' = actor_state c \<Longrightarrow> stopper c' = stopper c \<Longrightarrow> runner c' = runner c \<Longrightarrow>
   delivered c' = delivered c \<Longrightarrow> state_ok a s c' = state_ok a s c"
  unfolding state_ok_def handled_def by (simp only:)

lemma state_ok_fields [simp]:
  "state_ok a s (c\<lparr>senders := x\<rparr>) = state_ok a s c" "state_ok a s (c\<lparr>accepted := y\<rparr>) = state_ok a s c"
  "state_ok a s (c\<lparr>rejected := y\<rparr>) = state_ok a s c" "state_ok a s (c\<lparr>mailbox := z\<rparr>) = state_ok a s c"
  "state_ok a s (c\<lparr>senders := x, rejected := y\<rparr>) = state_ok a s c"
  by (rule state_ok_cong; simp)+

lemma state_ok_open:
  "stopper c \<noteq> Returned \<Longrightarrow> stopper c' \<noteq> Returned \<Longrightarrow> actor_state c' = actor_state c \<Longrightarrow> runner c' = runner c \<Longrightarrow>
   delivered c' = delivered c \<Longrightarrow> state_ok a s c' = state_ok a s c"
  unfolding state_ok_def handled_def by (simp only: if_False)

lemma state_ok_take:
  "state_ok a s c \<Longrightarrow> runner c = Receiving \<Longrightarrow> state_ok a s (take_envelope e c)"
  by (cases e) (auto simp: take_envelope_def state_ok_def handled_def)

lemma receiver_waits_Receiving: "receiver_waits c \<Longrightarrow> runner c = Receiving"
  by (simp add: receiver_waits_def split: runner.splits)

lemma state_ok_send: "state_ok a s c \<Longrightarrow> state_ok a s (send_envelope e c)"
  by (cases "receiver_waits c")
    (auto simp: send_envelope_def state_ok_take receiver_waits_Receiving intro: state_ok_cong [THEN iffD2])

lemma stopper_send [simp]:
  "stopper (take_envelope e c) = stopper c" "stopper (send_envelope e c) = stopper c"
  by (simp_all add: send_envelope_def take_envelope_def split: envelope.split)

lemma state_ok_step:
  assumes "cell_step a c c'" and stop: "stop_ok c" and ok: "state_ok a s c"
  shows "state_ok a s c'"
  using assms(1)
proof cases
  case (tell_selected xs m ys r)
  let ?d = "c\<lparr>senders := xs @ ys\<rparr>"
  have d: "state_ok a s ?d" using ok by (auto intro: state_ok_cong [THEN iffD2])
  have "state_ok a s (log_tell m r)" if "r = (send_envelope (Msg m) ?d, None) \<or> r = (?d, Some ErrMailboxClosed)"
    using that d state_ok_send [OF d, of "Msg m"] by (auto simp: log_tell_def)
  then show ?thesis using tell_selected by (auto simp: enqueue_select_def split: if_splits)
next
  case run_received
  then obtain e es where e: "ch (mailbox c) = e # es" by (cases "ch (mailbox c)") auto
  have "state_ok a s (c\<lparr>mailbox := (mailbox c)\<lparr>ch := es\<rparr>\<rparr>)" using ok by (auto intro: state_ok_cong [THEN iffD2])
  then show ?thesis using run_received by (simp add: receive_next_def e state_ok_take)
next
  case (run_finished m)
  then show ?thesis using ok stop
    by (auto simp: state_ok_def stop_ok_def handled_def finish_message_def foldl_butlast)
next
  case stop_signalled
  let ?d = "send_envelope StopSignal c"
  have "state_ok a s ?d" using ok by (rule state_ok_send)
  moreover have "state_ok a s (stop_signal c) = state_ok a s ?d"
    by (rule state_ok_open) (simp_all add: stop_signal_def stop_signalled)
  ultimately show ?thesis using stop_signalled(1) by simp
next
  case call_stop
  have "state_ok a s (stop_close c) = state_ok a s c"
    by (rule state_ok_open) (simp_all add: stop_close_def call_stop)
  then show ?thesis using call_stop(1) ok by simp
next
  case (call_stop_self m)
  have "state_ok a s ((stop_close c)\<lparr>self_stopped := True\<rparr>) = state_ok a s c"
    by (rule state_ok_open) (simp_all add: stop_close_def call_stop_self)
  then show ?thesis using call_stop_self(1) ok by simp
next
  case run_started
  then show ?thesis using ok by (simp add: state_ok_def handled_def)
next
  case stop_returned
  then show ?thesis using ok by (simp add: state_ok_def handled_def stop_return_def)
qed (use ok in simp_all)

lemma stop_ok_fields [simp]:
  "stop_ok (c\<lparr>senders := x\<rparr>) = stop_ok c" "stop_ok (c\<lparr>accepted := y\<rparr>) = stop_ok c"
  "stop_ok (c\<lparr>rejected := y\<rparr>) = stop_ok c" "stop_ok (c\<lparr>senders := x, rejected := y\<rparr>) = stop_ok c"
  by (simp_all add: stop_ok_def)

lemma stop_ok_send: "stop_ok c \<Longrightarrow> stop_ok (send_envelope (Msg m) c)"
proof (cases "receiver_waits c")
  case True
  then have "runner c = Receiving" "ch (mailbox c) = []"
    by (simp_all add: receiver_waits_def split: runner.splits)
  moreover assume "stop_ok c"
  ultimately show ?thesis using True
    by (cases "stopper c") (simp_all add: stop_ok_def send_envelope_def take_envelope_def)
next
  case False
  moreover assume "stop_ok c"
  moreover have "StopSignal \<in> set (ch (mailbox c))" if "count_list (ch (mailbox c)) StopSignal = Suc 0"
    using that by (metis count_list_0_iff nat.distinct(1))
  ultimately show ?thesis
    by (cases "stopper c"; cases "runner c") (simp_all add: stop_ok_def send_envelope_def before_stop_append)
qed

lemma stop_ok_step: "cell_step a c c' \<Longrightarrow> queue_ok c \<Longrightarrow> stop_ok c \<Longrightarrow> stop_ok c'"
proof (induction rule: cell_step.induct)
  case (tell_selected c xs m ys r)
  then show ?case
    by (auto simp: enqueue_select_def log_tell_def split: if_splits intro!: stop_ok_send)
next
  case (run_received c)
  then obtain e es where e: "ch (mailbox c) = e # es" by (cases "ch (mailbox c)") auto
  then show ?case using run_received
    by (cases e; cases "stopper c") (auto simp: receive_next_def take_envelope_def stop_ok_def count_list_0_iff)
next
  case (stop_signalled c)
  then show ?case
    by (cases "runner c"; cases "receiver_waits c")
      (simp_all add: stop_signal_def send_envelope_def take_envelope_def
        stop_ok_def queue_ok_def before_stop_append before_stop_messages count_list_0_iff receiver_waits_def)
qed (auto simp: stop_ok_def stop_close_def mb_close_def finish_message_def stop_return_def split: if_splits)

interpretation cell_queue: fifo_channel delivered "\<lambda>c. messages (ch (mailbox c))" "\<lambda>m. send_envelope (Msg m)" receive_next
proof unfold_locales
  fix m :: 'm and q :: "('s, 'm) cell"
  show "delivered (send_envelope (Msg m) q) @ messages (ch (mailbox (send_envelope (Msg m) q))) =
      delivered q @ messages (ch (mailbox q)) @ [m]"
    by (cases "runner q") (simp_all add: send_envelope_def receiver_waits_def take_envelope_def)
next
  fix q :: "('s, 'm) cell"
  show "delivered (receive_next q) @ messages (ch (mailbox (receive_next q))) = delivered q @ messages (ch (mailbox q))"
    by (simp add: receive_next_def take_envelope_def split: list.split envelope.split)
qed

lemma ch_size_step: "cell_step a c c' \<Longrightarrow> ch_size (mailbox c') = ch_size (mailbox c)"
  by (induction rule: cell_step.induct)
    (auto simp: cell_defs split: if_splits envelope.splits list.splits)

definition cell_good :: "('s, 'm) actor \<Rightarrow> 's \<Rightarrow> int \<Rightarrow> ('s, 'm) cell \<Rightarrow> bool" where
  "cell_good a s n c \<longleftrightarrow> cell_inv a s c \<and> int (ch_size (mailbox c)) = n"

interpretation cell_sys: safe_system "\<lambda>c. start_cell a s n = Some c" "cell_step a" "cell_good a s n" for a s n
proof unfold_locales
  fix c assume "start_cell a s n = Some c"
  then show "cell_good a s n c"
    by (auto simp: start_cell_def newMailbox_def cell_good_def cell_inv_def queue_ok_def state_ok_def
        stop_ok_def handled_def split: if_splits)
next
  fix c c' assume "cell_good a s n c" and "cell_step a c c'"
  then show "cell_good a s n c'"
    using queue_ok_step [of a c c'] state_ok_step [of a c c' s] stop_ok_step [of a c c'] ch_size_step [of a c c']
    by (simp add: cell_good_def cell_inv_def)
qed

abbreviation reachable_cell :: "('s, 'm) actor \<Rightarrow> 's \<Rightarrow> int \<Rightarrow> ('s, 'm) cell \<Rightarrow> bool" where
  "reachable_cell a s n \<equiv> reaches (\<lambda>c. start_cell a s n = Some c) (cell_step a)"

section \<open>Stopping\<close>

text \<open>Whatever was accepted when \<^verbatim>\<open>stop\<close> was called stays in front of the stop signal.\<close>

lemma accepted_step: "cell_step a c c' \<Longrightarrow> prefix (accepted c) (accepted c')"
  by (induction rule: cell_step.induct)
    (auto simp: cell_defs prefix_def split: if_splits envelope.splits list.splits)

lemma stop_window_step:
  assumes "cell_step a c c'" and "stopper c \<noteq> NotCalled" and "stopper c \<noteq> Closing \<longrightarrow> k \<le> mark c" and "k \<le> length (accepted c)"
  shows "stopper c' \<noteq> NotCalled \<and> (stopper c' \<noteq> Closing \<longrightarrow> k \<le> mark c')"
  using assms
  by (induction rule: cell_step.induct)
    (auto simp: cell_defs split: if_splits envelope.splits list.splits)

lemma stop_window:
  assumes "(cell_step a)\<^sup>*\<^sup>* c c'" and "stopper c = Closing"
  shows "prefix (accepted c) (accepted c') \<and> stopper c' \<noteq> NotCalled \<and>
    (stopper c' \<noteq> Closing \<longrightarrow> length (accepted c) \<le> mark c')"
  using assms
proof (induction rule: rtranclp_induct)
  case (step y z)
  then have p: "prefix (accepted c) (accepted z)" using accepted_step prefix_order.trans by blast
  moreover have "length (accepted c) \<le> length (accepted y)" using step by (simp add: prefix_length_le)
  ultimately show ?case using stop_window_step [OF step(2), of "length (accepted c)"] step by auto
qed simp

text \<open>A measure that every step except a refused send decreases once the mailbox is closed.\<close>

definition stop_measure :: "('s, 'm) cell \<Rightarrow> nat" where
  "stop_measure c = 3 * length (senders c) + 2 * length (ch (mailbox c)) +
     (case runner c of NotStarted \<Rightarrow> 1 | Handling _ \<Rightarrow> 1 | _ \<Rightarrow> 0) +
     (case stopper c of NotCalled \<Rightarrow> 8 | Closing \<Rightarrow> 4 | Waiting \<Rightarrow> 1 | Returned \<Rightarrow> 0)"

definition cell_moves :: "('s, 'm) actor \<Rightarrow> ('s, 'm) cell \<Rightarrow> ('s, 'm) cell \<Rightarrow> bool" where
  "cell_moves a c c' \<longleftrightarrow> cell_step a c c' \<and> (\<forall>m. c' \<noteq> c\<lparr>rejected := rejected c @ [m]\<rparr>)"

lemma stop_measure_step:
  assumes "cell_moves a c c'" and "stop_ok c" and "stopper c \<noteq> NotCalled"
  shows "stop_measure c' < stop_measure c"
proof -
  have "cell_step a c c'" using assms(1) by (simp add: cell_moves_def)
  then show ?thesis
  proof cases
    case (tell_selected xs m ys r)
    then show ?thesis
      by (cases "runner c")
        (auto simp: enqueue_select_def log_tell_def send_envelope_def receiver_waits_def take_envelope_def
          stop_measure_def split: if_splits)
  next
    case run_received
    then show ?thesis
      by (cases "ch (mailbox c)") (auto simp: receive_next_def take_envelope_def stop_measure_def split: envelope.split)
  next
    case stop_signalled
    then show ?thesis
      by (cases "runner c") (auto simp: stop_signal_def send_envelope_def receiver_waits_def take_envelope_def stop_measure_def)
  qed (use assms in \<open>auto simp: cell_moves_def stop_ok_def enqueue_check_def stop_measure_def finish_message_def stop_return_def\<close>)
qed

lemma cell_progress:
  assumes "stop_ok c" and "stopper c = Closing \<or> stopper c = Waiting" and "\<not> self_stopped c"
  shows "\<exists>c'. cell_moves a c c'"
proof (cases "runner c")
  case NotStarted
  then have "cell_moves a c (c\<lparr>runner := Receiving\<rparr>)"
    by (simp add: cell_moves_def cell_step.run_started) (metis cell.select_convs(3) cell.surjective cell.update_convs(3,8) runner.distinct(1))
  then show ?thesis ..
next
  case Receiving
  show ?thesis
  proof (cases "ch (mailbox c) = []")
    case False
    then obtain e es where e: "ch (mailbox c) = e # es" by (cases "ch (mailbox c)") auto
    have "runner (receive_next c) \<noteq> Receiving"
      by (simp add: receive_next_def e take_envelope_def split: envelope.split)
    then have "cell_moves a c (receive_next c)"
      using Receiving False by (auto simp: cell_moves_def cell_step.run_received)
    then show ?thesis ..
  next
    case True
    then have "stopper c = Closing" using assms Receiving by (auto simp: stop_ok_def)
    moreover have "send_ready c" using True Receiving by (simp add: send_ready_def receiver_waits_def)
    moreover have "stopper (stop_signal c) = Waiting" by (simp add: stop_signal_def)
    ultimately have "cell_moves a c (stop_signal c)" by (auto simp: cell_moves_def cell_step.stop_signalled)
    then show ?thesis ..
  qed
next
  case (Handling m)
  have "runner (finish_message a m c) = Receiving" by (simp add: finish_message_def)
  then have "cell_moves a c (finish_message a m c)"
    using Handling assms(3) by (auto simp: cell_moves_def cell_step.run_finished)
  then show ?thesis ..
next
  case Exited
  then have "stopper c = Waiting" using assms by (auto simp: stop_ok_def)
  moreover have "stopper (stop_return a c) = Returned" by (simp add: stop_return_def)
  ultimately have "cell_moves a c (stop_return a c)"
    using Exited by (auto simp: cell_moves_def cell_step.stop_returned)
  then show ?thesis ..
qed

lemma self_stopped_step: "cell_step a c c' \<Longrightarrow> stopper c \<noteq> NotCalled \<Longrightarrow> self_stopped c' = self_stopped c \<and> stopper c' \<noteq> NotCalled"
  by (induction rule: cell_step.induct)
    (auto simp: cell_defs split: if_splits envelope.splits list.splits)

text \<open>The goroutines of a cell that is being stopped, as a terminating system.\<close>

definition cell_stopping :: "('s, 'm) actor \<Rightarrow> 's \<Rightarrow> int \<Rightarrow> bool \<Rightarrow> ('s, 'm) cell \<Rightarrow> bool" where
  "cell_stopping a s n self c \<longleftrightarrow> cell_good a s n c \<and> stopper c \<noteq> NotCalled \<and> self_stopped c = self"

interpretation cell_stop: terminating_system
  "cell_stopping a s n self" "cell_moves a" "cell_stopping a s n self" stop_measure for a s n self
proof unfold_locales
  fix c c'
  assume c: "cell_stopping a s n self c" and m: "cell_moves a c c'"
  then have good: "cell_good a s n c" "stopper c \<noteq> NotCalled" and st: "cell_step a c c'"
    by (simp_all add: cell_stopping_def cell_moves_def)
  show "cell_stopping a s n self c'"
    using cell_sys.step_good [OF good(1) st] self_stopped_step [OF st good(2)] c by (simp add: cell_stopping_def)
  show "stop_measure c' < stop_measure c"
    using stop_measure_step [OF m _ good(2)] good(1) by (simp add: cell_good_def cell_inv_def)
qed

text \<open>A self-stopped actor stays in its handler.\<close>

lemma self_stop_step:
  "cell_step a c c' \<Longrightarrow> stop_ok c \<Longrightarrow> self_stopped c \<Longrightarrow>
   self_stopped c' \<and> runner c' = runner c \<and> actor_state c' = actor_state c"
  by (induction rule: cell_step.induct)
    (auto simp: cell_defs stop_ok_def split: if_splits envelope.splits list.splits)

lemma exited_step: "cell_step a c c' \<Longrightarrow> runner c = Exited \<Longrightarrow> runner c' = Exited \<and> delivered c' = delivered c"
  by (induction rule: cell_step.induct) (auto simp: cell_defs split: if_splits list.splits)

lemma exited_steps:
  "(cell_step a)\<^sup>*\<^sup>* c c' \<Longrightarrow> runner c = Exited \<Longrightarrow> delivered c' = delivered c"
proof -
  assume "(cell_step a)\<^sup>*\<^sup>* c c'" and "runner c = Exited"
  then have "runner c' = Exited \<and> delivered c' = delivered c"
    by (induction rule: rtranclp_induct) (auto dest: exited_step)
  then show ?thesis ..
qed

section \<open>Properties\<close>

text \<open>C7: A mailbox is a bounded FIFO queue and loses nothing before the stop signal: in every reachable
state, under every interleaving of senders, the run loop and a stop, the messages whose Tell returned
nil are exactly the delivered ones followed by the queued ones, in the order they were accepted, and the
queue never exceeds the channel's capacity.\<close>

theorem mailbox_fifo:
  assumes "reachable_cell a s n c"
  shows "accepted c = delivered c @ messages (ch (mailbox c)) \<and> int (length (ch (mailbox c))) \<le> n"
  using cell_sys.reaches_good [OF assms] by (simp add: cell_good_def cell_inv_def queue_ok_def)

definition counting_actor :: "(nat list, nat) actor" where
  "counting_actor = \<lparr>OnStart = (\<lambda>s. s), Receive = (\<lambda>s m. s @ [m]), OnStop = (\<lambda>s. s)\<rparr>"

definition fresh_cell :: "(nat list, nat) cell" where
  "fresh_cell = \<lparr>mailbox = \<lparr>ch = [], ch_size = 1, mb_closed = False\<rparr>, actor_state = [], runner = NotStarted,
     stopper = NotCalled, self_stopped = False, senders = [], accepted = [], rejected = [], delivered = [], mark = 0\<rparr>"

lemma fresh_cell_start: "start_cell counting_actor [] 1 = Some fresh_cell"
  by (simp add: start_cell_def newMailbox_def counting_actor_def fresh_cell_def)

lemma fresh_cell_reachable: "reachable_cell counting_actor [] 1 fresh_cell"
  by (rule reaches_start) (rule fresh_cell_start)

definition tell_now :: "'m \<Rightarrow> ('s, 'm) cell \<Rightarrow> ('s, 'm) cell" where
  "tell_now m c = (send_envelope (Msg m) c)\<lparr>accepted := accepted c @ [m]\<rparr>"

lemma tell_now_reachable:
  assumes "reachable_cell a s n c" and "\<not> mb_closed (mailbox c)" and "send_ready c" and "senders c = []"
  shows "reachable_cell a s n (tell_now m c)"
proof -
  let ?d = "c\<lparr>senders := [m]\<rparr>"
  have eq: "c\<lparr>senders := []\<rparr> = c" using assms(4) by (cases c) simp
  have "cell_step a c ?d" using cell_step.tell_checked [of c a m] assms(2,4) by (simp add: enqueue_check_def)
  moreover have "cell_step a ?d (log_tell m (send_envelope (Msg m) c, None))"
    using assms(3) by (intro cell_step.tell_selected [of _ "[]" _ "[]"]) (simp_all add: enqueue_select_def eq)
  moreover have "log_tell m (send_envelope (Msg m) c, None) = tell_now m c"
    by (simp add: log_tell_def tell_now_def send_envelope_def take_envelope_def)
  ultimately show ?thesis using assms(1) by (metis reaches_step)
qed

definition told_cell :: "(nat list, nat) cell" where
  "told_cell = tell_now 7 fresh_cell"

lemma told_cell_reachable: "reachable_cell counting_actor [] 1 told_cell"
  unfolding told_cell_def using fresh_cell_reachable
  by (rule tell_now_reachable) (simp_all add: fresh_cell_def send_ready_def)

theorem mailbox_fifo_witness:
  "accepted told_cell = delivered told_cell @ messages (ch (mailbox told_cell)) \<and> int (length (ch (mailbox told_cell))) \<le> 1"
  by (rule mailbox_fifo [OF told_cell_reachable])

text \<open>Handlers run one at a time, in order: between two messages the actor's state is the fold of
its handler over the delivered messages, from the state OnStart left, and when stop has returned it is
what OnStop makes of the fold over everything delivered.\<close>

theorem handlers_sequential:
  assumes "reachable_cell a s n c"
  shows "actor_state c = (if stopper c = Returned then OnStop a else id) (foldl (Receive a) (OnStart a s) (handled c))"
  using cell_sys.reaches_good [OF assms] by (simp add: cell_good_def cell_inv_def state_ok_def)

theorem handlers_sequential_witness:
  "actor_state told_cell = (if stopper told_cell = Returned then OnStop counting_actor else id)
     (foldl (Receive counting_actor) (OnStart counting_actor []) (handled told_cell))"
  by (rule handlers_sequential [OF told_cell_reachable])

text \<open>C8: Stop drains: every message accepted before stop was called has been delivered when stop
returns, whatever senders still do while it runs.\<close>

theorem stop_delivers_accepted:
  assumes "reachable_cell a s n c" and "stopper c = NotCalled" and "(cell_step a)\<^sup>*\<^sup>* (stop_close c) c'"
    and "stopper c' = Returned"
  shows "prefix (accepted c) (delivered c')"
proof -
  have "reachable_cell a s n c'"
    using assms by (intro reaches_rtranclp [OF assms(3)]) (auto intro: reaches_step cell_step.call_stop)
  then have good: "queue_ok c'" "stop_ok c'"
    using cell_sys.reaches_good [of a s n c'] by (simp_all add: cell_good_def cell_inv_def)
  have "prefix (accepted c) (accepted c') \<and> length (accepted c) \<le> mark c'"
    using stop_window [OF assms(3)] assms(4) by (simp add: stop_close_def)
  moreover have "mark c' = length (delivered c')" "accepted c' = delivered c' @ messages (ch (mailbox c'))"
    using good assms(4) by (auto simp: stop_ok_def queue_ok_def)
  ultimately show ?thesis by (metis prefix_length_prefix prefixI)
qed

text \<open>A run of the stop protocol on a cell with one queued message.\<close>

definition stopped_cell :: "(nat list, nat) cell" where
  "stopped_cell = stop_return counting_actor (receive_next (stop_signal (finish_message counting_actor 7
     (receive_next ((stop_close told_cell)\<lparr>runner := Receiving\<rparr>)))))"

lemmas told_cell_eval = told_cell_def tell_now_def fresh_cell_def send_envelope_def receiver_waits_def
  take_envelope_def counting_actor_def finish_message_def stop_close_def mb_close_def stop_signal_def
  receive_next_def stop_return_def

lemma stopped_cell_steps: "(cell_step counting_actor)\<^sup>*\<^sup>* (stop_close told_cell) stopped_cell"
proof -
  let ?c1 = "(stop_close told_cell)\<lparr>runner := Receiving\<rparr>"
  let ?c2 = "receive_next ?c1"
  let ?c3 = "finish_message counting_actor 7 ?c2"
  have "cell_step counting_actor (stop_close told_cell) ?c1"
    by (rule cell_step.run_started) (simp add: told_cell_eval)
  moreover have "cell_step counting_actor ?c1 ?c2"
    by (rule cell_step.run_received) (simp_all add: told_cell_eval)
  moreover have "cell_step counting_actor ?c2 ?c3"
    by (rule cell_step.run_finished) (simp_all add: told_cell_eval)
  moreover have "cell_step counting_actor ?c3 (stop_signal ?c3)"
    by (rule cell_step.stop_signalled) (simp_all add: told_cell_eval send_ready_def)
  ultimately have "(cell_step counting_actor)\<^sup>*\<^sup>* (stop_close told_cell) (stop_signal ?c3)"
    by (meson converse_rtranclp_into_rtranclp rtranclp.rtrancl_refl)
  moreover have "stopped_cell = stop_return counting_actor (stop_signal ?c3)"
    by (simp add: stopped_cell_def told_cell_eval)
  moreover have "cell_step counting_actor (stop_signal ?c3) (stop_return counting_actor (stop_signal ?c3))"
    by (rule cell_step.stop_returned) (simp_all add: told_cell_eval)
  ultimately show ?thesis by (metis rtranclp.rtrancl_into_rtrancl)
qed

theorem stop_delivers_accepted_witness: "prefix (accepted told_cell) (delivered stopped_cell)"
  by (rule stop_delivers_accepted [OF told_cell_reachable _ stopped_cell_steps])
    (simp_all add: stopped_cell_def told_cell_eval)

lemma self_stop_stays:
  assumes "reachable_cell a s n c" and "self_stopped c" and "(cell_step a)\<^sup>*\<^sup>* c c'"
  shows "stopper c' \<in> {Closing, Waiting} \<and> runner c' = runner c \<and> actor_state c' = actor_state c"
proof -
  from assms(3) have "reachable_cell a s n c' \<and> self_stopped c' \<and> runner c' = runner c \<and> actor_state c' = actor_state c"
  proof (induction rule: rtranclp_induct)
    case (step y z)
    then have "stop_ok y" using cell_sys.reaches_good [of a s n y] by (simp add: cell_good_def cell_inv_def)
    moreover have "reachable_cell a s n z" using step by (intro reaches_step [of _ "cell_step a" y z]) simp_all
    ultimately show ?case using step.IH self_stop_step [OF step.hyps(2)] by simp
  qed (simp add: assms)
  then show ?thesis
    using cell_sys.reaches_good [of a s n c'] by (cases "stopper c'") (auto simp: cell_good_def cell_inv_def stop_ok_def)
qed

text \<open>C9: When stop returns: if an actor is stopped by another goroutine, then once its mailbox is closed every run of the
goroutines involved makes at most \<open>stop_measure\<close> steps (new senders are refused and do not count), and until
stop has returned some step is always possible, provided the handlers return.  If it is stopped by its own handler,
which does not return then, stop never returns.\<close>

theorem stop_terminates:
  assumes "reachable_cell a s n c" and "stopper c \<noteq> NotCalled" and "(cell_moves a ^^ k) c c'"
  shows "if self_stopped c then stopper c' \<noteq> Returned
    else k \<le> stop_measure c \<and> (stopper c' = Returned \<or> (\<exists>c''. cell_moves a c' c''))"
proof (cases "self_stopped c")
  case True
  have "(cell_moves a)\<^sup>*\<^sup>* c c'" using assms(3) by (rule relpowp_imp_rtranclp)
  then have "(cell_step a)\<^sup>*\<^sup>* c c'" by (rule rtranclp_mono [THEN predicate2D, rotated]) (auto simp: cell_moves_def)
  from self_stop_stays [OF assms(1) True this] True show ?thesis by auto
next
  case False
  then have "cell_stopping a s n False c"
    using cell_sys.reaches_good [OF assms(1)] assms(2) by (simp add: cell_stopping_def)
  note run = cell_stop.run_weight [OF this assms(3)]
  then have b: "k \<le> stop_measure c" "stopper c' \<noteq> NotCalled" and "stop_ok c'" "\<not> self_stopped c'"
    by (simp_all add: cell_stopping_def cell_good_def cell_inv_def)
  moreover have "stopper c' = Closing \<or> stopper c' = Waiting \<or> stopper c' = Returned"
    using b by (cases "stopper c'") auto
  ultimately show ?thesis using False b cell_progress by auto
qed

lemma closing_cell_reachable: "reachable_cell counting_actor [] 1 (stop_close told_cell)"
  by (rule reaches_step [OF told_cell_reachable cell_step.call_stop]) (simp add: told_cell_eval)

text \<open>A message can be accepted and never delivered: a sender that has passed the first select when
stop closes the mailbox may still win the second one after the stop signal was queued; its Tell returns
nil, and no continuation of the run hands the message to the actor.\<close>

theorem accepted_message_lost:
  "\<exists>c. reachable_cell a s 1 c \<and> stopper c = Returned \<and> accepted c = [m] \<and> rejected c = [] \<and>
     delivered ` {c'. (cell_step a)\<^sup>*\<^sup>* c c'} = {[]}"
proof -
  define c0 :: "('a, 'b) cell" where
    "c0 = \<lparr>mailbox = \<lparr>ch = [], ch_size = 1, mb_closed = False\<rparr>, actor_state = OnStart a s, runner = NotStarted,
       stopper = NotCalled, self_stopped = False, senders = [], accepted = [], rejected = [], delivered = [], mark = 0\<rparr>"
  define c1 where "c1 = c0\<lparr>senders := [m]\<rparr>"
  define c2 where "c2 = c1\<lparr>runner := Receiving\<rparr>"
  define c3 where "c3 = stop_close c2"
  define c4 where "c4 = stop_signal c3"
  define c5 where "c5 = log_tell m (send_envelope (Msg m) (c4\<lparr>senders := []\<rparr>), None)"
  define c6 where "c6 = stop_return a c5"
  note defs = c0_def c1_def c2_def c3_def c4_def c5_def c6_def cell_defs
  have "start_cell a s 1 = Some c0" by (simp add: start_cell_def newMailbox_def c0_def)
  then have start: "reachable_cell a s 1 c0" by (rule reaches_start)
  have "cell_step a c0 c1" unfolding c1_def using cell_step.tell_checked [of c0 a m] by (simp add: c0_def enqueue_check_def)
  moreover have "cell_step a c1 c2" unfolding c2_def by (rule cell_step.run_started) (simp add: c0_def c1_def)
  moreover have "cell_step a c2 c3" unfolding c3_def by (rule cell_step.call_stop) (simp add: c0_def c1_def c2_def)
  moreover have "cell_step a c3 c4" unfolding c4_def by (rule cell_step.stop_signalled) (simp_all add: defs)
  moreover have "cell_step a c4 c5"
    unfolding c5_def by (rule cell_step.tell_selected [of _ "[]" _ "[]"]) (simp_all add: defs)
  moreover have "cell_step a c5 c6" unfolding c6_def by (rule cell_step.stop_returned) (simp_all add: defs)
  ultimately have "(cell_step a)\<^sup>*\<^sup>* c0 c6" by (meson converse_rtranclp_into_rtranclp rtranclp.rtrancl_refl)
  then have "reachable_cell a s 1 c6" using start by (rule reaches_rtranclp)
  moreover have "runner c6 = Exited" "delivered c6 = []" by (simp_all add: defs)
  then have "delivered c' = []" if "(cell_step a)\<^sup>*\<^sup>* c6 c'" for c' using exited_steps [OF that] by simp
  then have "delivered ` {c'. (cell_step a)\<^sup>*\<^sup>* c6 c'} = {[]}" by (intro equalityI subsetI) (simp_all add: image_iff, blast)
  moreover have "stopper c6 = Returned \<and> accepted c6 = [m] \<and> rejected c6 = []" by (simp add: defs)
  ultimately show ?thesis by blast
qed

text \<open>A handler that stops its own actor never returns: stop waits for the loop to exit and the loop
waits for the handler, in every continuation.\<close>

theorem self_stop_deadlocks:
  assumes "reachable_cell a s n c" and "self_stopped c" and "(cell_step a)\<^sup>*\<^sup>* c c'"
  shows "stopper c' \<in> {Closing, Waiting} \<and> runner c' = runner c \<and> actor_state c' = actor_state c"
  by (rule self_stop_stays [OF assms])

definition self_stopping_cell :: "(nat list, nat) cell" where
  "self_stopping_cell = (stop_close (receive_next (told_cell\<lparr>runner := Receiving\<rparr>)))\<lparr>self_stopped := True\<rparr>"

lemma self_stopping_cell_reachable: "reachable_cell counting_actor [] 1 self_stopping_cell"
proof -
  let ?c1 = "told_cell\<lparr>runner := Receiving\<rparr>"
  have "cell_step counting_actor told_cell ?c1" by (rule cell_step.run_started) (simp add: told_cell_eval)
  then have "reachable_cell counting_actor [] 1 ?c1" by (rule reaches_step [OF told_cell_reachable])
  moreover have "cell_step counting_actor ?c1 (receive_next ?c1)"
    by (rule cell_step.run_received) (simp_all add: told_cell_eval)
  ultimately have "reachable_cell counting_actor [] 1 (receive_next ?c1)" by (rule reaches_step)
  moreover have "cell_step counting_actor (receive_next ?c1) self_stopping_cell"
    unfolding self_stopping_cell_def by (rule cell_step.call_stop_self [of _ 7]) (simp_all add: told_cell_eval)
  ultimately show ?thesis by (rule reaches_step)
qed

theorem stop_terminates_witness:
  "0 \<le> stop_measure (stop_close told_cell) \<and>
   (stopper (stop_close told_cell) = Returned \<or> (\<exists>c''. cell_moves counting_actor (stop_close told_cell) c'')) \<and>
   stopper self_stopping_cell \<noteq> Returned"
proof -
  have "stopper (stop_close told_cell) \<noteq> NotCalled" "\<not> self_stopped (stop_close told_cell)" by (simp_all add: told_cell_eval)
  then have "0 \<le> stop_measure (stop_close told_cell) \<and>
      (stopper (stop_close told_cell) = Returned \<or> (\<exists>c''. cell_moves counting_actor (stop_close told_cell) c''))"
    using stop_terminates [OF closing_cell_reachable, of 0 "stop_close told_cell"] by simp
  moreover have "stopper self_stopping_cell \<noteq> NotCalled" "self_stopped self_stopping_cell" by (simp_all add: self_stopping_cell_def told_cell_eval)
  then have "stopper self_stopping_cell \<noteq> Returned"
    using stop_terminates [OF self_stopping_cell_reachable, of 0 self_stopping_cell] by simp
  ultimately show ?thesis by blast
qed

theorem self_stop_deadlocks_witness:
  "stopper (stop_signal self_stopping_cell) \<in> {Closing, Waiting} \<and>
   runner (stop_signal self_stopping_cell) = runner self_stopping_cell \<and>
   actor_state (stop_signal self_stopping_cell) = actor_state self_stopping_cell"
proof (rule self_stop_deadlocks [OF self_stopping_cell_reachable])
  show "(cell_step counting_actor)\<^sup>*\<^sup>* self_stopping_cell (stop_signal self_stopping_cell)"
    by (intro r_into_rtranclp cell_step.stop_signalled)
      (simp_all add: self_stopping_cell_def told_cell_eval send_ready_def)
qed (simp add: self_stopping_cell_def)

end
