(* ===== verification/ActorBehavior.thy ===== *)
theory ActorBehavior
  imports ActorCell
begin

text \<open>
  What the run loop does with one message (\<^verbatim>\<open>deliver\<close> in \<^verbatim>\<open>pkg/actor/cell.go\<close>):
  the current behavior runs, a panic is recovered and handed to the actor's
  \<^verbatim>\<open>OnError\<close> hook, and a behavior installed by \<^verbatim>\<open>Context.Become\<close> is used
  from the next message on.  A panic inside \<^verbatim>\<open>OnError\<close> is not recovered: it ends the process,
  which is the state \<open>None\<close>.
\<close>

text \<open>
  The outcome of running a behavior: the actor's state, the last behavior it installed, and the
  panic value if it panicked.
\<close>

datatype ('s, 'b) reaction = Completed 's "'b option" | Panicked 's "'b option" string

record ('s, 'm, 'b) actor_impl =
  react :: "'b \<Rightarrow> 's \<Rightarrow> 'm \<Rightarrow> ('s, 'b) reaction"
  OnError :: "('s \<Rightarrow> string \<Rightarrow> ('s, 'b) reaction) option"
  hook_start :: "'s \<Rightarrow> 's"
  hook_stop :: "'s \<Rightarrow> 's"

definition setBehavior :: "'b option \<Rightarrow> 'b \<Rightarrow> 'b" where
  "setBehavior installed current = (case installed of None \<Rightarrow> current | Some b \<Rightarrow> b)"

definition panic_error :: "string \<Rightarrow> string \<Rightarrow> string" where
  "panic_error pid_id r = ''actor '' @ pid_id @ '': panic handling message: '' @ r"

definition deliver :: "('s, 'm, 'b) actor_impl \<Rightarrow> string \<Rightarrow> 'm \<Rightarrow> 's \<times> 'b \<Rightarrow> ('s \<times> 'b) option" where
  "deliver im pid_id m sb =
     (let (s, b) = sb in
      case react im b s m of
        Completed s' b' \<Rightarrow> Some (s', setBehavior b' b)
      | Panicked s' b' r \<Rightarrow>
          (case OnError im of
             None \<Rightarrow> Some (s', setBehavior b' b)
           | Some hook \<Rightarrow>
               (case hook s' (panic_error pid_id r) of
                  Completed s'' b'' \<Rightarrow> Some (s'', setBehavior b'' (setBehavior b' b))
                | Panicked _ _ _ \<Rightarrow> None)))"

text \<open>The actor of a cell, as the cell's step relation wants it.\<close>

definition impl_actor :: "('s, 'm, 'b) actor_impl \<Rightarrow> string \<Rightarrow> (('s \<times> 'b) option, 'm) actor" where
  "impl_actor im pid_id =
     \<lparr>OnStart = map_option (\<lambda>(s, b). (hook_start im s, b)),
      Receive = (\<lambda>st m. case st of None \<Rightarrow> None | Some sb \<Rightarrow> deliver im pid_id m sb),
      OnStop = map_option (\<lambda>(s, b). (hook_stop im s, b))\<rparr>"

definition hook_safe :: "('s, 'm, 'b) actor_impl \<Rightarrow> bool" where
  "hook_safe im \<longleftrightarrow> (case OnError im of None \<Rightarrow> True
     | Some hook \<Rightarrow> \<forall>s e. case hook s e of Completed _ _ \<Rightarrow> True | Panicked _ _ _ \<Rightarrow> False)"

lemma deliver_total: "hook_safe im \<Longrightarrow> deliver im p m sb \<noteq> None"
  by (fastforce simp: deliver_def hook_safe_def Let_def split: prod.splits reaction.splits option.splits)

lemma run_total:
  assumes "hook_safe im" and "st \<noteq> None"
  shows "foldl (Receive (impl_actor im p)) st ms \<noteq> None"
  using assms(2)
proof (induction ms arbitrary: st)
  case (Cons m ms)
  then show ?case using deliver_total [OF assms(1)] by (auto simp: impl_actor_def)
qed simp

text \<open>The behavior in force when a message is handled: the last one installed by an earlier message.\<close>

fun run_behaviors :: "('s, 'm, 'b) actor_impl \<Rightarrow> string \<Rightarrow> 's \<times> 'b \<Rightarrow> 'm list \<Rightarrow> 'b list" where
  "run_behaviors im p sb [] = []"
| "run_behaviors im p sb (m # ms) =
     snd sb # (case deliver im p m sb of None \<Rightarrow> [] | Some sb' \<Rightarrow> run_behaviors im p sb' ms)"

section \<open>Properties\<close>

text \<open>C38: A panicking handler does not take its actor down: unless the OnError hook itself panics, the
actor of any reachable cell still has a state, every delivered message was handled (by the behavior or
by the recovery), and the run went on to the last of them.\<close>

theorem panics_contained:
  assumes "reachable_cell (impl_actor im p) (Some (s, b)) n c" and "hook_safe im"
  shows "actor_state c \<noteq> None \<and> (stopper c = Returned \<or>
    actor_state c = foldl (Receive (impl_actor im p)) (Some (hook_start im s, b)) (handled c))"
proof -
  let ?run = "foldl (Receive (impl_actor im p)) (Some (hook_start im s, b)) (handled c)"
  have start: "OnStart (impl_actor im p) (Some (s, b)) = Some (hook_start im s, b)"
    by (simp add: impl_actor_def)
  have "actor_state c = (if stopper c = Returned then OnStop (impl_actor im p) else id) ?run"
    using cell_sys.reaches_good [OF assms(1)] by (simp add: cell_good_def cell_inv_def state_ok_def start)
  moreover have "?run \<noteq> None" by (rule run_total [OF assms(2)]) simp
  ultimately show ?thesis by (auto simp: impl_actor_def)
qed

text \<open>An actor with two behaviors: the first counts, panics on 0 and switches on 1, the second stores.\<close>

definition demo_impl :: "(nat, nat, bool) actor_impl" where
  "demo_impl = \<lparr>react = (\<lambda>b s m. if b then Completed m None
       else if m = 0 then Panicked s None ''zero'' else Completed (s + 1) (if m = 1 then Some True else None)),
     OnError = None, hook_start = id, hook_stop = id\<rparr>"

definition demo_cell :: "((nat \<times> bool) option, nat) cell" where
  "demo_cell = \<lparr>mailbox = \<lparr>ch = [], ch_size = 2, mb_closed = False\<rparr>, actor_state = Some (5, False), runner = NotStarted,
     stopper = NotCalled, self_stopped = False, senders = [], accepted = [], rejected = [], delivered = [], mark = 0\<rparr>"

definition panicked_cell :: "((nat \<times> bool) option, nat) cell" where
  "panicked_cell = finish_message (impl_actor demo_impl ''a'') 0 (receive_next ((tell_now 0 demo_cell)\<lparr>runner := Receiving\<rparr>))"

lemma panicked_cell_reachable: "reachable_cell (impl_actor demo_impl ''a'') (Some (5, False)) 2 panicked_cell"
proof -
  let ?a = "impl_actor demo_impl ''a''"
  let ?c = "(tell_now 0 demo_cell)\<lparr>runner := Receiving\<rparr>"
  have "start_cell ?a (Some (5, False)) 2 = Some demo_cell"
    by (simp add: start_cell_def newMailbox_def demo_cell_def impl_actor_def demo_impl_def)
  then have "reachable_cell ?a (Some (5, False)) 2 demo_cell" by (rule reaches_start)
  then have "reachable_cell ?a (Some (5, False)) 2 (tell_now 0 demo_cell)"
    by (rule tell_now_reachable) (simp_all add: demo_cell_def send_ready_def)
  moreover have "cell_step ?a (tell_now 0 demo_cell) ?c"
    by (rule cell_step.run_started) (simp add: tell_now_def demo_cell_def send_envelope_def receiver_waits_def)
  ultimately have "reachable_cell ?a (Some (5, False)) 2 ?c" by (rule reaches_step)
  moreover have "cell_step ?a ?c (receive_next ?c)"
    by (rule cell_step.run_received) (simp_all add: tell_now_def demo_cell_def send_envelope_def receiver_waits_def)
  ultimately have "reachable_cell ?a (Some (5, False)) 2 (receive_next ?c)" by (rule reaches_step)
  moreover have "cell_step ?a (receive_next ?c) panicked_cell" unfolding panicked_cell_def
    by (rule cell_step.run_finished)
      (simp_all add: tell_now_def demo_cell_def send_envelope_def receiver_waits_def receive_next_def take_envelope_def)
  ultimately show ?thesis by (rule reaches_step)
qed

theorem panics_contained_witness:
  "actor_state panicked_cell \<noteq> None \<and> (stopper panicked_cell = Returned \<or>
     actor_state panicked_cell = foldl (Receive (impl_actor demo_impl ''a'')) (Some (hook_start demo_impl 5, False)) (handled panicked_cell))"
  by (rule panics_contained [OF panicked_cell_reachable]) (simp add: hook_safe_def demo_impl_def)

text \<open>Become takes effect at the next message: the message that installs a behavior is handled by the
old one, and the behavior of every later message is the last one installed before it.\<close>

theorem Become_next_message:
  assumes "react im b s m = Completed s' (Some b')"
  shows "run_behaviors im p (s, b) (m # ms) = b # run_behaviors im p (s', b') ms"
  using assms by (simp add: deliver_def setBehavior_def)

theorem Become_next_message_witness:
  "run_behaviors demo_impl ''a'' (5, False) [1, 9] = False # run_behaviors demo_impl ''a'' (6, True) [9]"
  by (rule Become_next_message) (simp add: demo_impl_def)

end
