(* ===== verification/ActorSystem.thy ===== *)
theory ActorSystem
  imports ActorBehavior
begin

text \<open>
  The actor system of \<^verbatim>\<open>pkg/actor/system.go\<close>: a mutex and a map from actor ids to cells.
  Each operation is its critical section followed by what it does outside of it (starting a cell,
  calling \<^verbatim>\<open>stop\<close> on one), so a sequence of operations is an interleaving of concurrent
  callers.  A cell is its address: the position in the list of all cells ever created, because a PID keeps
  pointing to its cell after the system has forgotten it.
\<close>

section \<open>State and operations\<close>

record pid =
  pid_id :: string
  pid_cell :: nat

record cell_info =
  cell_id :: string
  cell_size :: nat

record actor_system =
  cells :: "(string, nat) fmap"
  locked :: bool
  heap :: "cell_info list"
  stop_calls :: "nat list"

datatype spawn_error = AlreadyRegistered string

text \<open>A call returns, panics, or waits for the mutex for ever.\<close>

datatype 'r outcome = Return 'r | Panic | Blocked

definition DefaultMailboxSize :: int where
  "DefaultMailboxSize = 128"

definition NewActorSystem :: actor_system where
  "NewActorSystem = \<lparr>cells = fmempty, locked = False, heap = [], stop_calls = []\<rparr>"

text \<open>A new cell, with its PID; none if the mailbox size makes \<^verbatim>\<open>make\<close> panic.\<close>

definition newActorCell :: "actor_system \<Rightarrow> string \<Rightarrow> int \<Rightarrow> (actor_system \<times> pid) option" where
  "newActorCell sys aid mailboxSize =
     (case (newMailbox mailboxSize :: unit mailbox option) of
        None \<Rightarrow> None
      | Some mb \<Rightarrow> Some (sys\<lparr>heap := heap sys @ [\<lparr>cell_id = aid, cell_size = ch_size mb\<rparr>]\<rparr>,
                         \<lparr>pid_id = aid, pid_cell = length (heap sys)\<rparr>))"

text \<open>
  The mutex is not released by a \<^verbatim>\<open>defer\<close>: a panic in the critical section leaves it locked.
\<close>

definition SpawnWithMailboxSize ::
    "string \<Rightarrow> int \<Rightarrow> actor_system \<Rightarrow> actor_system \<times> (spawn_error + pid) outcome" where
  "SpawnWithMailboxSize aid mailboxSize sys =
     (if locked sys then (sys, Blocked)
      else (case fmlookup (cells sys) aid of
          Some _ \<Rightarrow> (sys, Return (Inl (AlreadyRegistered aid)))
        | None \<Rightarrow>
            (case newActorCell sys aid mailboxSize of
               None \<Rightarrow> (sys\<lparr>locked := True\<rparr>, Panic)
             | Some (sys', pid) \<Rightarrow> (sys'\<lparr>cells := fmupd aid (pid_cell pid) (cells sys')\<rparr>, Return (Inr pid)))))"

definition Spawn :: "string \<Rightarrow> actor_system \<Rightarrow> actor_system \<times> (spawn_error + pid) outcome" where
  "Spawn aid sys = SpawnWithMailboxSize aid DefaultMailboxSize sys"

definition Lookup :: "string \<Rightarrow> actor_system \<Rightarrow> pid option outcome" where
  "Lookup aid sys =
     (if locked sys then Blocked
      else Return (map_option (\<lambda>c. \<lparr>pid_id = cell_id (heap sys ! c), pid_cell = c\<rparr>) (fmlookup (cells sys) aid)))"

definition Stop :: "pid \<Rightarrow> actor_system \<Rightarrow> actor_system \<times> unit outcome" where
  "Stop pid sys =
     (if locked sys then (sys, Blocked)
      else (case fmlookup (cells sys) (pid_id pid) of
          None \<Rightarrow> (sys, Return ())
        | Some c \<Rightarrow> (sys\<lparr>cells := fmdrop (pid_id pid) (cells sys), stop_calls := stop_calls sys @ [c]\<rparr>, Return ())))"

definition Shutdown :: "string order \<Rightarrow> actor_system \<Rightarrow> actor_system \<times> unit outcome" where
  "Shutdown ord sys =
     (if locked sys then (sys, Blocked)
      else (let taken = go_range ord (cells sys) (\<lambda>_ c cs. cs @ [c]) []
            in (sys\<lparr>cells := fmempty, stop_calls := stop_calls sys @ taken\<rparr>, Return ())))"

text \<open>Sequences of calls.\<close>

datatype sys_call = CallSpawn string int | CallLookup string | CallStop pid | CallShutdown "string order"

fun perform :: "actor_system \<Rightarrow> sys_call \<Rightarrow> actor_system" where
  "perform sys (CallSpawn aid n) = fst (SpawnWithMailboxSize aid n sys)"
| "perform sys (CallLookup aid) = sys"
| "perform sys (CallStop pid) = fst (Stop pid sys)"
| "perform sys (CallShutdown ord) = fst (Shutdown ord sys)"

definition perform_all :: "sys_call list \<Rightarrow> actor_system" where
  "perform_all = foldl perform NewActorSystem"

fun call_ok :: "sys_call \<Rightarrow> bool" where
  "call_ok (CallShutdown ord) \<longleftrightarrow> map_order ord"
| "call_ok _ \<longleftrightarrow> True"

section \<open>Invariant\<close>

lemma fmran'_empty [simp]: "fmran' fmempty = {}"
  by (auto elim: fmran'E)

text \<open>
  Every cell is registered under its own id or has been stopped, and stopped once.
\<close>

definition sys_inv :: "actor_system \<Rightarrow> bool" where
  "sys_inv sys \<longleftrightarrow>
     (\<forall>k c. fmlookup (cells sys) k = Some c \<longrightarrow> c < length (heap sys) \<and> cell_id (heap sys ! c) = k) \<and>
     distinct (stop_calls sys) \<and> fmran' (cells sys) \<inter> set (stop_calls sys) = {} \<and>
     fmran' (cells sys) \<union> set (stop_calls sys) = {..<length (heap sys)}"

lemma cells_inj:
  "sys_inv sys \<Longrightarrow> fmlookup (cells sys) k = Some c \<Longrightarrow> fmlookup (cells sys) k' = Some c \<Longrightarrow> k = k'"
  by (metis sys_inv_def)

lemma fmran'_upd_new: "fmlookup m k = None \<Longrightarrow> fmran' (fmupd k v m) = insert v (fmran' m)"
  unfolding set_eq_iff fmlookup_ran'_iff insert_iff fmupd_lookup
  by (metis option.distinct(1) option.inject)

lemma sys_inv_spawn:
  assumes "sys_inv sys"
  shows "sys_inv (fst (SpawnWithMailboxSize aid n sys))"
proof (cases "locked sys \<or> fmlookup (cells sys) aid \<noteq> None \<or> n < 0")
  case True
  then show ?thesis using assms
    by (auto simp: SpawnWithMailboxSize_def newActorCell_def newMailbox_def sys_inv_def split: option.split)
next
  case False
  then show ?thesis using assms
    by (auto simp: SpawnWithMailboxSize_def newActorCell_def newMailbox_def sys_inv_def nth_append fmran'_upd_new
        lessThan_Suc less_SucI split: option.split)
qed

lemma sys_inv_stop:
  assumes "sys_inv sys"
  shows "sys_inv (fst (Stop pid sys))"
proof (cases "locked sys \<or> fmlookup (cells sys) (pid_id pid) = None")
  case True
  then show ?thesis using assms by (auto simp: Stop_def)
next
  case False
  then obtain c where c: "fmlookup (cells sys) (pid_id pid) = Some c" and "\<not> locked sys" by auto
  have "fmran' (fmdrop (pid_id pid) (cells sys)) = fmran' (cells sys) - {c}"
    unfolding set_eq_iff fmlookup_ran'_iff Diff_iff singleton_iff fmlookup_drop
    using c cells_inj [OF assms] by (metis option.distinct(1) option.inject)
  moreover have "c \<in> fmran' (cells sys)" using c by (rule fmran'I)
  ultimately show ?thesis using assms c \<open>\<not> locked sys\<close>
    by (auto simp: Stop_def sys_inv_def)
qed

lemma shutdown_order:
  assumes "sys_inv sys" and "map_order ord"
  shows "distinct (go_range ord (cells sys) (\<lambda>_ c cs. cs @ [c]) []) \<and>
    set (go_range ord (cells sys) (\<lambda>_ c cs. cs @ [c]) []) = fmran' (cells sys)"
proof -
  let ?P = "\<lambda>B cs. distinct cs \<and> set cs = {c. \<exists>k\<in>B. fmlookup (cells sys) k = Some c}"
  have "?P (fmdom' (cells sys)) (go_range ord (cells sys) (\<lambda>_ c cs. cs @ [c]) [])"
  proof (rule go_range_rule [OF assms(2)])
    show "?P {} []" by simp
  next
    fix B k c cs assume "k \<notin> B" and "fmlookup (cells sys) k = Some c" and "?P B cs"
    then show "?P (insert k B) (cs @ [c])" using cells_inj [OF assms(1)] by auto
  qed
  moreover have "{c. \<exists>k\<in>fmdom' (cells sys). fmlookup (cells sys) k = Some c} = fmran' (cells sys)"
    unfolding set_eq_iff fmlookup_ran'_iff mem_Collect_eq Bex_def fmlookup_dom'_iff by blast
  ultimately show ?thesis by simp
qed

lemma sys_inv_shutdown: "sys_inv sys \<Longrightarrow> map_order ord \<Longrightarrow> sys_inv (fst (Shutdown ord sys))"
  using shutdown_order [of sys ord]
  by (cases "locked sys") (auto simp: Shutdown_def sys_inv_def Let_def)

lemma sys_inv_perform: "sys_inv sys \<Longrightarrow> call_ok call \<Longrightarrow> sys_inv (perform sys call)"
  by (cases call) (simp_all add: sys_inv_spawn sys_inv_stop sys_inv_shutdown)

lemma sys_inv_perform_all: "list_all call_ok calls \<Longrightarrow> sys_inv (perform_all calls)"
proof -
  have "sys_inv sys \<Longrightarrow> list_all call_ok calls \<Longrightarrow> sys_inv (foldl perform sys calls)" for sys
    by (induction calls arbitrary: sys) (simp_all add: sys_inv_perform)
  moreover have "sys_inv NewActorSystem" by (simp add: sys_inv_def NewActorSystem_def)
  ultimately show "list_all call_ok calls \<Longrightarrow> sys_inv (perform_all calls)" by (simp add: perform_all_def)
qed

lemma locked_stays: "locked sys \<Longrightarrow> foldl perform sys calls = sys"
proof (induction calls)
  case (Cons call calls)
  then show ?case by (cases call) (simp_all add: SpawnWithMailboxSize_def Stop_def Shutdown_def)
qed simp

section \<open>Properties\<close>

text \<open>C22: In every sequence of calls each cell ever created is either registered, under its own id, or
has been handed to cell.stop, and to cell.stop exactly once; so the single stop call the cell's protocol
is built on is what the system guarantees.\<close>

theorem cells_stopped_once:
  assumes "list_all call_ok calls"
  shows "distinct (stop_calls (perform_all calls)) \<and>
    fmran' (cells (perform_all calls)) \<inter> set (stop_calls (perform_all calls)) = {} \<and>
    fmran' (cells (perform_all calls)) \<union> set (stop_calls (perform_all calls)) = {..<length (heap (perform_all calls))}"
  using sys_inv_perform_all [OF assms] by (simp add: sys_inv_def)

definition demo_calls :: "sys_call list" where
  "demo_calls = [CallSpawn ''a'' 1, CallSpawn ''b'' 0, CallStop \<lparr>pid_id = ''a'', pid_cell = 0\<rparr>, CallSpawn ''a'' 128]"

theorem cells_stopped_once_witness:
  "distinct (stop_calls (perform_all demo_calls)) \<and>
   fmran' (cells (perform_all demo_calls)) \<inter> set (stop_calls (perform_all demo_calls)) = {} \<and>
   fmran' (cells (perform_all demo_calls)) \<union> set (stop_calls (perform_all demo_calls)) = {..<length (heap (perform_all demo_calls))}"
  by (rule cells_stopped_once) (simp add: demo_calls_def)

text \<open>Shutdown leaves nothing behind: unless the mutex is lost, after it no actor is registered and
every cell ever created has been stopped, each exactly once, in every iteration order of the map.\<close>

theorem Shutdown_stops_all:
  assumes "list_all call_ok calls" and "map_order ord" and "\<not> locked (perform_all calls)"
  shows "cells (fst (Shutdown ord (perform_all calls))) = fmempty \<and>
    mset (stop_calls (fst (Shutdown ord (perform_all calls)))) = mset [0..<length (heap (perform_all calls))]"
proof -
  let ?s = "fst (Shutdown ord (perform_all calls))"
  have "sys_inv ?s" using assms by (intro sys_inv_shutdown sys_inv_perform_all)
  moreover have e: "cells ?s = fmempty" "heap ?s = heap (perform_all calls)"
    using assms(3) by (simp_all add: Shutdown_def Let_def)
  ultimately have "distinct (stop_calls ?s)" "set (stop_calls ?s) = {..<length (heap (perform_all calls))}"
    by (simp_all add: sys_inv_def)
  then have "mset (stop_calls ?s) = mset [0..<length (heap (perform_all calls))]"
    by (intro set_eq_iff_mset_eq_distinct [THEN iffD1]) (simp_all add: atLeast0LessThan)
  then show ?thesis using e by simp
qed

lemmas system_eval = perform_all_def SpawnWithMailboxSize_def newActorCell_def newMailbox_def NewActorSystem_def
  Stop_def Lookup_def

theorem Shutdown_stops_all_witness:
  "cells (fst (Shutdown sorted_order (perform_all demo_calls))) = fmempty \<and>
   mset (stop_calls (fst (Shutdown sorted_order (perform_all demo_calls)))) = mset [0..<length (heap (perform_all demo_calls))]"
  by (rule Shutdown_stops_all) (simp_all add: demo_calls_def system_eval)

text \<open>Ids are unique: spawning under an id that is taken fails and changes nothing; under a free id
(with a mailbox size that is not negative) it succeeds, the PID points to a new cell, Lookup finds it
under that id, and all other ids keep their cells.\<close>

theorem Spawn_registers:
  assumes "list_all call_ok calls" and "\<not> locked (perform_all calls)" and "0 \<le> n"
  shows "snd (SpawnWithMailboxSize aid n (perform_all calls)) =
      (case fmlookup (cells (perform_all calls)) aid of
         Some _ \<Rightarrow> Return (Inl (AlreadyRegistered aid))
       | None \<Rightarrow> Return (Inr \<lparr>pid_id = aid, pid_cell = length (heap (perform_all calls))\<rparr>)) \<and>
    Lookup k (fst (SpawnWithMailboxSize aid n (perform_all calls))) =
      (if k = aid \<and> fmlookup (cells (perform_all calls)) aid = None
       then Return (Some \<lparr>pid_id = aid, pid_cell = length (heap (perform_all calls))\<rparr>)
       else Lookup k (perform_all calls))"
proof -
  have "c < length (heap (perform_all calls))" if "fmlookup (cells (perform_all calls)) k = Some c" for c
    using sys_inv_perform_all [OF assms(1)] that by (simp add: sys_inv_def)
  then show ?thesis using assms(2,3)
    by (cases "fmlookup (cells (perform_all calls)) k")
      (auto simp: SpawnWithMailboxSize_def newActorCell_def newMailbox_def Lookup_def nth_append split: option.split)
qed

theorem Spawn_registers_witness:
  "snd (SpawnWithMailboxSize ''c'' 4 (perform_all demo_calls)) =
      (case fmlookup (cells (perform_all demo_calls)) ''c'' of
         Some _ \<Rightarrow> Return (Inl (AlreadyRegistered ''c''))
       | None \<Rightarrow> Return (Inr \<lparr>pid_id = ''c'', pid_cell = length (heap (perform_all demo_calls))\<rparr>)) \<and>
    Lookup ''a'' (fst (SpawnWithMailboxSize ''c'' 4 (perform_all demo_calls))) =
      (if ''a'' = ''c'' \<and> fmlookup (cells (perform_all demo_calls)) ''c'' = None
       then Return (Some \<lparr>pid_id = ''c'', pid_cell = length (heap (perform_all demo_calls))\<rparr>)
       else Lookup ''a'' (perform_all demo_calls))"
  by (rule Spawn_registers) (simp_all add: demo_calls_def system_eval)

text \<open>Stop goes by the id and not by the cell of its PID: after an actor was stopped and another one
spawned under the same id, stopping with the first actor's PID stops the second actor.\<close>

theorem Stop_stale_pid:
  "stop_calls (perform_all [CallSpawn aid 1, CallStop \<lparr>pid_id = aid, pid_cell = 0\<rparr>, CallSpawn aid 1,
     CallStop \<lparr>pid_id = aid, pid_cell = 0\<rparr>]) = [0, 1]"
  by (simp add: system_eval)

text \<open>A negative mailbox size loses the mutex: SpawnWithMailboxSize panics inside its critical section,
which no deferred unlock protects; if the panic is recovered (as it is in a message handler) every later
spawn, lookup, stop and shutdown blocks, and the system never changes again.\<close>

theorem negative_size_locks:
  assumes "\<not> locked sys" and "fmlookup (cells sys) aid = None" and "n < 0"
  shows "snd (SpawnWithMailboxSize aid n sys) = Panic \<and>
    Lookup k (foldl perform (fst (SpawnWithMailboxSize aid n sys)) calls) = Blocked \<and>
    snd (Shutdown ord (foldl perform (fst (SpawnWithMailboxSize aid n sys)) calls)) = Blocked \<and>
    cells (foldl perform (fst (SpawnWithMailboxSize aid n sys)) calls) = cells sys"
proof -
  have e: "SpawnWithMailboxSize aid n sys = (sys\<lparr>locked := True\<rparr>, Panic)"
    using assms by (simp add: system_eval)
  have "foldl perform (sys\<lparr>locked := True\<rparr>) calls = sys\<lparr>locked := True\<rparr>" by (rule locked_stays) simp
  then show ?thesis by (simp add: e Lookup_def Shutdown_def)
qed

theorem negative_size_locks_witness:
  "snd (SpawnWithMailboxSize ''a'' (- 1) NewActorSystem) = Panic \<and>
   Lookup ''b'' (foldl perform (fst (SpawnWithMailboxSize ''a'' (- 1) NewActorSystem)) [CallSpawn ''b'' 1]) = Blocked \<and>
   snd (Shutdown sorted_order (foldl perform (fst (SpawnWithMailboxSize ''a'' (- 1) NewActorSystem)) [CallSpawn ''b'' 1])) = Blocked \<and>
   cells (foldl perform (fst (SpawnWithMailboxSize ''a'' (- 1) NewActorSystem)) [CallSpawn ''b'' 1]) = cells NewActorSystem"
  by (rule negative_size_locks) (simp_all add: NewActorSystem_def)

end
