(* ===== verification/Transport.thy ===== *)
theory Transport
  imports ActorSystem
begin

text \<open>
  Sending: \<^verbatim>\<open>PID.Tell\<close>, \<^verbatim>\<open>Context.Send\<close> and the retry loops
  \<^verbatim>\<open>sendWithRetry\<close> (\<^verbatim>\<open>internal/fl/send.go\<close>) and
  \<^verbatim>\<open>tellWithRetry\<close> (\<^verbatim>\<open>internal/cluster/provider_client.go\<close>).  A
  \<^verbatim>\<open>Ref\<close> is whatever can be told a message: the operation \<open>tell\<close> on an explicit
  world, with no result where the call blocks.  The interface \<open>delivery\<close> is what any reference
  promises (a nil error means that the mailbox has accepted the message), \<open>exact_delivery\<close> what a local
  PID adds (an error means that it has not).
\<close>

section \<open>Retrying\<close>

text \<open>The loop with \<open>n\<close> attempts left and the last error; it sleeps between attempts, not after the last.\<close>

fun retry ::
    "nat \<Rightarrow> (nat \<Rightarrow> 'w \<Rightarrow> 'w) \<Rightarrow> ('w \<Rightarrow> ('e option \<times> 'w) option) \<Rightarrow> 'e option \<Rightarrow> 'w \<Rightarrow> ('e option \<times> 'w) option" where
  "retry 0 sleep op err w = Some (err, w)"
| "retry (Suc n) sleep op err w =
     (case op w of
        None \<Rightarrow> None
      | Some (None, w') \<Rightarrow> Some (None, w')
      | Some (Some e, w') \<Rightarrow> retry n sleep op (Some e) (if 0 < n then sleep 500 w' else w'))"

definition send_attempts :: nat where
  "send_attempts = 10"

definition ctx_Send :: "('ref \<Rightarrow> 'msg \<Rightarrow> 'w \<Rightarrow> ('e option \<times> 'w) option) \<Rightarrow> 'ref \<Rightarrow> 'msg \<Rightarrow> 'w \<Rightarrow> ('e option \<times> 'w) option" where
  "ctx_Send tell to msg w = tell to msg w"

definition sendWithRetry ::
    "(nat \<Rightarrow> 'w \<Rightarrow> 'w) \<Rightarrow> ('ref \<Rightarrow> 'msg \<Rightarrow> 'w \<Rightarrow> ('e option \<times> 'w) option) \<Rightarrow> 'ref \<Rightarrow> 'msg \<Rightarrow> 'w \<Rightarrow>
     ('e option \<times> 'w) option" where
  "sendWithRetry sleep tell to msg w = retry send_attempts sleep (ctx_Send tell to msg) None w"

definition tellWithRetry ::
    "(nat \<Rightarrow> 'w \<Rightarrow> 'w) \<Rightarrow> ('ref \<Rightarrow> 'msg \<Rightarrow> 'w \<Rightarrow> ('e option \<times> 'w) option) \<Rightarrow> 'ref \<Rightarrow> 'msg \<Rightarrow> 'w \<Rightarrow>
     ('e option \<times> 'w) option" where
  "tellWithRetry sleep tell to msg w = retry send_attempts sleep (tell to msg) None w"

lemma sendWithRetry_eq: "sendWithRetry sleep tell to msg w = tellWithRetry sleep tell to msg w"
  by (simp add: sendWithRetry_def tellWithRetry_def ctx_Send_def [abs_def])

section \<open>What a reference promises\<close>

locale delivery =
  fixes tell :: "'ref \<Rightarrow> 'msg \<Rightarrow> 'w \<Rightarrow> ('e option \<times> 'w) option"
    and sleep :: "nat \<Rightarrow> 'w \<Rightarrow> 'w"
    and inbox :: "'w \<Rightarrow> 'ref \<Rightarrow> 'msg list"
  assumes tell_ok: "tell r m w = Some (None, w') \<Longrightarrow> inbox w' = (inbox w)(r := inbox w r @ [m])"
    and tell_error: "tell r m w = Some (Some e, w') \<Longrightarrow> inbox w' = inbox w \<or> inbox w' = (inbox w)(r := inbox w r @ [m])"
    and sleep_inbox: "inbox (sleep d w) = inbox w"
begin

lemma retry_copies:
  "retry n sleep (tell r m) e0 w = Some (res, w') \<Longrightarrow>
   \<exists>k. (k \<le> n) \<and> (res = None \<longrightarrow> e0 \<noteq> None \<or> 0 < n \<longrightarrow> 0 < k) \<and> inbox w' = (inbox w)(r := inbox w r @ replicate k m)"
proof (induction n arbitrary: e0 w)
  case 0
  then show ?case by auto
next
  case (Suc n)
  show ?case
  proof (cases "tell r m w")
    case None
    then show ?thesis using Suc.prems by simp
  next
    case (Some p)
    obtain e w1 where p: "p = (e, w1)" by (cases p)
    show ?thesis
    proof (cases e)
      case None
      then have "inbox w' = (inbox w)(r := inbox w r @ [m])"
        using Suc.prems Some p by (auto dest: tell_ok)
      then show ?thesis by (intro exI [of _ 1]) simp
    next
      case (Some e1)
      define w2 where "w2 = (if 0 < n then sleep 500 w1 else w1)"
      have i2: "inbox w2 = inbox w1" by (simp add: w2_def sleep_inbox)
      have "retry n sleep (tell r m) (Some e1) w2 = Some (res, w')"
        using Suc.prems \<open>tell r m w = Some p\<close> p Some by (simp add: w2_def)
      then obtain k where k: "k \<le> n" "res = None \<longrightarrow> 0 < k" "inbox w' = (inbox w2)(r := inbox w2 r @ replicate k m)"
        using Suc.IH by fastforce
      from tell_error [of r m w e1 w1] \<open>tell r m w = Some p\<close> p Some
      consider "inbox w1 = inbox w" | "inbox w1 = (inbox w)(r := inbox w r @ [m])" by auto
      then show ?thesis
      proof cases
        case 1
        then show ?thesis using k i2 by (intro exI [of _ k]) auto
      next
        case 2
        then show ?thesis using k i2 by (intro exI [of _ "Suc k"]) auto
      qed
    qed
  qed
qed

end

locale exact_delivery = delivery +
  assumes tell_error_exact: "tell r m w = Some (Some e, w') \<Longrightarrow> inbox w' = inbox w"
begin

lemma retry_exact:
  "retry n sleep (tell r m) e0 w = Some (res, w') \<Longrightarrow> 0 < n \<or> e0 \<noteq> None \<Longrightarrow>
   inbox w' = (if res = None then (inbox w)(r := inbox w r @ [m]) else inbox w)"
proof (induction n arbitrary: e0 w)
  case 0
  then show ?case by auto
next
  case (Suc n)
  show ?case
  proof (cases "tell r m w")
    case None
    then show ?thesis using Suc.prems by simp
  next
    case (Some p)
    obtain e w1 where p: "p = (e, w1)" by (cases p)
    show ?thesis
    proof (cases e)
      case None
      then show ?thesis using Suc.prems Some p tell_ok [of r m w w1] by simp
    next
      case e: (Some e1)
      define w2 where "w2 = (if 0 < n then sleep 500 w1 else w1)"
      have "retry n sleep (tell r m) (Some e1) w2 = Some (res, w')"
        using Suc.prems Some p e by (simp add: w2_def)
      moreover have "inbox w2 = inbox w"
        using tell_error_exact [of r m w e1 w1] Some p e by (simp add: w2_def sleep_inbox)
      ultimately show ?thesis using Suc.IH [of "Some e1" w2] by simp
    qed
  qed
qed

end

section \<open>Local references\<close>

text \<open>
  \<^verbatim>\<open>PID.Tell\<close> on the cells of the system: the two selects of \<^verbatim>\<open>enqueue\<close>.  Between
  them, and while the second one waits, the other goroutines move on (\<open>amid\<close>): they may close the
  mailbox, and take, handle and send messages.  As a refused attempt is logged in the cell, \<open>amid\<close> can do
  something else in every attempt.  With several ready cases the runtime picks one (\<open>pick\<close>), with
  none ready the caller waits for ever.
\<close>

definition PID_Tell_amid ::
    "((nat \<Rightarrow> ('s, 'm) cell) \<Rightarrow> (nat \<Rightarrow> ('s, 'm) cell)) \<Rightarrow> (nat \<Rightarrow> nat) \<Rightarrow> pid \<Rightarrow> 'm \<Rightarrow> (nat \<Rightarrow> ('s, 'm) cell) \<Rightarrow>
     (mail_error option \<times> (nat \<Rightarrow> ('s, 'm) cell)) option" where
  "PID_Tell_amid amid pick p m cs =
     (case enqueue_check (mailbox (cs (pid_cell p))) of
        Some e \<Rightarrow> Some (Some e, cs(pid_cell p := log_tell m (cs (pid_cell p), Some e)))
      | None \<Rightarrow>
          (let cs = amid cs; ready = enqueue_select m (cs (pid_cell p)) in
           if ready = [] then None
           else (let (c', r) = ready ! (pick (length ready) mod length ready)
                 in Some (r, cs(pid_cell p := log_tell m (c', r))))))"

text \<open>The call while no other goroutine moves.\<close>

definition PID_Tell ::
    "(nat \<Rightarrow> nat) \<Rightarrow> pid \<Rightarrow> 'm \<Rightarrow> (nat \<Rightarrow> ('s, 'm) cell) \<Rightarrow> (mail_error option \<times> (nat \<Rightarrow> ('s, 'm) cell)) option" where
  "PID_Tell = PID_Tell_amid (\<lambda>cs. cs)"

lemma PID_Tell_eval:
  "PID_Tell pick p m cs =
     (let c = cs (pid_cell p) in
      case enqueue_check (mailbox c) of
        Some e \<Rightarrow> Some (Some e, cs(pid_cell p := log_tell m (c, Some e)))
      | None \<Rightarrow>
          (let ready = enqueue_select m c in
           if ready = [] then None
           else (let (c', r) = ready ! (pick (length ready) mod length ready)
                 in Some (r, cs(pid_cell p := log_tell m (c', r))))))"
  by (simp add: PID_Tell_def PID_Tell_amid_def Let_def split: option.split)

text \<open>What has been accepted for the actor a PID points to.\<close>

definition pid_inbox :: "(nat \<Rightarrow> ('s, 'm) cell) \<Rightarrow> nat \<Rightarrow> 'm list" where
  "pid_inbox cs c = accepted (cs c)"

lemma accepted_send [simp]: "accepted (send_envelope e c) = accepted c"
  by (simp add: send_envelope_def take_envelope_def split: envelope.split)

lemma enqueue_select_cases:
  "r \<in> set (enqueue_select m c) \<Longrightarrow> r = (send_envelope (Msg m) c, None) \<or> r = (c, Some ErrMailboxClosed)"
  by (auto simp: enqueue_select_def split: if_splits)

definition pid_of_cell :: "nat \<Rightarrow> pid" where
  "pid_of_cell c = \<lparr>pid_id = '''', pid_cell = c\<rparr>"

lemma PID_Tell_inbox:
  assumes "PID_Tell pick p m cs = Some (e, cs')"
  shows "pid_inbox cs' = (if e = None then (pid_inbox cs)(pid_cell p := pid_inbox cs (pid_cell p) @ [m]) else pid_inbox cs)"
proof (cases "enqueue_check (mailbox (cs (pid_cell p)))")
  case (Some e1)
  then show ?thesis using assms by (auto simp: PID_Tell_eval Let_def log_tell_def pid_inbox_def)
next
  case None
  let ?ready = "enqueue_select m (cs (pid_cell p))"
  let ?r = "?ready ! (pick (length ?ready) mod length ?ready)"
  have ne: "?ready \<noteq> []" using assms None by (auto simp: PID_Tell_eval Let_def split: if_splits)
  then have "?r \<in> set ?ready" by (intro nth_mem) simp
  from enqueue_select_cases [OF this] consider
    "?r = (send_envelope (Msg m) (cs (pid_cell p)), None)" | "?r = (cs (pid_cell p), Some ErrMailboxClosed)" by blast
  then show ?thesis
    by cases (use assms None ne in \<open>auto simp: PID_Tell_eval Let_def log_tell_def pid_inbox_def\<close>)
qed

text \<open>
  While no other goroutine is active, a local PID puts a message into the mailbox exactly once or reports an error.
\<close>

interpretation pid_delivery: exact_delivery
  "\<lambda>c. PID_Tell pick (pid_of_cell c)" "\<lambda>_ cs. cs" pid_inbox for pick
  by unfold_locales (auto simp: PID_Tell_inbox pid_of_cell_def)

section \<open>Sending amid other goroutines\<close>

text \<open>How often cell \<open>c\<close> has accepted a message, and what leaves that alone.\<close>

definition copies :: "'m \<Rightarrow> (nat \<Rightarrow> ('s, 'm) cell) \<Rightarrow> nat \<Rightarrow> nat" where
  "copies m cs c = count_list (accepted (cs c)) m"

definition no_copy :: "'m \<Rightarrow> ((nat \<Rightarrow> ('s, 'm) cell) \<Rightarrow> (nat \<Rightarrow> ('s, 'm) cell)) \<Rightarrow> bool" where
  "no_copy m f \<longleftrightarrow> (\<forall>cs. copies m (f cs) = copies m cs)"

lemma copies_upd: "copies m (cs(c := k)) = (copies m cs)(c := count_list (accepted k) m)"
  by (simp add: copies_def fun_eq_iff)

lemma copies_same: "accepted k = accepted (cs c) \<Longrightarrow> copies m (cs(c := k)) = copies m cs"
  by (simp add: copies_upd, simp add: copies_def fun_eq_iff)

lemma Tell_amid_copies:
  assumes "no_copy m amid" and "PID_Tell_amid amid pick p m cs = Some (e, cs')"
  shows "copies m cs' = (if e = None then (copies m cs)(pid_cell p := Suc (copies m cs (pid_cell p))) else copies m cs)"
proof (cases "enqueue_check (mailbox (cs (pid_cell p)))")
  case (Some e1)
  then show ?thesis using assms(2) by (auto simp: PID_Tell_amid_def log_tell_def copies_same)
next
  case None
  let ?cs = "amid cs"
  let ?k = "?cs (pid_cell p)"
  let ?ready = "enqueue_select m ?k"
  let ?r = "?ready ! (pick (length ?ready) mod length ?ready)"
  have same: "copies m ?cs = copies m cs" using assms(1) by (simp add: no_copy_def)
  have ne: "?ready \<noteq> []" using assms(2) None by (auto simp: PID_Tell_amid_def Let_def split: if_splits)
  then have "?r \<in> set ?ready" by (intro nth_mem) simp
  from enqueue_select_cases [OF this] consider
    "?r = (send_envelope (Msg m) ?k, None)" | "?r = (?k, Some ErrMailboxClosed)" by blast
  then show ?thesis
  proof cases
    case 1
    then have "e = None" "cs' = ?cs(pid_cell p := log_tell m (send_envelope (Msg m) ?k, None))"
      using assms(2) None ne by (auto simp: PID_Tell_amid_def Let_def)
    moreover have "count_list (accepted ?k) m = copies m cs (pid_cell p)" unfolding same [symmetric] by (simp add: copies_def)
    ultimately show ?thesis by (simp add: copies_upd log_tell_def count_list_append same)
  next
    case 2
    then have "e \<noteq> None" "cs' = ?cs(pid_cell p := log_tell m (?k, Some ErrMailboxClosed))"
      using assms(2) None ne by (auto simp: PID_Tell_amid_def Let_def)
    then show ?thesis by (auto simp: log_tell_def copies_same same)
  qed
qed

text \<open>The contract for the copies of one message: a message sent is one more copy.\<close>

lemma amid_delivery:
  assumes "no_copy m amid" and "\<And>d. no_copy m (sleep d)"
  shows "exact_delivery (\<lambda>c (_ :: unit). PID_Tell_amid amid pick (pid_of_cell c) m) sleep (\<lambda>cs c. replicate (copies m cs c) ())"
proof -
  have told: "copies m cs' = (if e = None then (copies m cs)(c := Suc (copies m cs c)) else copies m cs)"
    if "PID_Tell_amid amid pick (pid_of_cell c) m cs = Some (e, cs')" for cs cs' c e
    using Tell_amid_copies [OF assms(1) that] by (simp add: pid_of_cell_def)
  show ?thesis
  proof unfold_locales
    fix c cs cs' e and u :: unit
    show "(\<lambda>c. replicate (copies m cs' c) ()) = (\<lambda>c. replicate (copies m cs c) ())(c := replicate (copies m cs c) () @ [u])"
      if "PID_Tell_amid amid pick (pid_of_cell c) m cs = Some (None, cs')"
      using told [OF that] by (auto simp: fun_eq_iff replicate_append_same)
    show same: "(\<lambda>c. replicate (copies m cs' c) ()) = (\<lambda>c. replicate (copies m cs c) ())"
      if "PID_Tell_amid amid pick (pid_of_cell c) m cs = Some (Some e, cs')"
      using told [OF that] by simp
    show "(\<lambda>c. replicate (copies m cs' c) ()) = (\<lambda>c. replicate (copies m cs c) ()) \<or>
        (\<lambda>c. replicate (copies m cs' c) ()) = (\<lambda>c. replicate (copies m cs c) ())(c := replicate (copies m cs c) () @ [u])"
      if "PID_Tell_amid amid pick (pid_of_cell c) m cs = Some (Some e, cs')"
      using same [OF that] by simp
    show "(\<lambda>c. replicate (copies m (sleep d cs) c) ()) = (\<lambda>c. replicate (copies m cs c) ())" for d
      using assms(2) by (simp add: no_copy_def)
  qed
qed


text \<open>The actor is stopped between the selects of the first attempt; the second select may still send, or find the
mailbox closed, after which nine more attempts are refused.\<close>

definition closing_amid :: "(nat \<Rightarrow> (nat list, nat) cell) \<Rightarrow> nat \<Rightarrow> (nat list, nat) cell" where
  "closing_amid cs = cs(0 := stop_close (cs 0))"

lemma closing_amid_no_copy: "no_copy m closing_amid"
  by (simp add: no_copy_def closing_amid_def copies_same stop_close_def)

lemmas amid_eval = sendWithRetry_def send_attempts_def numeral_eq_Suc ctx_Send_def PID_Tell_amid_def closing_amid_def
  pid_of_cell_def fresh_cell_def enqueue_check_def enqueue_select_def send_ready_def receiver_waits_def stop_close_def
  mb_close_def log_tell_def Let_def


end
