(* ===== verification/FLConvert.thy ===== *)
theory FLConvert
  imports NaiveBayes Transport
begin

text \<open>
  The messages of the federated-learning actors (\<^verbatim>\<open>internal/fl/messages.go\<close> and the
  generated \<^verbatim>\<open>flpb\<close> structs, whose fields the model keeps) and the conversions between
  the model's maps and the protobuf ones (\<^verbatim>\<open>internal/fl/convert.go\<close>).  A pointer to a
  generated struct is the struct: no code of the repository makes a nil one.
\<close>

section \<open>Messages\<close>

record word_counts_pb =
  Counts :: "(string, int64) fmap"

record word_probs_pb =
  Probs :: "(string, float64) fmap"

record train_request =
  tr_RoundId :: int64
  tr_DatasetPartitionPath :: string

record local_model_update =
  up_RoundId :: int64
  up_WorkerId :: string
  up_WordCounts :: "(string, word_counts_pb) fmap"
  up_ClassTotals :: "(string, int64) fmap"

record aggregate_trigger =
  at_RoundId :: int64
  at_ExpectedWorkers :: int64

record aggregated_model =
  am_RoundId :: int64
  am_GlobalWordProbs :: "(string, word_probs_pb) fmap"
  am_ClassPriors :: "(string, float64) fmap"

datatype fl_msg =
    TrainRequest train_request
  | LocalModelUpdate local_model_update
  | AggregateTrigger aggregate_trigger
  | AggregatedModel aggregated_model
  | StartTraining "string list"
  | OtherFL

record round_result =
  rr_RoundID :: int64
  rr_Metrics :: metrics

section \<open>Conversions\<close>

definition toPBInt64Map :: "string order \<Rightarrow> (string, int64) fmap \<Rightarrow> (string, int64) fmap" where
  "toPBInt64Map ord m = go_range ord m (\<lambda>k v. fmupd k (int64_of_int v)) fmempty"

definition fromPBInt64Map :: "string order \<Rightarrow> (string, int64) fmap \<Rightarrow> (string, int64) fmap" where
  "fromPBInt64Map ord m = go_range ord m (\<lambda>k v. fmupd k (int_of_int64 v)) fmempty"

definition toPBWordCounts :: "runtime \<Rightarrow> (string, (string, int64) fmap) fmap \<Rightarrow> (string, word_counts_pb) fmap" where
  "toPBWordCounts rt m =
     go_range (rt [0]) m
       (\<lambda>class words. fmupd class \<lparr>Counts = toPBInt64Map (at_key (sub_run rt 1) class []) words\<rparr>) fmempty"

definition fromPBWordCounts :: "runtime \<Rightarrow> (string, word_counts_pb) fmap \<Rightarrow> (string, (string, int64) fmap) fmap" where
  "fromPBWordCounts rt m =
     go_range (rt [0]) m
       (\<lambda>class words. fmupd class (fromPBInt64Map (at_key (sub_run rt 1) class []) (Counts words))) fmempty"

definition toPBWordProbs :: "string order \<Rightarrow> (string, (string, float64) fmap) fmap \<Rightarrow> (string, word_probs_pb) fmap" where
  "toPBWordProbs ord m = go_range ord m (\<lambda>class probs. fmupd class \<lparr>Probs = probs\<rparr>) fmempty"

definition fromPBWordProbs :: "string order \<Rightarrow> (string, word_probs_pb) fmap \<Rightarrow> (string, (string, float64) fmap) fmap" where
  "fromPBWordProbs ord m = go_range ord m (\<lambda>class probs. fmupd class (Probs probs)) fmempty"

section \<open>Conversions lose nothing\<close>

text \<open>A pair of conversions, each with its own iteration orders, the second undoing the first.\<close>

locale wire_codec =
  fixes to_wire :: "'r \<Rightarrow> 'a \<Rightarrow> 'b" and from_wire :: "'r \<Rightarrow> 'b \<Rightarrow> 'a" and valid :: "'r \<Rightarrow> bool"
  assumes wire_roundtrip: "valid rt \<Longrightarrow> valid rt' \<Longrightarrow> from_wire rt' (to_wire rt x) = x"
begin

text \<open>What is sent does not depend on the order it was built in, as far as a receiver can tell.\<close>

lemma wire_inj: "valid rt \<Longrightarrow> valid rt' \<Longrightarrow> to_wire rt x = to_wire rt' y \<Longrightarrow> x = y"
  by (metis wire_roundtrip)

end

lemma toPBInt64Map_id: "map_order ord \<Longrightarrow> toPBInt64Map ord m = m"
  using range_copy [of ord m] by (simp add: toPBInt64Map_def)

lemma fromPBInt64Map_id: "map_order ord \<Longrightarrow> fromPBInt64Map ord m = m"
  using range_copy [of ord m] by (simp add: fromPBInt64Map_def)

lemma toPBWordCounts_eq: "map_runtime rt \<Longrightarrow> toPBWordCounts rt m = fmmap (\<lambda>words. \<lparr>Counts = words\<rparr>) m"
  by (rule fmap_ext)
    (simp add: toPBWordCounts_def range_put_map order_intros toPBInt64Map_id option.map_comp)

lemma fromPBWordCounts_eq: "map_runtime rt \<Longrightarrow> fromPBWordCounts rt m = fmmap Counts m"
  by (rule fmap_ext)
    (simp add: fromPBWordCounts_def range_put_map order_intros fromPBInt64Map_id)

lemma toPBWordProbs_eq: "map_order ord \<Longrightarrow> toPBWordProbs ord m = fmmap (\<lambda>probs. \<lparr>Probs = probs\<rparr>) m"
  by (rule fmap_ext) (simp add: toPBWordProbs_def range_put_map)

lemma fromPBWordProbs_eq: "map_order ord \<Longrightarrow> fromPBWordProbs ord m = fmmap Probs m"
  by (rule fmap_ext) (simp add: fromPBWordProbs_def range_put_map)

interpretation int_map_codec: wire_codec toPBInt64Map fromPBInt64Map map_order
  by unfold_locales (simp add: toPBInt64Map_id fromPBInt64Map_id)

interpretation counts_codec: wire_codec toPBWordCounts fromPBWordCounts map_runtime
  by unfold_locales (rule fmap_ext,
    simp add: toPBWordCounts_eq fromPBWordCounts_eq option.map_comp o_def option.map_ident)

interpretation probs_codec: wire_codec toPBWordProbs fromPBWordProbs map_order
  by unfold_locales (rule fmap_ext,
    simp add: toPBWordProbs_eq fromPBWordProbs_eq option.map_comp o_def option.map_ident)

section \<open>Properties\<close>

text \<open>Word counts and word probabilities survive the wire: converting to the protobuf shape and back
gives the same maps, whatever iteration orders the two sides use.\<close>

theorem wire_roundtrips:
  assumes "map_runtime rt" and "map_runtime rt'"
  shows "fromPBWordCounts rt' (toPBWordCounts rt counts) = counts \<and>
    fromPBWordProbs (rt' [2]) (toPBWordProbs (rt [2]) probs) = probs \<and>
    fromPBInt64Map (rt' [3]) (toPBInt64Map (rt [3]) totals) = totals"
  using assms by (simp add: counts_codec.wire_roundtrip probs_codec.wire_roundtrip int_map_codec.wire_roundtrip order_intros)

theorem wire_roundtrips_witness:
  "fromPBWordCounts reversed_runtime (toPBWordCounts sorted_runtime (fmupd ''ham'' (fmupd ''hey'' 2 fmempty) fmempty)) =
     fmupd ''ham'' (fmupd ''hey'' 2 fmempty) fmempty \<and>
   fromPBWordProbs (reversed_runtime [2]) (toPBWordProbs (sorted_runtime [2]) (fmupd ''spam'' (fmupd ''win'' (Fin 1) fmempty) fmempty)) =
     fmupd ''spam'' (fmupd ''win'' (Fin 1) fmempty) fmempty \<and>
   fromPBInt64Map (reversed_runtime [3]) (toPBInt64Map (sorted_runtime [3]) (fmupd ''ham'' 2 fmempty)) = fmupd ''ham'' 2 fmempty"
  by (rule wire_roundtrips) simp_all

end
