(* ===== verification/NaiveBayesLaws.thy ===== *)
theory NaiveBayesLaws
  imports NaiveBayes
begin

text \<open>
  The laws of the Naive Bayes model: the closed form of counting and aggregation, additivity
  over any split of the records, probability bounds, the argmax specification of prediction and
  the bounds of the metrics.
\<close>

section \<open>Counting\<close>

definition tokens_of :: "data_record list \<Rightarrow> string \<Rightarrow> string list" where
  "tokens_of rs l = concat (map (\<lambda>r. Tokenize (Text r)) (filter (\<lambda>r. Label r = l) rs))"

lemma tokens_of_simps [simp]:
  "tokens_of [] l = []"
  "tokens_of (r # rs) l = (if Label r = l then Tokenize (Text r) @ tokens_of rs l else tokens_of rs l)"
  "tokens_of (rs @ rs') l = tokens_of rs l @ tokens_of rs' l"
  by (simp_all add: tokens_of_def)

lemma tokens_of_concat: "tokens_of (concat rss) l = concat (map (\<lambda>rs. tokens_of rs l) rss)"
  by (induction rss) simp_all

text \<open>What a pair of count maps says about a class and a word.\<close>

definition counted :: "(string, (string, int64) fmap) fmap \<Rightarrow> string \<Rightarrow> string \<Rightarrow> int64" where
  "counted wc l w = get0 (get_map wc l) w"

definition words_in :: "(string, (string, int64) fmap) fmap \<Rightarrow> string \<Rightarrow> string set" where
  "words_in wc l = fmdom' (get_map wc l)"

lemma fold_count_token:
  "counted (fst (fold (count_token l) ts st)) l' w =
     counted (fst st) l' w + (if l' = l then of_nat (count_list ts w) else 0)"
  "words_in (fst (fold (count_token l) ts st)) l' = words_in (fst st) l' \<union> (if l' = l then set ts else {})"
  "fmlookup (snd (fold (count_token l) ts st)) l' =
     (if l' = l \<and> ts \<noteq> [] then Some (get0 (snd st) l + of_nat (length ts)) else fmlookup (snd st) l')"
  by (induction ts arbitrary: st)
    (auto simp: count_token_def counted_def words_in_def Let_def get0_def split: prod.splits option.splits)

lemma count_record_facts:
  "counted (fst (count_record r st)) l w =
     counted (fst st) l w + (if l = Label r then of_nat (count_list (Tokenize (Text r)) w) else 0)"
  "words_in (fst (count_record r st)) l = words_in (fst st) l \<union> (if l = Label r then set (Tokenize (Text r)) else {})"
  "fmlookup (snd (count_record r st)) l =
     (if l = Label r \<and> Tokenize (Text r) \<noteq> [] then Some (get0 (snd st) l + of_nat (length (Tokenize (Text r))))
      else fmlookup (snd st) l)"
  by (auto simp: count_record_def Let_def fold_count_token split: prod.splits option.splits)
    (auto simp: counted_def words_in_def get_map_def)

lemma fold_count_record:
  "counted (fst (fold count_record rs st)) l w = counted (fst st) l w + of_nat (count_list (tokens_of rs l) w)"
  "words_in (fst (fold count_record rs st)) l = words_in (fst st) l \<union> set (tokens_of rs l)"
  "fmlookup (snd (fold count_record rs st)) l =
     (if tokens_of rs l = [] then fmlookup (snd st) l
      else Some (get0 (snd st) l + of_nat (length (tokens_of rs l))))"
proof (induction rs arbitrary: st)
  case Nil
  case 1 show ?case by simp
  case 2 show ?case by simp
  case 3 show ?case by simp
next
  case (Cons r rs)
  case 1 show ?case by (simp add: Cons count_record_facts)
  case 2 show ?case by (auto simp: Cons count_record_facts)
  case 3 show ?case by (auto simp: Cons count_record_facts get0_def)
qed

lemma CountLocal_facts:
  "counted (WordCounts (CountLocal rs)) l w = of_nat (count_list (tokens_of rs l) w)"
  "words_in (WordCounts (CountLocal rs)) l = set (tokens_of rs l)"
  "fmlookup (ClassTotals (CountLocal rs)) l =
     (if tokens_of rs l = [] then None else Some (of_nat (length (tokens_of rs l))))"
  using fold_count_record [of rs "(fmempty, fmempty)" l]
  by (simp_all add: CountLocal_def split_beta counted_def words_in_def)

lemma sum_list_zero: "(\<And>u. u \<in> set us \<Longrightarrow> f u = 0) \<Longrightarrow> (\<Sum>u\<leftarrow>us. f u) = (0 :: 'a::comm_monoid_add)"
  by (induction us) auto

section \<open>The closed form of aggregation\<close>

text \<open>The three statistics of a list of updates.\<close>

definition sum_counted :: "local_counts list \<Rightarrow> string \<Rightarrow> string \<Rightarrow> int64" where
  "sum_counted us l w = (\<Sum>u\<leftarrow>us. counted (WordCounts u) l w)"

definition sum_totals :: "local_counts list \<Rightarrow> string \<Rightarrow> int64 option" where
  "sum_totals us l =
     (if \<exists>u\<in>set us. l |\<in>| fmdom (ClassTotals u) then Some (\<Sum>u\<leftarrow>us. get0 (ClassTotals u) l) else None)"

definition all_words :: "local_counts list \<Rightarrow> string set" where
  "all_words us = (\<Union>u\<in>set us. \<Union>l. words_in (WordCounts u) l)"

lemma add_word_facts:
  "counted (fst (add_word c w n st)) c' w' =
     counted (fst st) c' w' + (if c' = c \<and> w' = w then n else 0)"
  "fmdom' (snd (add_word c w n st)) = insert w (fmdom' (snd st))"
  by (auto simp: add_word_def counted_def Let_def split: prod.splits)

lemma add_class_facts:
  assumes "map_runtime rt"
  shows "counted (fst (add_class rt c ws st)) c' w' =
      counted (fst st) c' w' + (if c' = c then get0 ws w' else 0)"
    and "fmdom' (snd (add_class rt c ws st)) = fmdom' (snd st) \<union> fmdom' ws"
proof -
  obtain combined vocab where st: "st = (combined, vocab)" by force
  define start where "start = ((case fmlookup combined c of
      None \<Rightarrow> fmupd c fmempty combined | Some _ \<Rightarrow> combined), vocab)"
  have eq: "add_class rt c ws st = go_range (at_key rt c []) ws (add_word c) start"
    by (simp add: add_class_def st start_def)
  have start: "counted (fst start) c' w' = counted combined c' w'" "snd start = vocab" for c' w'
    by (auto simp: start_def counted_def get_map_def split: option.split)
  have "(\<forall>c' w'. counted (fst (go_range (at_key rt c []) ws (add_word c) start)) c' w' =
          counted combined c' w' + (if c' = c \<and> w' \<in> fmdom' ws then get0 ws w' else 0)) \<and>
        fmdom' (snd (go_range (at_key rt c []) ws (add_word c) start)) = fmdom' vocab \<union> fmdom' ws"
    by (rule go_range_rule [where P = "\<lambda>B s. (\<forall>c' w'. counted (fst s) c' w' =
          counted combined c' w' + (if c' = c \<and> w' \<in> B then get0 ws w' else 0)) \<and>
          fmdom' (snd s) = fmdom' vocab \<union> B"])
      (auto simp: assms order_intros start add_word_facts get0_Some)
  then show "counted (fst (add_class rt c ws st)) c' w' = counted (fst st) c' w' + (if c' = c then get0 ws w' else 0)"
    and "fmdom' (snd (add_class rt c ws st)) = fmdom' (snd st) \<union> fmdom' ws"
    unfolding eq by (auto simp: st get0_None fmdom'_notD)
qed

lemma class_loop_facts:
  assumes "map_runtime rt" and "map_order ord"
  shows "counted (fst (go_range ord wc (add_class rt) st)) c w = counted (fst st) c w + counted wc c w"
    and "fmdom' (snd (go_range ord wc (add_class rt) st)) = fmdom' (snd st) \<union> (\<Union>l. words_in wc l)"
proof -
  have "(\<forall>c w. counted (fst (go_range ord wc (add_class rt) st)) c w =
          counted (fst st) c w + (if c \<in> fmdom' wc then counted wc c w else 0)) \<and>
        fmdom' (snd (go_range ord wc (add_class rt) st)) = fmdom' (snd st) \<union> (\<Union>l\<in>fmdom' wc. words_in wc l)"
    by (rule go_range_rule [where P = "\<lambda>B s. (\<forall>c w. counted (fst s) c w =
          counted (fst st) c w + (if c \<in> B then counted wc c w else 0)) \<and>
          fmdom' (snd s) = fmdom' (snd st) \<union> (\<Union>l\<in>B. words_in wc l)"])
      (auto simp: assms add_class_facts counted_def [of wc] words_in_def get_map_def)
  moreover have "counted wc c w = 0" if "c \<notin> fmdom' wc"
    using that by (simp add: counted_def get_map_def fmdom'_notD)
  moreover have "(\<Union>l\<in>fmdom' wc. words_in wc l) = (\<Union>l. words_in wc l)"
    by (force simp: words_in_def get_map_def fmlookup_dom'_iff split: option.splits)
  ultimately show "counted (fst (go_range ord wc (add_class rt) st)) c w = counted (fst st) c w + counted wc c w"
    and "fmdom' (snd (go_range ord wc (add_class rt) st)) = fmdom' (snd st) \<union> (\<Union>l. words_in wc l)"
    by auto
qed

interpretation total_loop: pointwise_body add_total "\<lambda>_ v w. Some ((case w of None \<Rightarrow> 0 | Some x \<Rightarrow> x) + v)"
  by unfold_locales (simp add: add_total_def get0_def)

text \<open>One statistic of a combined state.\<close>

lemma add_update_facts:
  assumes "map_runtime rt"
  shows "counted (fst (add_update rt u st)) c w = counted (fst st) c w + counted (WordCounts u) c w"
    and "fmdom' (snd (snd (add_update rt u st))) = fmdom' (snd (snd st)) \<union> (\<Union>l. words_in (WordCounts u) l)"
    and "fmlookup (fst (snd (add_update rt u st))) c =
      (case fmlookup (ClassTotals u) c of None \<Rightarrow> fmlookup (fst (snd st)) c
       | Some n \<Rightarrow> Some (get0 (fst (snd st)) c + n))"
proof -
  obtain combined totals vocab where st: "st = (combined, totals, vocab)" by (metis prod_cases3)
  note loop = class_loop_facts [of "sub_run rt 1" "rt [0]" "WordCounts u" "(combined, vocab)"]
  show "counted (fst (add_update rt u st)) c w = counted (fst st) c w + counted (WordCounts u) c w"
    and "fmdom' (snd (snd (add_update rt u st))) = fmdom' (snd (snd st)) \<union> (\<Union>l. words_in (WordCounts u) l)"
    and "fmlookup (fst (snd (add_update rt u st))) c =
      (case fmlookup (ClassTotals u) c of None \<Rightarrow> fmlookup (fst (snd st)) c
       | Some n \<Rightarrow> Some (get0 (fst (snd st)) c + n))"
    using loop by (simp_all add: add_update_def st Let_def split_beta assms order_intros
        total_loop.lookup_range get0_def split: option.split)
qed

lemma combine_facts:
  assumes "map_runtime rt"
  shows "counted (fst (combine rt us)) c w = sum_counted us c w"
    and "fmdom' (snd (snd (combine rt us))) = all_words us"
    and "fmlookup (fst (snd (combine rt us))) c = sum_totals us c"
proof -
  have step: "counted (fst (fold (\<lambda>(i, u). add_update (sub_run rt i) u) (enumerate n us) st)) c w =
        counted (fst st) c w + sum_counted us c w \<and>
      fmdom' (snd (snd (fold (\<lambda>(i, u). add_update (sub_run rt i) u) (enumerate n us) st))) =
        fmdom' (snd (snd st)) \<union> all_words us \<and>
      fmlookup (fst (snd (fold (\<lambda>(i, u). add_update (sub_run rt i) u) (enumerate n us) st))) c =
        (case sum_totals us c of None \<Rightarrow> fmlookup (fst (snd st)) c | Some m \<Rightarrow> Some (get0 (fst (snd st)) c + m))"
    for n st
  proof (induction us arbitrary: n st)
    case Nil
    then show ?case by (simp add: sum_counted_def all_words_def sum_totals_def)
  next
    case (Cons u us)
    have "get0 (ClassTotals v) c = 0" if "\<not> c |\<in>| fmdom (ClassTotals v)" for v
      using that by (simp add: get0_None fmdom_notD)
    then have zero: "(\<Sum>u\<leftarrow>us. get0 (ClassTotals u) c) = 0" if "\<not> (\<exists>u\<in>set us. c |\<in>| fmdom (ClassTotals u))"
      using that by (intro sum_list_zero) auto
    then show ?case
      by (auto simp: Cons assms order_intros add_update_facts sum_counted_def all_words_def sum_totals_def
          get0_def fmlookup_dom_iff algebra_simps split: option.splits)
  qed
  from step [of 0 "(fmempty, fmempty, fmempty)"]
  show "counted (fst (combine rt us)) c w = sum_counted us c w"
    and "fmdom' (snd (snd (combine rt us))) = all_words us"
    and "fmlookup (fst (snd (combine rt us))) c = sum_totals us c"
    by (auto simp: combine_def counted_def split: option.splits)
qed

text \<open>Loops over pairs and loops that do nothing.\<close>

lemma range_pair:
  "go_range ord m (\<lambda>k v (a, b). (f k v a, g k v b)) (a, b) = (go_range ord m f a, go_range ord m g b)"
proof -
  have "fold (range_step m (\<lambda>k v (a, b). (f k v a, g k v b))) ks (a, b) =
      (fold (range_step m f) ks a, fold (range_step m g) ks b)" for ks
    by (induction ks arbitrary: a b) (auto simp: range_step_def split: option.split)
  then show ?thesis by (simp add: go_range_def)
qed

lemma range_skip: "go_range ord m (\<lambda>_ _ s. s) s = s"
proof -
  have "fold (range_step m (\<lambda>_ _ s. s)) ks s = s" for ks
    by (induction ks) (auto simp: range_step_def split: option.split)
  then show ?thesis by (simp add: go_range_def)
qed

definition model_of ::
    "fpu \<Rightarrow> (string \<Rightarrow> string \<Rightarrow> int64) \<Rightarrow> (string, int64) fmap \<Rightarrow> (string, unit) fmap \<Rightarrow> global_model" where
  "model_of fp cnt totals vocab =
     (let vs = of_nat (fcard (fmdom vocab)); all = fm_sum totals
      in \<lparr>WordProbs = fmmap_keys (\<lambda>class t. fmmap_keys (\<lambda>word _.
              f_div fp (f_of_int fp (cnt class word + 1)) (f_of_int fp (t + vs))) vocab) totals,
          ClassPriors = (if int64_gt all 0
            then fmmap_keys (\<lambda>_ t. f_div fp (f_of_int fp t) (f_of_int fp all)) totals else fmempty),
          VocabSize = vs\<rparr>)"

lemma class_probs_eq:
  "map_order ord \<Longrightarrow> class_probs fp ord combined vocab vs class t =
     fmmap_keys (\<lambda>word _. f_div fp (f_of_int fp (counted combined class word + 1)) (f_of_int fp (t + vs))) vocab"
  by (simp add: class_probs_def Let_def counted_def range_put_map)

lemma Aggregate_eq:
  assumes "map_runtime rt"
  shows "Aggregate fp rt us =
    model_of fp (counted (fst (combine (sub_run rt 0) us))) (fst (snd (combine (sub_run rt 0) us)))
      (snd (snd (combine (sub_run rt 0) us)))"
proof -
  obtain combined totals vocab where c: "combine (sub_run rt 0) us = (combined, totals, vocab)"
    by (metis prod_cases3)
  define all where "all = fm_sum totals"
  have sum: "go_range (rt [1]) totals (\<lambda>_ n s. s + n) 0 = all"
    using range_sum [of "rt [1]" totals 0] by (simp add: assms order_intros all_def)
  have priors: "go_range (rt [2]) totals (\<lambda>class n classPriors. if int64_gt all 0
        then fmupd class (f_div fp (f_of_int fp n) (f_of_int fp all)) classPriors else classPriors) fmempty =
      (if int64_gt all 0 then fmmap_keys (\<lambda>_ t. f_div fp (f_of_int fp t) (f_of_int fp all)) totals else fmempty)"
    by (cases "int64_gt all 0") (simp_all add: range_put_map range_skip assms order_intros)
  show ?thesis
    unfolding Aggregate_def c Let_def prod.case fst_conv snd_conv sum range_pair priors
    by (simp add: model_of_def range_put_map class_probs_eq assms order_intros all_def Let_def)
qed

lemma lookup_unit: "fmlookup (m :: ('k, unit) fmap) k = (if k \<in> fmdom' m then Some () else None)"
  by (auto simp: fmlookup_dom'_iff fmdom'_notD)

lemma unit_fmap_eqI: "fmdom' m = fmdom' n \<Longrightarrow> (m :: ('k, unit) fmap) = n"
  by (rule fmap_ext) (simp add: lookup_unit)

lemma Aggregate_cong:
  assumes "map_runtime rt" and "map_runtime rt'"
    and "\<And>c w. sum_counted us c w = sum_counted us' c w"
    and "\<And>c. sum_totals us c = sum_totals us' c" and "all_words us = all_words us'"
  shows "Aggregate fp rt us = Aggregate fp rt' us'"
proof -
  note f = combine_facts [OF map_runtime_sub [OF assms(1)], where us = us]
  note f' = combine_facts [OF map_runtime_sub [OF assms(2)], where us = us']
  have "counted (fst (combine (sub_run rt 0) us)) = counted (fst (combine (sub_run rt' 0) us'))"
    by (intro ext) (simp add: f f' assms)
  moreover have "fst (snd (combine (sub_run rt 0) us)) = fst (snd (combine (sub_run rt' 0) us'))"
    by (rule fmap_ext) (simp add: f f' assms)
  moreover have "snd (snd (combine (sub_run rt 0) us)) = snd (snd (combine (sub_run rt' 0) us'))"
    by (rule unit_fmap_eqI) (simp add: f f' assms)
  ultimately show ?thesis by (simp add: Aggregate_eq assms)
qed

section \<open>Additivity\<close>

lemma mset_tokens_of:
  "mset (tokens_of rs l) =
     \<Sum>\<^sub># (image_mset (\<lambda>r. mset (Tokenize (Text r))) (filter_mset (\<lambda>r. Label r = l) (mset rs)))"
  by (induction rs) auto

lemma tokens_of_mset:
  assumes "mset rs = mset rs'"
  shows "count_list (tokens_of rs l) w = count_list (tokens_of rs' l) w"
    and "length (tokens_of rs l) = length (tokens_of rs' l)"
    and "set (tokens_of rs l) = set (tokens_of rs' l)"
proof -
  have eq: "mset (tokens_of rs l) = mset (tokens_of rs' l)"
    unfolding mset_tokens_of assms ..
  show "count_list (tokens_of rs l) w = count_list (tokens_of rs' l) w"
    using arg_cong [OF eq, of "\<lambda>m. count m w"] by (simp only: count_mset)
  show "length (tokens_of rs l) = length (tokens_of rs' l)"
    using arg_cong [OF eq, of size] by simp
  show "set (tokens_of rs l) = set (tokens_of rs' l)"
    using arg_cong [OF eq, of set_mset] by simp
qed

lemma sum_counted_shards:
  "sum_counted (map CountLocal rss) c w = of_nat (count_list (tokens_of (concat rss) c) w)"
  by (induction rss) (simp_all add: sum_counted_def CountLocal_facts)

lemma get0_totals: "get0 (ClassTotals (CountLocal rs)) c = of_nat (length (tokens_of rs c))"
  by (simp add: get0_def CountLocal_facts)

lemma dom_totals: "c |\<in>| fmdom (ClassTotals (CountLocal rs)) \<longleftrightarrow> tokens_of rs c \<noteq> []"
  by (simp add: fmlookup_dom_iff CountLocal_facts)

lemma sum_totals_shards:
  "sum_totals (map CountLocal rss) c =
     (if tokens_of (concat rss) c = [] then None else Some (of_nat (length (tokens_of (concat rss) c))))"
proof -
  have "(\<Sum>rs\<leftarrow>rss. get0 (ClassTotals (CountLocal rs)) c) = of_nat (length (tokens_of (concat rss) c))"
    by (induction rss) (simp_all add: get0_totals)
  then show ?thesis
    by (auto simp: sum_totals_def dom_totals tokens_of_concat o_def)
qed

lemma all_words_shards: "all_words (map CountLocal rss) = (\<Union>l. set (tokens_of (concat rss) l))"
  by (auto simp: all_words_def CountLocal_facts tokens_of_concat)

lemmas single_shard =
  sum_counted_shards [of "[rs]" for rs, unfolded list.map concat.simps append_Nil2]
  sum_totals_shards [of "[rs]" for rs, unfolded list.map concat.simps append_Nil2]
  all_words_shards [of "[rs]" for rs, unfolded list.map concat.simps append_Nil2]

lemma Aggregate_shards:
  assumes "map_runtime rt" and "map_runtime rt'" and "mset (concat rss) = mset rs"
  shows "Aggregate fp rt (map CountLocal rss) = Aggregate fp rt' [CountLocal rs]"
proof (rule Aggregate_cong [OF assms(1,2)])
  note m = tokens_of_mset [OF assms(3)]
  have nil: "tokens_of (concat rss) c = [] \<longleftrightarrow> tokens_of rs c = []" for c
    using m(2) [of c] by (metis length_0_conv)
  show "sum_counted (map CountLocal rss) c w = sum_counted [CountLocal rs] c w" for c w
    unfolding single_shard sum_counted_shards m(1) ..
  show "sum_totals (map CountLocal rss) c = sum_totals [CountLocal rs] c" for c
    unfolding single_shard sum_totals_shards m(2) nil ..
  show "all_words (map CountLocal rss) = all_words [CountLocal rs]"
    unfolding single_shard all_words_shards m(3) ..
qed

section \<open>The probabilities of an aggregated model\<close>

definition all_tokens :: "data_record list \<Rightarrow> string list" where
  "all_tokens rs = concat (map (\<lambda>r. Tokenize (Text r)) rs)"

lemma all_tokens_simps [simp]:
  "all_tokens [] = []" "all_tokens (r # rs) = Tokenize (Text r) @ all_tokens rs"
  by (simp_all add: all_tokens_def)

lemma set_all_tokens: "(\<Union>l. set (tokens_of rs l)) = set (all_tokens rs)"
  by (auto simp: tokens_of_def all_tokens_def)

lemma sum_length_tokens:
  "finite A \<Longrightarrow> Label ` set rs \<subseteq> A \<Longrightarrow> (\<Sum>l\<in>A. length (tokens_of rs l)) = length (all_tokens rs)"
proof (induction rs)
  case Nil
  then show ?case by simp
next
  case (Cons r rs)
  have "(\<Sum>l\<in>A. length (tokens_of (r # rs) l)) =
      (\<Sum>l\<in>A. (if Label r = l then length (Tokenize (Text r)) else 0) + length (tokens_of rs l))"
    by (intro sum.cong) auto
  also have "\<dots> = length (Tokenize (Text r)) + length (all_tokens rs)"
    using Cons by (simp add: sum.distrib)
  finally show ?case by simp
qed

lemma tokens_of_le: "length (tokens_of rs c) \<le> length (all_tokens rs)"
  by (induction rs) auto

lemma tokens_of_Nil: "c \<notin> Label ` set rs \<Longrightarrow> tokens_of rs c = []"
  by (induction rs) auto

text \<open>The combined state of one update of local counts.\<close>

lemma combine_single:
  assumes "map_runtime rt"
  shows "counted (fst (combine rt [CountLocal rs])) c w = of_nat (count_list (tokens_of rs c) w)"
    and "fmlookup (fst (snd (combine rt [CountLocal rs]))) c =
     (if tokens_of rs c = [] then None else Some (of_nat (length (tokens_of rs c))))"
    and "fmdom' (snd (snd (combine rt [CountLocal rs]))) = set (all_tokens rs)"
  by (simp_all add: combine_facts assms single_shard set_all_tokens)

lemma fm_sum_totals:
  assumes "\<And>c. fmlookup m c = (if tokens_of rs c = [] then None else Some (of_nat (length (tokens_of rs c))))"
  shows "fm_sum m = of_nat (length (all_tokens rs))"
proof -
  have dom: "fmdom' m \<subseteq> Label ` set rs"
    using tokens_of_Nil by (force simp: fmlookup_dom'_iff assms split: if_splits)
  have "fm_sum m = (\<Sum>c\<in>Label ` set rs. get0 m c)"
    unfolding fm_sum_def using dom by (intro sum.mono_neutral_left) (auto simp: get0_def fmdom'_notD)
  also have "\<dots> = (\<Sum>c\<in>Label ` set rs. of_nat (length (tokens_of rs c)))"
    by (intro sum.cong) (auto simp: get0_def assms)
  also have "\<dots> = of_nat (\<Sum>c\<in>Label ` set rs. length (tokens_of rs c))" by simp
  finally show ?thesis by (simp only: sum_length_tokens [OF finite_imageI [OF finite_set] order_refl])
qed

lemma Aggregate_single:
  assumes "map_runtime rt"
  shows "fmlookup (get_map (WordProbs (Aggregate fp rt [CountLocal rs])) c) w =
      (if tokens_of rs c \<noteq> [] \<and> w \<in> set (all_tokens rs)
       then Some (f_div fp (f_of_int fp (of_nat (count_list (tokens_of rs c) w + 1)))
              (f_of_int fp (of_nat (length (tokens_of rs c) + card (set (all_tokens rs)))))) else None)"
    and "fmlookup (ClassPriors (Aggregate fp rt [CountLocal rs])) c =
      (if tokens_of rs c \<noteq> [] \<and> int64_gt (of_nat (length (all_tokens rs))) 0
       then Some (f_div fp (f_of_int fp (of_nat (length (tokens_of rs c))))
              (f_of_int fp (of_nat (length (all_tokens rs))))) else None)"
proof -
  note single = combine_single [where rs = rs, OF map_runtime_sub [OF assms, where i = 0]]
  have vs: "fcard (fmdom (snd (snd (combine (sub_run rt 0) [CountLocal rs])))) = card (set (all_tokens rs))"
    using single(3) by (simp add: fcard.rep_eq fmdom'_alt_def)
  have sum: "fm_sum (fst (snd (combine (sub_run rt 0) [CountLocal rs]))) = of_nat (length (all_tokens rs))"
    by (intro fm_sum_totals single)
  show "fmlookup (get_map (WordProbs (Aggregate fp rt [CountLocal rs])) c) w =
      (if tokens_of rs c \<noteq> [] \<and> w \<in> set (all_tokens rs)
       then Some (f_div fp (f_of_int fp (of_nat (count_list (tokens_of rs c) w + 1)))
              (f_of_int fp (of_nat (length (tokens_of rs c) + card (set (all_tokens rs)))))) else None)"
    using single(3)
    by (auto simp: Aggregate_eq assms model_of_def Let_def get_map_def single vs lookup_unit add.commute)
  show "fmlookup (ClassPriors (Aggregate fp rt [CountLocal rs])) c =
      (if tokens_of rs c \<noteq> [] \<and> int64_gt (of_nat (length (all_tokens rs))) 0
       then Some (f_div fp (f_of_int fp (of_nat (length (tokens_of rs c))))
              (f_of_int fp (of_nat (length (all_tokens rs))))) else None)"
    by (simp add: Aggregate_eq assms model_of_def Let_def single sum)
qed

lemma f_ratio:
  assumes "ieee_rounding fp" and "0 < b" and "int a \<le> 2 ^ 53" and "int b \<le> 2 ^ 53"
  shows "f_div fp (f_of_int fp (of_nat a)) (f_of_int fp (of_nat b)) = Fin (fl fp (real a / real b))"
proof -
  have "sint (of_nat n :: int64) = int n" if "int n \<le> 2 ^ 53" for n
    using that by (intro sint_of_nat) (simp add: int64_max_def)
  moreover have "fl fp (real n) = real n" if "int n \<le> 2 ^ 53" for n
    using fl_int [OF assms(1), of "int n"] that by simp
  ultimately show ?thesis using assms by (simp add: f_of_int_def)
qed

lemma fl_ratio_unit:
  assumes "ieee_rounding fp" and "a \<le> b"
  shows "0 \<le> fl fp (real a / real b)" and "fl fp (real a / real b) \<le> 1"
  using assms by (auto intro!: fl_nonneg fl_le_1 simp: divide_le_eq_1)

lemma fl_ratio_pos:
  assumes "ieee_rounding fp" and "0 < a" and "0 < b" and "int b \<le> 2 ^ 53"
  shows "0 < fl fp (real a / real b)"
proof (rule fl_pos [OF assms(1), of 53])
  have "real b \<le> 2 ^ 53" using assms(4) by simp
  moreover have "1 \<le> real a" using assms(2) by simp
  ultimately have "1 * real b \<le> real a * 2 ^ 53" using assms(3) by (intro mult_mono) auto
  then show "1 / 2 ^ 53 \<le> real a / real b" using assms(3) by (simp add: field_simps)
qed simp

lemma count_le_tokens:
  assumes "w \<in> set (all_tokens rs)"
  shows "count_list (tokens_of rs c) w + 1 \<le> length (tokens_of rs c) + card (set (all_tokens rs))"
proof -
  have "1 \<le> card (set (all_tokens rs))"
    using assms by (metis List.finite_set One_nat_def Suc_leI card_gt_0_iff empty_iff)
  then show ?thesis using count_le_length [of "tokens_of rs c" w] by linarith
qed

lemma laplace:
  assumes "map_runtime rt" and "ieee_rounding fp" and "int (length (all_tokens rs)) \<le> 2 ^ 52"
    and "tokens_of rs c \<noteq> []" and "w \<in> set (all_tokens rs)"
  shows "fmlookup (get_map (WordProbs (Aggregate fp rt [CountLocal rs])) c) w =
    Some (Fin (fl fp (real (count_list (tokens_of rs c) w + 1) / real (length (tokens_of rs c) + card (set (all_tokens rs))))))"
proof -
  let ?b = "length (tokens_of rs c) + card (set (all_tokens rs))"
  have b: "0 < ?b" "int ?b \<le> 2 ^ 53"
    using assms(3,4) tokens_of_le [of rs c] card_length [of "all_tokens rs"] by auto
  moreover have "int (count_list (tokens_of rs c) w + 1) \<le> 2 ^ 53"
    using b(2) count_le_tokens [OF assms(5), of c] by linarith
  ultimately have "f_div fp (f_of_int fp (of_nat (count_list (tokens_of rs c) w + 1))) (f_of_int fp (of_nat ?b)) =
      Fin (fl fp (real (count_list (tokens_of rs c) w + 1) / real ?b))"
    by (intro f_ratio assms(2))
  then show ?thesis using assms by (simp only: Aggregate_single) simp
qed

definition fin_val :: "float64 \<Rightarrow> real" where
  "fin_val x = (case x of Fin r \<Rightarrow> r | _ \<Rightarrow> 0)"

lemma laplace_sum:
  assumes "map_runtime rt" and "int (length (all_tokens rs)) \<le> 2 ^ 52" and "tokens_of rs c \<noteq> []"
  shows "(\<Sum>w\<in>set (all_tokens rs). fin_val (the (fmlookup (get_map (WordProbs (Aggregate exact_fpu rt [CountLocal rs])) c) w))) = 1"
proof -
  let ?b = "length (tokens_of rs c) + card (set (all_tokens rs))"
  have sub: "set (tokens_of rs c) \<subseteq> set (all_tokens rs)" using set_all_tokens [of rs] by auto
  have "(\<Sum>w\<in>set (all_tokens rs). fin_val (the (fmlookup (get_map (WordProbs (Aggregate exact_fpu rt [CountLocal rs])) c) w))) =
      (\<Sum>w\<in>set (all_tokens rs). real (count_list (tokens_of rs c) w + 1) / real ?b)"
    using assms by (intro sum.cong) (simp_all add: laplace fin_val_def)
  also have "\<dots> = real (\<Sum>w\<in>set (all_tokens rs). count_list (tokens_of rs c) w + 1) / real ?b"
    by (simp add: sum_divide_distrib)
  also have "(\<Sum>w\<in>set (all_tokens rs). count_list (tokens_of rs c) w + 1) = ?b"
    using sum_count_set [OF sub] by (simp only: sum.distrib) simp
  also have "real ?b / real ?b = 1"
  proof -
    have "real ?b \<noteq> 0" using assms(3) by (metis add_is_0 length_0_conv of_nat_eq_0_iff)
    then show ?thesis by (rule divide_self)
  qed
  finally show ?thesis .
qed

end
