(* ===== verification/NaiveBayesSpec.thy ===== *)
theory NaiveBayesSpec
  imports NaiveBayesLaws
begin

text \<open>
  Prediction and evaluation: the winner of the posterior scores, when it does not depend on the
  order of the map iteration, and the range of the four metrics; then the properties of
  \<^verbatim>\<open>internal/nb\<close> and their witnesses.
\<close>

section \<open>The winner\<close>

text \<open>The score \<^verbatim>\<open>Predict\<close> compares: NaN, which no comparison selects, for a skipped class.\<close>

definition score_of :: "fpu \<Rightarrow> global_model \<Rightarrow> string \<Rightarrow> string \<Rightarrow> float64" where
  "score_of fp model text class =
     (case fmlookup (ClassPriors model) class of
        None \<Rightarrow> NaN
      | Some prior \<Rightarrow> if f_le prior (Fin 0) then NaN else class_score fp model text class prior)"

lemma f_lt_NaN [simp]: "\<not> f_lt a NaN" "\<not> f_lt NaN a"
  by (cases a; simp)+

lemma predict_body_score:
  "fmlookup (ClassPriors model) k = Some prior \<Longrightarrow>
   predict_body fp model text k prior (best, bestScore) =
     (if f_lt bestScore (score_of fp model text k) then (k, score_of fp model text k) else (best, bestScore))"
  by (simp add: predict_body_def score_of_def Let_def)

lemma f_lt_NInf_left: "f_lt NInf b \<longleftrightarrow> b \<noteq> NInf \<and> b \<noteq> NaN"
  by (cases b) simp_all

lemma f_lt_mono_left: "\<not> f_lt a c \<Longrightarrow> f_lt a b \<Longrightarrow> \<not> f_lt b c"
  using f_lt_trans by blast

definition winner :: "fpu \<Rightarrow> global_model \<Rightarrow> string \<Rightarrow> string set \<Rightarrow> string \<times> float64 \<Rightarrow> bool" where
  "winner fp model text B st \<longleftrightarrow>
     (st = ('''', NInf) \<and> (\<forall>k\<in>B. \<not> f_lt NInf (score_of fp model text k)) \<or>
      fst st \<in> B \<and> snd st = score_of fp model text (fst st) \<and> f_lt NInf (snd st)) \<and>
     (\<forall>k\<in>B. \<not> f_lt (snd st) (score_of fp model text k))"

lemma Predict_winner:
  assumes "map_order ord"
  shows "winner fp model text (fmdom' (ClassPriors model)) (go_range ord (ClassPriors model) (predict_body fp model text) ('''', NInf))"
proof (rule go_range_rule [OF assms])
  show "winner fp model text {} ('''', NInf)" by (simp add: winner_def)
next
  fix B k v st
  assume look: "fmlookup (ClassPriors model) k = Some v" and w: "winner fp model text B st"
  obtain best bs where st: "st = (best, bs)" by (cases st)
  show "winner fp model text (insert k B) (predict_body fp model text k v st)"
  proof (cases "f_lt bs (score_of fp model text k)")
    case True
    then have low: "\<not> f_lt (score_of fp model text k) (score_of fp model text j)" if "j \<in> B" for j
      using w that by (intro f_lt_mono_left [OF _ True]) (simp add: winner_def st)
    moreover have "f_lt NInf (score_of fp model text k)"
    proof -
      have "bs = NInf \<or> f_lt NInf bs" using w by (auto simp: winner_def st)
      then show ?thesis using True f_lt_trans by blast
    qed
    ultimately show ?thesis using True by (simp add: winner_def st predict_body_score look)
  next
    case False
    then show ?thesis using w unfolding winner_def st by (auto simp: predict_body_score look)
  qed
qed

lemma Predict_argmax_nonempty:
  assumes "map_order ord" and "Predict fp ord model text = c" and "f_lt NInf (score_of fp model text d)"
  shows "c |\<in>| fmdom (ClassPriors model)" and "\<not> f_lt (score_of fp model text c) (score_of fp model text d)"
proof -
  obtain best bs where st: "go_range ord (ClassPriors model) (predict_body fp model text) ('''', NInf) = (best, bs)"
    by (cases "go_range ord (ClassPriors model) (predict_body fp model text) ('''', NInf)")
  have best: "best = c" using assms(2) by (simp add: Predict_def st)
  have d: "d \<in> fmdom' (ClassPriors model)"
    using assms(3) by (auto simp: score_of_def fmlookup_dom'_iff split: option.splits)
  have w: "winner fp model text (fmdom' (ClassPriors model)) (c, bs)"
    using Predict_winner [OF assms(1), of fp model "text"] by (simp add: st best)
  then have "c \<in> fmdom' (ClassPriors model) \<and> \<not> f_lt (score_of fp model text c) (score_of fp model text d)"
    using d assms(3) by (fastforce simp: winner_def)
  then show "c |\<in>| fmdom (ClassPriors model)" "\<not> f_lt (score_of fp model text c) (score_of fp model text d)"
    by (simp_all add: fmdom'_alt_def)
qed

text \<open>A class that beats every other one is predicted in every iteration order.\<close>

definition beats_all :: "fpu \<Rightarrow> global_model \<Rightarrow> string \<Rightarrow> string \<Rightarrow> bool" where
  "beats_all fp model text c \<longleftrightarrow>
     c |\<in>| fmdom (ClassPriors model) \<and> f_lt NInf (score_of fp model text c) \<and>
     (\<forall>d\<in>fmdom' (ClassPriors model). d \<noteq> c \<longrightarrow> f_lt (score_of fp model text d) (score_of fp model text c) \<or> score_of fp model text d = NaN)"

lemma Predict_beats_all:
  assumes "map_order ord" and "beats_all fp model text c"
  shows "Predict fp ord model text = c"
proof (rule ccontr)
  assume other: "Predict fp ord model text \<noteq> c"
  obtain best bs where st: "go_range ord (ClassPriors model) (predict_body fp model text) ('''', NInf) = (best, bs)"
    by (cases "go_range ord (ClassPriors model) (predict_body fp model text) ('''', NInf)")
  have w: "winner fp model text (fmdom' (ClassPriors model)) (best, bs)"
    using Predict_winner [OF assms(1), of fp model "text"] by (simp add: st)
  have c: "c \<in> fmdom' (ClassPriors model)" "f_lt NInf (score_of fp model text c)"
    using assms(2) by (simp_all add: beats_all_def fmdom'_alt_def)
  then have best: "best \<in> fmdom' (ClassPriors model)" "bs = score_of fp model text best" "f_lt NInf bs"
    using w by (auto simp: winner_def)
  then have "f_lt bs (score_of fp model text c)"
    using other assms(2) by (auto simp: Predict_def st beats_all_def)
  then show False using w c(1) by (simp add: winner_def)
qed

section \<open>Metrics\<close>

definition outcomes :: "('a \<Rightarrow> bool) \<Rightarrow> ('a \<Rightarrow> bool) \<Rightarrow> 'a list \<Rightarrow> bool \<Rightarrow> bool \<Rightarrow> nat" where
  "outcomes f g xs a p = length (filter (\<lambda>x. f x = a \<and> g x = p) xs)"

lemma fold_tally:
  "fold (\<lambda>x. tally (f x) (g x)) xs c =
     \<lparr>c_tp = c_tp c + of_nat (outcomes f g xs True True), c_fp = c_fp c + of_nat (outcomes f g xs False True),
      c_tn = c_tn c + of_nat (outcomes f g xs False False), c_fn = c_fn c + of_nat (outcomes f g xs True False)\<rparr>"
  by (induction xs arbitrary: c) (auto simp: outcomes_def tally_def algebra_simps)

lemma outcomes_total:
  "outcomes f g xs True True + outcomes f g xs False True + outcomes f g xs False False + outcomes f g xs True False = length xs"
  by (induction xs) (auto simp: outcomes_def)

lemma outcomes_agree:
  "length (filter (\<lambda>x. f x = g x) xs) = outcomes f g xs True True + outcomes f g xs False False"
  by (induction xs) (auto simp: outcomes_def)

text \<open>The records a model classifies correctly.\<close>

definition correct :: "fpu \<Rightarrow> runtime \<Rightarrow> global_model \<Rightarrow> data_record list \<Rightarrow> nat" where
  "correct fp rt model test =
     length (filter (\<lambda>(i, r). (Label r = LabelSpam) = (Predict fp (rt [i]) model (Text r) = LabelSpam)) (enumerate 0 test))"

definition unit_float :: "fpu \<Rightarrow> float64 \<Rightarrow> bool" where
  "unit_float fp v \<longleftrightarrow> (\<exists>r. v = Fin r \<and> 0 \<le> r \<and> r \<le> 1 \<and> fl fp r = r)"

lemma int64_gt_of_nat: "int n \<le> 2 ^ 53 \<Longrightarrow> int64_gt (of_nat n) 0 \<longleftrightarrow> 0 < n"
  by (simp add: int64_gt_def sint_of_nat int64_max_def)

lemma guarded_ratio:
  assumes "ieee_rounding fp" and "a \<le> b" and "int b \<le> 2 ^ 53"
  shows "(if int64_gt (of_nat b) 0 then f_div fp (f_of_int fp (of_nat a)) (f_of_int fp (of_nat b)) else Fin 0) =
    Fin (fl fp (real a / real b))"
  using assms by (simp add: int64_gt_of_nat f_ratio)

lemma unit_float_ratio:
  "ieee_rounding fp \<Longrightarrow> a \<le> b \<Longrightarrow> unit_float fp (Fin (fl fp (real a / real b)))"
  by (simp add: unit_float_def fl_ratio_unit fl_idem)

text \<open>The harmonic mean of two rounded values of the unit interval stays in it.\<close>

lemma f1_unit:
  assumes "ieee_rounding fp" and "unit_float fp p" and "unit_float fp r"
  shows "unit_float fp (if f_lt (Fin 0) (f_add fp p r)
    then f_div fp (f_mul fp (f_mul fp (Fin 2) p) r) (f_add fp p r) else Fin 0)"
proof -
  obtain x y where x: "p = Fin x" "0 \<le> x" "x \<le> 1" "fl fp x = x" and y: "r = Fin y" "0 \<le> y" "y \<le> 1" "fl fp y = y"
    using assms(2,3) by (auto simp: unit_float_def)
  show ?thesis
  proof (cases "0 < fl fp (x + y)")
    case True
    have dbl: "fl fp (2 * x) = 2 * x" using assms(1) x(4) by (rule fl_double)
    have "(2 - x) * y \<ge> 0" using x y by simp
    moreover have "0 \<le> x * (1 - y)" using x y by simp
    moreover have "0 \<le> (1 - x) * y" using x y by simp
    ultimately have "2 * x * y \<le> x + y" by (simp add: algebra_simps)
    then have le: "fl fp (2 * x * y) \<le> fl fp (x + y)" by (rule fl_mono [OF assms(1)])
    have nn: "0 \<le> fl fp (2 * x * y)" using x y by (intro fl_nonneg assms(1)) simp
    have "0 \<le> fl fp (2 * x * y) / fl fp (x + y)" "fl fp (2 * x * y) / fl fp (x + y) \<le> 1"
      using le nn True by simp_all
    then show ?thesis using True x(1) y(1) dbl assms(1)
      by (simp add: unit_float_def fl_nonneg fl_le_1 fl_idem)
  next
    case False
    then show ?thesis using x(1) y(1) assms(1) by (simp add: unit_float_def)
  qed
qed

lemma metrics_of_counts:
  assumes "ieee_rounding fp" and "int (a + b + c + d) \<le> 2 ^ 53"
    and "m = metrics_of fp \<lparr>c_tp = of_nat a, c_fp = of_nat b, c_tn = of_nat c, c_fn = of_nat d\<rparr>"
  shows "Accuracy m = Fin (fl fp (real (a + c) / real (a + b + c + d)))"
    and "Precision m = Fin (fl fp (real a / real (a + b)))"
    and "Recall m = Fin (fl fp (real a / real (a + d)))"
proof -
  note parts = assms(3) metrics_of_def Let_def metrics.simps confusion.simps of_nat_add [symmetric]
  show "Accuracy m = Fin (fl fp (real (a + c) / real (a + b + c + d)))"
    unfolding parts using assms by (intro guarded_ratio) auto
  show "Precision m = Fin (fl fp (real a / real (a + b)))"
    unfolding parts using assms by (intro guarded_ratio) auto
  show "Recall m = Fin (fl fp (real a / real (a + d)))"
    unfolding parts using assms by (intro guarded_ratio) auto
qed

lemma F1_metrics_of:
  "F1 (metrics_of fp c) = (if f_lt (Fin 0) (f_add fp (Precision (metrics_of fp c)) (Recall (metrics_of fp c)))
     then f_div fp (f_mul fp (f_mul fp (Fin 2) (Precision (metrics_of fp c))) (Recall (metrics_of fp c)))
            (f_add fp (Precision (metrics_of fp c)) (Recall (metrics_of fp c)))
     else Fin 0)"
  by (simp add: metrics_of_def Let_def)

lemma Evaluate_parts:
  assumes "ieee_rounding fp" and "int (length test) \<le> 2 ^ 53"
  shows "Accuracy (Evaluate fp rt model test) = Fin (fl fp (real (correct fp rt model test) / real (length test)))"
    and "unit_float fp (Precision (Evaluate fp rt model test))"
    and "unit_float fp (Recall (Evaluate fp rt model test))"
    and "unit_float fp (F1 (Evaluate fp rt model test))"
proof -
  let ?f = "\<lambda>(i :: nat, r). Label r = LabelSpam" and ?g = "\<lambda>(i, r). Predict fp (rt [i]) model (Text r) = LabelSpam"
  define tp ps tn ng where counts: "tp = outcomes ?f ?g (enumerate 0 test) True True"
    "ps = outcomes ?f ?g (enumerate 0 test) False True" "tn = outcomes ?f ?g (enumerate 0 test) False False"
    "ng = outcomes ?f ?g (enumerate 0 test) True False"
  have total: "tp + ps + tn + ng = length test"
    using outcomes_total [of ?f ?g "enumerate 0 test"] by (simp add: counts)
  have conf: "confusion_of fp rt model test = \<lparr>c_tp = of_nat tp, c_fp = of_nat ps, c_tn = of_nat tn, c_fn = of_nat ng\<rparr>"
    using fold_tally [of ?f ?g "enumerate 0 test" "\<lparr>c_tp = 0, c_fp = 0, c_tn = 0, c_fn = 0\<rparr>"]
    by (simp add: confusion_of_def case_prod_unfold counts)
  have ok: "correct fp rt model test = tp + tn"
    using outcomes_agree [of ?f ?g "enumerate 0 test"] by (simp add: correct_def case_prod_unfold counts)
  note parts = metrics_of_counts [OF assms(1) _ refl, of tp ps tn ng, folded conf, folded Evaluate_def, unfolded total, OF assms(2), folded ok]
  show "Accuracy (Evaluate fp rt model test) = Fin (fl fp (real (correct fp rt model test) / real (length test)))"
    by (rule parts(1))
  show p: "unit_float fp (Precision (Evaluate fp rt model test))"
    unfolding parts(2) by (rule unit_float_ratio [OF assms(1)]) simp
  show r: "unit_float fp (Recall (Evaluate fp rt model test))"
    unfolding parts(3) by (rule unit_float_ratio [OF assms(1)]) simp
  show "unit_float fp (F1 (Evaluate fp rt model test))"
    using f1_unit [OF assms(1) p r] unfolding Evaluate_def F1_metrics_of .
qed

section \<open>Properties\<close>

definition nb_spam :: data_record where
  "nb_spam = \<lparr>Label = ''spam'', Text = ''Win prize''\<rparr>"

definition nb_ham :: data_record where
  "nb_ham = \<lparr>Label = ''ham'', Text = ''at home''\<rparr>"

lemma tokens_nb: "Tokenize ''Win prize'' = [''win'', ''prize'']" "Tokenize ''at home'' = [''at'', ''home'']"
  by code_simp+

lemma fold_count_token_labels:
  "fmdom' (fst (fold (count_token l) ts st)) = fmdom' (fst st) \<union> (if ts = [] then {} else {l})"
  by (induction ts arbitrary: st) (auto simp: count_token_def Let_def split: prod.splits)

lemma fold_count_record_labels: "fmdom' (fst (fold count_record rs st)) = fmdom' (fst st) \<union> Label ` set rs"
proof (induction rs arbitrary: st)
  case (Cons r rs)
  have "fmdom' (fst (count_record r st)) = insert (Label r) (fmdom' (fst st))"
    by (auto simp: count_record_def Let_def fold_count_token_labels intro: fmdom'I split: prod.splits option.splits)
  then show ?case by (simp add: Cons)
qed simp

lemma CountLocal_labels: "fmdom' (WordCounts (CountLocal rs)) = Label ` set rs"
  by (simp add: CountLocal_def split_beta fold_count_record_labels)

text \<open>CountLocal counts: for every class and word, the local word count is the number of
occurrences of the word among the tokens of the records with that label, the class total is the number
of those tokens, and a label gets an entry in the word counts even when its texts have no token.\<close>

theorem CountLocal_counts:
  "get0 (get_map (WordCounts (CountLocal rs)) c) w = of_nat (count_list (tokens_of rs c) w) \<and>
   get0 (ClassTotals (CountLocal rs)) c = of_nat (length (tokens_of rs c)) \<and>
   fmdom' (WordCounts (CountLocal rs)) = Label ` set rs"
  using CountLocal_facts(1) [of rs c w] by (simp add: counted_def get0_totals CountLocal_labels)

text \<open>C6: Federated training is exact: however the training records are distributed over the
workers, in whatever order their counts arrive and in whatever order the maps are iterated, the
aggregated model is the very model one worker with all the records yields, down to the last bit.\<close>

theorem Aggregate_additive:
  assumes "map_runtime rt" and "map_runtime rt'" and "mset (concat rss) = mset rs"
  shows "Aggregate fp rt (map CountLocal rss) = Aggregate fp rt' [CountLocal rs]"
  using assms by (rule Aggregate_shards)

theorem Aggregate_additive_witness:
  "Aggregate exact_fpu sorted_runtime (map CountLocal [[nb_spam], [], [nb_ham, nb_spam]]) =
   Aggregate exact_fpu reversed_runtime [CountLocal [nb_ham, nb_spam, nb_spam]]"
  by (rule Aggregate_additive) simp_all

text \<open>C19: The probabilities of an aggregated model are Laplace estimates: for a class with at least
one token and a word of the vocabulary, the stored value is the rounded quotient (count + 1) / (class
tokens + vocabulary size), it is above 0 and at most 1, so that its logarithm is finite.  The bound of
2^52 training tokens keeps every integer exactly representable.\<close>

theorem Aggregate_laplace:
  assumes "map_runtime rt" and "ieee_rounding fp" and "int (length (all_tokens rs)) \<le> 2 ^ 52"
    and "tokens_of rs c \<noteq> []" and "w \<in> set (all_tokens rs)"
  shows "\<exists>p. fmlookup (get_map (WordProbs (Aggregate fp rt [CountLocal rs])) c) w = Some (Fin p) \<and>
    p = fl fp (real (count_list (tokens_of rs c) w + 1) / real (length (tokens_of rs c) + card (set (all_tokens rs)))) \<and>
    0 < p \<and> p \<le> 1"
proof -
  let ?b = "length (tokens_of rs c) + card (set (all_tokens rs))"
  have "int ?b \<le> 2 ^ 53"
    using assms(3) tokens_of_le [of rs c] card_length [of "all_tokens rs"] by auto
  moreover have "0 < ?b" using assms(4) by simp
  ultimately show ?thesis
    using laplace [OF assms] count_le_tokens [OF assms(5), of c] assms(2)
    by (simp only: fl_ratio_pos [OF assms(2)] fl_ratio_unit(2) simp_thms option.inject float64.inject)
qed

theorem Aggregate_laplace_witness:
  "\<exists>p. fmlookup (get_map (WordProbs (Aggregate exact_fpu sorted_runtime [CountLocal [nb_spam, nb_ham]])) ''spam'') ''win'' = Some (Fin p) \<and>
    p = fl exact_fpu (real (count_list (tokens_of [nb_spam, nb_ham] ''spam'') ''win'' + 1) /
      real (length (tokens_of [nb_spam, nb_ham] ''spam'') + card (set (all_tokens [nb_spam, nb_ham])))) \<and>
    0 < p \<and> p \<le> 1"
  by (rule Aggregate_laplace) (simp_all add: nb_spam_def nb_ham_def tokens_nb)

text \<open>In exact arithmetic the word probabilities of every class that has tokens sum to one over
the vocabulary.\<close>

theorem Aggregate_distribution:
  assumes "map_runtime rt" and "int (length (all_tokens rs)) \<le> 2 ^ 52" and "tokens_of rs c \<noteq> []"
  shows "(\<Sum>w\<in>set (all_tokens rs). fin_val (the (fmlookup (get_map (WordProbs (Aggregate exact_fpu rt [CountLocal rs])) c) w))) = 1"
  using assms by (rule laplace_sum)

theorem Aggregate_distribution_witness:
  "(\<Sum>w\<in>set (all_tokens [nb_spam, nb_ham]). fin_val (the (fmlookup (get_map (WordProbs
     (Aggregate exact_fpu sorted_runtime [CountLocal [nb_spam, nb_ham]])) ''ham'') w))) = 1"
  by (rule Aggregate_distribution) (simp_all add: nb_spam_def nb_ham_def tokens_nb)

text \<open>C18: Predict returns an argmax: whenever some class has a posterior score above minus infinity,
the answer is a class of the model and no class scores higher, in every iteration order.\<close>

theorem Predict_argmax:
  assumes "map_order ord" and "f_lt NInf (score_of fp model text d)"
  shows "Predict fp ord model text |\<in>| fmdom (ClassPriors model) \<and>
    \<not> f_lt (score_of fp model text (Predict fp ord model text)) (score_of fp model text d)"
  using Predict_argmax_nonempty [OF assms(1) refl assms(2)] by simp

definition nb_model :: global_model where
  "nb_model = \<lparr>WordProbs = fmupd ''spam'' (fmupd ''win'' (Fin (1 / 2)) fmempty) fmempty,
     ClassPriors = fmupd ''ham'' (Fin (1 / 2)) (fmupd ''spam'' (Fin (1 / 4)) fmempty), VocabSize = 1\<rparr>"

lemma Tokenize_win: "Tokenize ''win'' = [''win'']"
  by code_simp

lemma nb_scores:
  "score_of exact_fpu nb_model ''win'' ''ham'' = Fin (ln (1 / 2))"
  "score_of exact_fpu nb_model ''win'' ''spam'' = Fin (ln (1 / 4) + ln (1 / 2))"
  by (simp_all add: score_of_def nb_model_def class_score_def Tokenize_win add_token_score_def f_le_def exact_fpu_def)

theorem Predict_argmax_witness:
  "Predict exact_fpu sorted_order nb_model ''win'' |\<in>| fmdom (ClassPriors nb_model) \<and>
   \<not> f_lt (score_of exact_fpu nb_model ''win'' (Predict exact_fpu sorted_order nb_model ''win''))
       (score_of exact_fpu nb_model ''win'' ''spam'')"
  by (rule Predict_argmax) (simp_all add: nb_scores)

text \<open>A class whose score is strictly above that of every other class is the prediction in every
iteration order: without ties Predict is deterministic.\<close>

theorem Predict_deterministic:
  assumes "map_order ord" and "beats_all fp model text c"
  shows "Predict fp ord model text = c"
  using assms by (rule Predict_beats_all)

theorem Predict_deterministic_witness: "Predict exact_fpu sorted_order nb_model ''win'' = ''ham''"
proof (rule Predict_deterministic)
  have "ln (1 / 4 :: real) < 0" by (simp add: ln_less_zero)
  then show "beats_all exact_fpu nb_model ''win'' ''ham''"
    by (simp add: beats_all_def nb_scores) (simp add: nb_model_def nb_scores [unfolded nb_model_def])
qed simp

text \<open>On a tie the answer depends on the iteration order of a Go map, so it may differ from one
call to the next: after training on one ham and one spam record of equal length, a text without known
words is ham in ascending and spam in descending order of the classes.\<close>

lemma tie_model:
  assumes "ieee_rounding fp"
  shows "ClassPriors (Aggregate fp sorted_runtime [CountLocal [nb_ham, nb_spam]]) =
    fmupd ''ham'' (Fin (1 / 2)) (fmupd ''spam'' (Fin (1 / 2)) fmempty)"
proof (rule fmap_ext)
  fix c
  have "fl fp (1 / 2) = 1 / 2" using assms unfolding ieee_rounding_def by (metis power_one_right one_le_numeral)
  moreover have "tokens_of [nb_ham, nb_spam] c =
      (if c = ''ham'' then [''at'', ''home''] else if c = ''spam'' then [''win'', ''prize''] else [])"
    by (simp add: nb_ham_def nb_spam_def tokens_nb)
  moreover have "all_tokens [nb_ham, nb_spam] = [''at'', ''home'', ''win'', ''prize'']"
    by (simp add: nb_ham_def nb_spam_def tokens_nb)
  ultimately show "fmlookup (ClassPriors (Aggregate fp sorted_runtime [CountLocal [nb_ham, nb_spam]])) c =
      fmlookup (fmupd ''ham'' (Fin (1 / 2)) (fmupd ''spam'' (Fin (1 / 2)) fmempty)) c"
    using f_ratio [OF assms, of 4 2] int64_gt_of_nat [of 4] by (simp add: Aggregate_single)
qed

lemma tie_words:
  "fmlookup (get_map (WordProbs (Aggregate fp sorted_runtime [CountLocal [nb_ham, nb_spam]])) c) ''hello'' = None"
  by (simp add: Aggregate_single nb_ham_def nb_spam_def tokens_nb)

lemma Tokenize_hello: "Tokenize ''hello'' = [''hello'']"
  by code_simp

theorem Predict_tie:
  assumes "ieee_rounding fp"
  shows "Predict fp (sorted_runtime [0]) (Aggregate fp sorted_runtime [CountLocal [nb_ham, nb_spam]]) ''hello'' = ''ham'' \<and>
    Predict fp (reversed_runtime [0]) (Aggregate fp sorted_runtime [CountLocal [nb_ham, nb_spam]]) ''hello'' = ''spam''"
  using assms
  by (simp add: Predict_def tie_model go_range_def sorted_runtime_def reversed_runtime_def sorted_order_def
      sorted_list_of_fset.rep_eq range_step_def predict_body_def class_score_def Tokenize_hello add_token_score_def
      tie_words f_le_def Let_def)

theorem Predict_tie_witness:
  "Predict exact_fpu (sorted_runtime [0]) (Aggregate exact_fpu sorted_runtime [CountLocal [nb_ham, nb_spam]]) ''hello'' = ''ham'' \<and>
   Predict exact_fpu (reversed_runtime [0]) (Aggregate exact_fpu sorted_runtime [CountLocal [nb_ham, nb_spam]]) ''hello'' = ''spam''"
  by (rule Predict_tie) simp

text \<open>C20: Evaluate reports the rounded share of correctly classified records as accuracy, and every
metric is a finite representable value of the unit interval: no division by zero, no NaN, and the
harmonic mean never exceeds 1 even after rounding.\<close>

theorem Evaluate_metrics:
  assumes "ieee_rounding fp" and "int (length test) \<le> 2 ^ 53"
  shows "Accuracy (Evaluate fp rt model test) = Fin (fl fp (real (correct fp rt model test) / real (length test))) \<and>
    unit_float fp (Precision (Evaluate fp rt model test)) \<and> unit_float fp (Recall (Evaluate fp rt model test)) \<and>
    unit_float fp (F1 (Evaluate fp rt model test))"
  using Evaluate_parts [OF assms] by simp

theorem Evaluate_metrics_witness:
  "Accuracy (Evaluate exact_fpu sorted_runtime nb_model [nb_ham, nb_spam]) =
     Fin (fl exact_fpu (real (correct exact_fpu sorted_runtime nb_model [nb_ham, nb_spam]) / real (length [nb_ham, nb_spam]))) \<and>
   unit_float exact_fpu (Precision (Evaluate exact_fpu sorted_runtime nb_model [nb_ham, nb_spam])) \<and>
   unit_float exact_fpu (Recall (Evaluate exact_fpu sorted_runtime nb_model [nb_ham, nb_spam])) \<and>
   unit_float exact_fpu (F1 (Evaluate exact_fpu sorted_runtime nb_model [nb_ham, nb_spam]))"
  by (rule Evaluate_metrics) simp_all

end
