(* ===== verification/FLActors.thy ===== *)
theory FLActors
  imports FLConvert NaiveBayesSpec
begin

text \<open>
  The three actors of federated learning: \<^verbatim>\<open>internal/fl/worker.go\<close>,
  \<^verbatim>\<open>aggregator.go\<close> and \<^verbatim>\<open>coordinator.go\<close>.  A handler returns the
  actor's new state and the list of its effects in order: sends with \<^verbatim>\<open>sendWithRetry\<close>
  (with what is logged when all attempts fail), log lines and results for the driver.  No handler branches
  on the outcome of a send, so the list is the whole of what it does; \<open>perform_effects\<close> runs it.
\<close>

section \<open>Effects\<close>

datatype 'ref fl_log =
    WorkerLoad string int64 data_error
  | UpdateSend string int64
  | ModelSend string int64
  | PartitionMismatch string nat nat
  | TriggerSend string int64
  | RequestSend string int64 'ref
  | Evaluation string int64 metrics

datatype 'ref effect =
    SendRetry 'ref fl_msg "'ref fl_log"
  | Log "'ref fl_log"
  | Result round_result

definition perform_effect ::
    "(nat \<Rightarrow> 'w \<Rightarrow> 'w) \<Rightarrow> ('ref \<Rightarrow> fl_msg \<Rightarrow> 'w \<Rightarrow> ('e option \<times> 'w) option) \<Rightarrow> ('ref fl_log \<Rightarrow> 'w \<Rightarrow> 'w) \<Rightarrow>
     (round_result \<Rightarrow> 'w \<Rightarrow> 'w option) \<Rightarrow> 'ref effect \<Rightarrow> 'w \<Rightarrow> 'w option" where
  "perform_effect sleep tell logger emit eff w =
     (case eff of
        SendRetry to msg line \<Rightarrow>
          (case sendWithRetry sleep tell to msg w of
             None \<Rightarrow> None
           | Some (None, w') \<Rightarrow> Some w'
           | Some (Some _, w') \<Rightarrow> Some (logger line w'))
      | Log line \<Rightarrow> Some (logger line w)
      | Result r \<Rightarrow> emit r w)"

text \<open>On local references a send is performed once or not at all, whatever cases the selects pick.\<close>

lemma perform_send_local:
  assumes "perform_effect (\<lambda>_ cs. cs) (\<lambda>c. PID_Tell pick (pid_of_cell c)) logger emit (SendRetry to m line) cs = Some cs'"
    and "\<And>l cs. pid_inbox (logger l cs) = pid_inbox cs"
  shows "pid_inbox cs' = (pid_inbox cs)(to := pid_inbox cs to @ [m]) \<or> pid_inbox cs' = pid_inbox cs"
proof -
  obtain res cs1 where r: "retry send_attempts (\<lambda>_ cs. cs) (PID_Tell pick (pid_of_cell to) m) None cs = Some (res, cs1)"
    and cs': "cs' = (case res of None \<Rightarrow> cs1 | Some _ \<Rightarrow> logger line cs1)"
    using assms(1) by (auto simp: perform_effect_def sendWithRetry_eq tellWithRetry_def split: option.splits)
  have "pid_inbox cs1 = (if res = None then (pid_inbox cs)(to := pid_inbox cs to @ [m]) else pid_inbox cs)"
    by (rule pid_delivery.retry_exact [OF r]) (simp add: send_attempts_def)
  then show ?thesis using cs' assms(2) by (auto split: option.splits if_splits)
qed

section \<open>Worker\<close>

record 'ref worker_actor =
  WorkerID :: string
  w_Aggregator :: 'ref

definition worker_receive ::
    "filesystem \<Rightarrow> runtime \<Rightarrow> 'ref worker_actor \<Rightarrow> fl_msg \<Rightarrow> 'ref effect list" where
  "worker_receive fs rt w msg =
     (case msg of
        TrainRequest req \<Rightarrow>
          (case Load fs (tr_DatasetPartitionPath req) of
             Inl err \<Rightarrow> [Log (WorkerLoad (WorkerID w) (tr_RoundId req) err)]
           | Inr records \<Rightarrow>
               (let c = CountLocal records;
                    update = \<lparr>up_RoundId = tr_RoundId req, up_WorkerId = WorkerID w,
                              up_WordCounts = toPBWordCounts (sub_run rt 0) (WordCounts c),
                              up_ClassTotals = toPBInt64Map (rt [1]) (ClassTotals c)\<rparr>
                in [SendRetry (w_Aggregator w) (LocalModelUpdate update) (UpdateSend (WorkerID w) (tr_RoundId req))]))
      | _ \<Rightarrow> [])"

section \<open>Aggregator\<close>

record 'ref aggregator_actor =
  AggregatorID :: string
  a_Coordinator :: 'ref
  updates :: "(int64, local_counts list) fmap"
  expected :: "(int64, int64) fmap"

definition NewAggregatorActor :: "string \<Rightarrow> 'ref \<Rightarrow> 'ref aggregator_actor" where
  "NewAggregatorActor aid coordinator =
     \<lparr>AggregatorID = aid, a_Coordinator = coordinator, updates = fmempty, expected = fmempty\<rparr>"

text \<open>\<^verbatim>\<open>a.updates[roundID]\<close>: the nil slice where the round is missing.\<close>

definition round_updates :: "'ref aggregator_actor \<Rightarrow> int64 \<Rightarrow> local_counts list" where
  "round_updates a r = (case fmlookup (updates a) r of None \<Rightarrow> [] | Some us \<Rightarrow> us)"

definition maybeAggregate ::
    "fpu \<Rightarrow> runtime \<Rightarrow> 'ref aggregator_actor \<Rightarrow> int64 \<Rightarrow> 'ref aggregator_actor \<times> 'ref effect list" where
  "maybeAggregate fp rt a roundID =
     (case fmlookup (expected a) roundID of
        None \<Rightarrow> (a, [])
      | Some n \<Rightarrow>
          if int64_gt n (of_nat (length (round_updates a roundID))) then (a, [])
          else (let model = Aggregate fp (sub_run rt 0) (round_updates a roundID)
                in (a\<lparr>updates := fmdrop roundID (updates a), expected := fmdrop roundID (expected a)\<rparr>,
                    [SendRetry (a_Coordinator a)
                       (AggregatedModel \<lparr>am_RoundId = roundID,
                                         am_GlobalWordProbs = toPBWordProbs (rt [1]) (WordProbs model),
                                         am_ClassPriors = ClassPriors model\<rparr>)
                       (ModelSend (AggregatorID a) roundID)])))"

definition update_counts :: "runtime \<Rightarrow> local_model_update \<Rightarrow> local_counts" where
  "update_counts rt m =
     \<lparr>WordCounts = fromPBWordCounts (sub_run rt 0) (up_WordCounts m), ClassTotals = fromPBInt64Map (rt [1]) (up_ClassTotals m)\<rparr>"

definition aggregator_receive ::
    "fpu \<Rightarrow> runtime \<Rightarrow> 'ref aggregator_actor \<Rightarrow> fl_msg \<Rightarrow> 'ref aggregator_actor \<times> 'ref effect list" where
  "aggregator_receive fp rt a msg =
     (case msg of
        AggregateTrigger m \<Rightarrow>
          maybeAggregate fp (sub_run rt 0)
            (a\<lparr>expected := fmupd (at_RoundId m) (at_ExpectedWorkers m) (expected a)\<rparr>) (at_RoundId m)
      | LocalModelUpdate m \<Rightarrow>
          maybeAggregate fp (sub_run rt 0)
            (a\<lparr>updates := fmupd (up_RoundId m) (round_updates a (up_RoundId m) @ [update_counts (sub_run rt 1) m]) (updates a)\<rparr>)
            (up_RoundId m)
      | _ \<Rightarrow> (a, []))"

section \<open>Coordinator\<close>

record 'ref coordinator_actor =
  CoordinatorID :: string
  Workers :: "'ref list"
  c_Aggregator :: 'ref
  TestSet :: "data_record list"
  has_results :: bool
  roundID :: int64

text \<open>One send per worker, in order; the paths are as many as the workers here.\<close>

definition train_requests :: "'ref coordinator_actor \<Rightarrow> int64 \<Rightarrow> string list \<Rightarrow> 'ref effect list" where
  "train_requests c r paths =
     map (\<lambda>i. SendRetry (Workers c ! i) (TrainRequest \<lparr>tr_RoundId = r, tr_DatasetPartitionPath = paths ! i\<rparr>)
               (RequestSend (CoordinatorID c) r (Workers c ! i)))
       [0..<length (Workers c)]"

definition startRound :: "'ref coordinator_actor \<Rightarrow> string list \<Rightarrow> 'ref coordinator_actor \<times> 'ref effect list" where
  "startRound c paths =
     (if length paths \<noteq> length (Workers c)
      then (c, [Log (PartitionMismatch (CoordinatorID c) (length paths) (length (Workers c)))])
      else (let r = roundID c + 1
            in (c\<lparr>roundID := r\<rparr>,
                SendRetry (c_Aggregator c) (AggregateTrigger \<lparr>at_RoundId = r, at_ExpectedWorkers = of_nat (length (Workers c))\<rparr>)
                  (TriggerSend (CoordinatorID c) r)
                # train_requests c r paths)))"

text \<open>The size of the first class's vocabulary, in iteration order.\<close>

definition first_size :: "string order \<Rightarrow> (string, (string, float64) fmap) fmap \<Rightarrow> int64" where
  "first_size ord probs = (case ord (fmdom probs) of [] \<Rightarrow> 0 | k # _ \<Rightarrow> of_nat (fcard (fmdom (get_map probs k))))"

definition evaluate :: "fpu \<Rightarrow> runtime \<Rightarrow> 'ref coordinator_actor \<Rightarrow> aggregated_model \<Rightarrow> 'ref effect list" where
  "evaluate fp rt c m =
     (let probs = fromPBWordProbs (rt [0]) (am_GlobalWordProbs m);
          model = \<lparr>WordProbs = probs, ClassPriors = am_ClassPriors m, VocabSize = first_size (rt [1]) probs\<rparr>;
          metrics = Evaluate fp (sub_run rt 2) model (TestSet c)
      in Log (Evaluation (CoordinatorID c) (am_RoundId m) metrics)
         # (if has_results c then [Result \<lparr>rr_RoundID = int_of_int64 (am_RoundId m), rr_Metrics = metrics\<rparr>] else []))"

definition coordinator_receive ::
    "fpu \<Rightarrow> runtime \<Rightarrow> 'ref coordinator_actor \<Rightarrow> fl_msg \<Rightarrow> 'ref coordinator_actor \<times> 'ref effect list" where
  "coordinator_receive fp rt c msg =
     (case msg of
        StartTraining paths \<Rightarrow> startRound c paths
      | AggregatedModel m \<Rightarrow> (c, evaluate fp rt c m)
      | _ \<Rightarrow> (c, []))"

section \<open>Facts about the handlers\<close>

lemma round_updates_simps [simp]:
  "round_updates (a\<lparr>expected := e\<rparr>) r = round_updates a r"
  "round_updates (a\<lparr>updates := fmupd r' us (updates a)\<rparr>) r = (if r = r' then us else round_updates a r)"
  "round_updates (a\<lparr>updates := fmdrop r' (updates a), expected := e\<rparr>) r = (if r = r' then [] else round_updates a r)"
  by (simp_all add: round_updates_def)

text \<open>The message a worker sends for its records, as the aggregator reads it back.\<close>

definition update_for :: "int64 \<Rightarrow> string \<Rightarrow> data_record list \<Rightarrow> local_model_update" where
  "update_for r wid records =
     \<lparr>up_RoundId = r, up_WorkerId = wid,
      up_WordCounts = fmmap (\<lambda>words. \<lparr>Counts = words\<rparr>) (WordCounts (CountLocal records)),
      up_ClassTotals = ClassTotals (CountLocal records)\<rparr>"

lemma worker_receive_train:
  assumes "map_runtime rt"
  shows "worker_receive fs rt w (TrainRequest req) =
    (case Load fs (tr_DatasetPartitionPath req) of
       Inl err \<Rightarrow> [Log (WorkerLoad (WorkerID w) (tr_RoundId req) err)]
     | Inr records \<Rightarrow> [SendRetry (w_Aggregator w) (LocalModelUpdate (update_for (tr_RoundId req) (WorkerID w) records))
         (UpdateSend (WorkerID w) (tr_RoundId req))])"
  using assms by (simp add: worker_receive_def update_for_def Let_def toPBWordCounts_eq toPBInt64Map_id order_intros
      split: sum.split)

lemma update_counts_eq:
  "map_runtime rt \<Longrightarrow> update_counts rt m = \<lparr>WordCounts = fmmap Counts (up_WordCounts m), ClassTotals = up_ClassTotals m\<rparr>"
  by (simp add: update_counts_def fromPBWordCounts_eq fromPBInt64Map_id order_intros)

lemma Counts_wrap [simp]: "fmmap Counts (fmmap (\<lambda>words. \<lparr>Counts = words\<rparr>) m) = m"
  by (rule fmap_ext) (simp add: option.map_comp o_def option.map_ident)

lemma Probs_wrap [simp]: "fmmap Probs (fmmap (\<lambda>probs. \<lparr>Probs = probs\<rparr>) m) = m"
  by (rule fmap_ext) (simp add: option.map_comp o_def option.map_ident)

lemma update_counts_for: "map_runtime rt \<Longrightarrow> update_counts rt (update_for r wid records) = CountLocal records"
  by (simp add: update_counts_eq update_for_def)

text \<open>The model message an aggregation sends, whatever the iteration orders.\<close>

definition model_message :: "fpu \<Rightarrow> int64 \<Rightarrow> local_counts list \<Rightarrow> fl_msg" where
  "model_message fp r us =
     (let model = Aggregate fp sorted_runtime us
      in AggregatedModel \<lparr>am_RoundId = r, am_GlobalWordProbs = fmmap (\<lambda>probs. \<lparr>Probs = probs\<rparr>) (WordProbs model),
                          am_ClassPriors = ClassPriors model\<rparr>)"

lemma Aggregate_runtime:
  assumes "map_runtime rt" and "map_runtime rt'" and "mset us = mset us'"
  shows "Aggregate fp rt us = Aggregate fp rt' us'"
proof (rule Aggregate_cong [OF assms(1,2)])
  have set: "set us = set us'" using assms(3) by (metis set_mset_mset)
  have sum: "(\<Sum>u\<leftarrow>us. f u) = (\<Sum>u\<leftarrow>us'. f u)" for f :: "local_counts \<Rightarrow> int64"
    using assms(3) by (metis mset_map sum_mset_sum_list)
  show "sum_counted us c w = sum_counted us' c w" for c w by (simp add: sum_counted_def sum)
  show "sum_totals us c = sum_totals us' c" for c by (simp add: sum_totals_def sum set)
  show "all_words us = all_words us'" by (simp add: all_words_def set)
qed

lemma maybeAggregate_eq:
  assumes "map_runtime rt"
  shows "maybeAggregate fp rt a r =
    (case fmlookup (expected a) r of
       None \<Rightarrow> (a, [])
     | Some n \<Rightarrow>
         if int64_gt n (of_nat (length (round_updates a r))) then (a, [])
         else (a\<lparr>updates := fmdrop r (updates a), expected := fmdrop r (expected a)\<rparr>,
               [SendRetry (a_Coordinator a) (model_message fp r (round_updates a r)) (ModelSend (AggregatorID a) r)]))"
  using assms Aggregate_runtime [OF map_runtime_sub [OF assms, of 0] map_runtime_sorted refl, where fp = fp]
  by (simp add: maybeAggregate_def model_message_def Let_def toPBWordProbs_eq order_intros split: option.split)

section \<open>One round at the aggregator\<close>

primrec aggregator_run ::
    "fpu \<Rightarrow> runtime \<Rightarrow> 'ref aggregator_actor \<Rightarrow> fl_msg list \<Rightarrow> 'ref aggregator_actor \<times> 'ref effect list" where
  "aggregator_run fp rt a [] = (a, [])"
| "aggregator_run fp rt a (m # ms) =
     (let (a', out) = aggregator_receive fp (sub_run rt 0) a m;
          (a'', outs) = aggregator_run fp (sub_run rt 1) a' ms
      in (a'', out @ outs))"

text \<open>The aggregator's state in the middle of round \<open>r\<close>: the counts it has got, and whether it knows how many to expect.\<close>

definition mid_round ::
    "'ref aggregator_actor \<Rightarrow> int64 \<Rightarrow> nat \<Rightarrow> local_counts list \<Rightarrow> bool \<Rightarrow> 'ref aggregator_actor" where
  "mid_round a r n got triggered =
     a\<lparr>updates := (if got = [] then updates a else fmupd r got (updates a)),
       expected := (if triggered then fmupd r (of_nat n) (expected a) else expected a)\<rparr>"

definition fresh_round :: "'ref aggregator_actor \<Rightarrow> int64 \<Rightarrow> bool" where
  "fresh_round a r \<longleftrightarrow> fmlookup (updates a) r = None \<and> fmlookup (expected a) r = None"

definition trigger_msg :: "int64 \<Rightarrow> nat \<Rightarrow> fl_msg" where
  "trigger_msg r n = AggregateTrigger \<lparr>at_RoundId = r, at_ExpectedWorkers = of_nat n\<rparr>"

primrec updates_in :: "fl_msg list \<Rightarrow> local_counts list" where
  "updates_in [] = []"
| "updates_in (m # ms) = (case m of LocalModelUpdate u \<Rightarrow> update_counts sorted_runtime u # updates_in ms | _ \<Rightarrow> updates_in ms)"

definition round_msg :: "int64 \<Rightarrow> nat \<Rightarrow> fl_msg \<Rightarrow> bool" where
  "round_msg r n m \<longleftrightarrow> m = trigger_msg r n \<or> (case m of LocalModelUpdate u \<Rightarrow> up_RoundId u = r | _ \<Rightarrow> False)"

lemma fmdrop_idle: "fmlookup m k = None \<Longrightarrow> fmdrop k m = m" "fmlookup m k = None \<Longrightarrow> fmdrop k (fmupd k v m) = m"
  by (auto intro: fmap_ext)

lemma mid_round_updates [simp]:
  "fresh_round a r \<Longrightarrow> round_updates (mid_round a r n got triggered) r = got"
  by (simp add: mid_round_def fresh_round_def round_updates_def)

lemma mid_round_fields:
  "fresh_round a r \<Longrightarrow> fmlookup (expected (mid_round a r n got triggered)) r = (if triggered then Some (of_nat n) else None)"
  "a_Coordinator (mid_round a r n got triggered) = a_Coordinator a"
  "AggregatorID (mid_round a r n got triggered) = AggregatorID a"
  by (simp_all add: mid_round_def fresh_round_def)

lemma update_counts_runtime: "map_runtime rt \<Longrightarrow> update_counts rt m = update_counts sorted_runtime m"
  by (simp add: update_counts_eq)

text \<open>A message of the round moves the state on; the last one completes the round.\<close>

lemma mid_round_receive:
  assumes "map_runtime rt" and "fresh_round a r" and "round_msg r n m" and "int n \<le> int64_max"
    and "got' = got @ updates_in [m]" and "triggered' \<longleftrightarrow> triggered \<or> m = trigger_msg r n" and "length got' \<le> n"
  shows "aggregator_receive fp rt (mid_round a r n got triggered) m =
    (if triggered' \<and> length got' = n
     then (a, [SendRetry (a_Coordinator a) (model_message fp r got') (ModelSend (AggregatorID a) r)])
     else (mid_round a r n got' triggered', []))"
proof -
  have gt: "int64_gt (of_nat n) (of_nat (length got')) \<longleftrightarrow> length got' \<noteq> n"
    using assms(4,7) by (auto simp: int64_gt_def sint_of_nat)
  have drop: "(mid_round a r n got' triggered')\<lparr>updates := fmdrop r (updates (mid_round a r n got' triggered')),
      expected := fmdrop r (expected (mid_round a r n got' triggered'))\<rparr> = a"
    using assms(2) by (simp add: mid_round_def fresh_round_def fmdrop_idle)
  have "aggregator_receive fp rt (mid_round a r n got triggered) m =
      maybeAggregate fp (sub_run rt 0) (mid_round a r n got' triggered') r"
  proof (cases "m = trigger_msg r n")
    case True
    then show ?thesis using assms(5,6)
      by (simp add: aggregator_receive_def trigger_msg_def mid_round_def)
  next
    case False
    then obtain u where "m = LocalModelUpdate u" "up_RoundId u = r"
      using assms(3) by (cases m) (auto simp: round_msg_def)
    moreover have "(mid_round a r n got triggered)\<lparr>updates :=
        fmupd r (got @ [c]) (updates (mid_round a r n got triggered))\<rparr> = mid_round a r n (got @ [c]) triggered" for c
      by (cases a) (simp add: mid_round_def)
    ultimately show ?thesis using assms(1,2,5,6)
      by (simp add: aggregator_receive_def trigger_msg_def update_counts_runtime [OF map_runtime_sub])
  qed
  also have "\<dots> = (if triggered' \<and> length got' = n
     then (a, [SendRetry (a_Coordinator a) (model_message fp r got') (ModelSend (AggregatorID a) r)])
     else (mid_round a r n got' triggered', []))"
    using assms(1,2) gt drop
    by (cases triggered'; cases "length got' = n") (simp_all add: maybeAggregate_eq map_runtime_sub mid_round_fields)
  finally show ?thesis .
qed

lemma updates_in_append: "updates_in (xs @ ys) = updates_in xs @ updates_in ys"
  by (induction xs) (auto split: fl_msg.split)

lemma no_round_msgs: "list_all (round_msg r n) ms \<Longrightarrow> trigger_msg r n \<notin> set ms \<Longrightarrow> updates_in ms = [] \<Longrightarrow> ms = []"
  by (cases ms) (auto simp: round_msg_def trigger_msg_def split: fl_msg.splits)

lemma run_round:
  assumes "map_runtime rt" and "fresh_round a r" and "int n \<le> int64_max"
    and "list_all (round_msg r n) ms" and "ms \<noteq> []"
    and "count_list ms (trigger_msg r n) = (if triggered then 0 else 1)"
    and "length got + length (updates_in ms) = n"
  shows "aggregator_run fp rt (mid_round a r n got triggered) ms =
    (a, [SendRetry (a_Coordinator a) (model_message fp r (got @ updates_in ms)) (ModelSend (AggregatorID a) r)])"
  using assms
proof (induction ms arbitrary: rt got triggered)
  case (Cons m ms)
  define got' where "got' = got @ updates_in [m]"
  define triggered' where "triggered' \<longleftrightarrow> triggered \<or> m = trigger_msg r n"
  have all: "got @ updates_in (m # ms) = got' @ updates_in ms"
    unfolding got'_def by (simp split: fl_msg.split)
  have len: "length got' + length (updates_in ms) = n"
    using Cons.prems(7) unfolding got'_def by (simp split: fl_msg.splits)
  have cnt: "count_list ms (trigger_msg r n) = (if triggered' then 0 else 1)"
    using Cons.prems(6) by (auto simp: triggered'_def split: if_splits)
  have recv: "aggregator_receive fp (sub_run rt 0) (mid_round a r n got triggered) m =
    (if triggered' \<and> length got' = n
     then (a, [SendRetry (a_Coordinator a) (model_message fp r got') (ModelSend (AggregatorID a) r)])
     else (mid_round a r n got' triggered', []))"
    using Cons.prems len by (intro mid_round_receive) (auto simp: map_runtime_sub got'_def triggered'_def)
  have complete: "triggered' \<and> length got' = n \<longleftrightarrow> ms = []"
  proof
    assume "triggered' \<and> length got' = n"
    then have "trigger_msg r n \<notin> set ms" "updates_in ms = []"
      using cnt len by (auto simp: count_list_0_iff)
    then show "ms = []" using Cons.prems(4) by (auto intro: no_round_msgs)
  qed (use cnt len in \<open>auto split: if_splits\<close>)
  show ?case
  proof (cases "ms = []")
    case True
    then show ?thesis using recv complete all by simp
  next
    case False
    then have "aggregator_run fp (sub_run rt 1) (mid_round a r n got' triggered') ms =
        (a, [SendRetry (a_Coordinator a) (model_message fp r (got' @ updates_in ms)) (ModelSend (AggregatorID a) r)])"
      using Cons.prems cnt len by (intro Cons.IH) (auto simp: map_runtime_sub)
    moreover have "aggregator_receive fp (sub_run rt 0) (mid_round a r n got triggered) m = (mid_round a r n got' triggered', [])"
      using recv complete False by simp
    ultimately show ?thesis unfolding all by simp
  qed
qed simp

lemma mid_round_start: "mid_round a r n [] False = a"
  by (simp add: mid_round_def)

lemma mset_updates_in:
  "mset (updates_in ms) = \<Sum>\<^sub># (image_mset (\<lambda>m. mset (updates_in [m])) (mset ms))"
  by (induction ms) (auto split: fl_msg.split)

lemma model_message_mset: "mset us = mset us' \<Longrightarrow> model_message fp r us = model_message fp r us'"
  by (simp add: model_message_def Aggregate_runtime [OF map_runtime_sorted map_runtime_sorted, of us us'])

section \<open>Properties\<close>

text \<open>C17: The aggregator may be told the number of workers and their updates in any order: the trigger of a
round and as many updates as it announces, in any interleaving, lead to exactly one send, of the model
aggregated from those updates, when the last of them arrives; and leave the aggregator as it was before
the round.\<close>

theorem aggregator_any_order:
  assumes "map_runtime rt" and "fresh_round a r" and "int (length us) \<le> int64_max"
    and "list_all (\<lambda>u. up_RoundId u = r) us"
    and "mset msgs = add_mset (trigger_msg r (length us)) (image_mset LocalModelUpdate (mset us))"
  shows "aggregator_run fp rt a msgs =
    (a, [SendRetry (a_Coordinator a) (model_message fp r (map (update_counts sorted_runtime) us)) (ModelSend (AggregatorID a) r)])"
proof -
  have "mset (updates_in msgs) = \<Sum>\<^sub># (image_mset (\<lambda>m. mset (updates_in [m])) (image_mset LocalModelUpdate (mset us)))"
    unfolding mset_updates_in [of msgs] assms(5) by (simp add: trigger_msg_def)
  also have "\<dots> = mset (map (update_counts sorted_runtime) us)" by (induction us) simp_all
  finally have ups: "mset (updates_in msgs) = mset (map (update_counts sorted_runtime) us)" .
  then have len: "length (updates_in msgs) = length us" by (metis length_map size_mset)
  have set: "set msgs = insert (trigger_msg r (length us)) (LocalModelUpdate ` set us)"
    using arg_cong [OF assms(5), of set_mset] by simp
  then have all: "list_all (round_msg r (length us)) msgs"
    using assms(4) by (auto simp: list_all_iff round_msg_def)
  have "count (mset msgs) (trigger_msg r (length us)) = 1"
    unfolding assms(5) by (auto simp: trigger_msg_def count_eq_zero_iff)
  then have cnt: "count_list msgs (trigger_msg r (length us)) = 1" by (simp add: count_mset)
  have "msgs \<noteq> []" using set by auto
  then have "aggregator_run fp rt (mid_round a r (length us) [] False) msgs =
      (a, [SendRetry (a_Coordinator a) (model_message fp r ([] @ updates_in msgs)) (ModelSend (AggregatorID a) r)])"
    using cnt len by (intro run_round assms(1-3) all) simp_all
  then show ?thesis using model_message_mset [OF ups] by (simp add: mid_round_start)
qed

definition upd_a :: local_model_update where
  "upd_a = update_for 1 ''worker-0'' [\<lparr>Label = ''spam'', Text = ''win''\<rparr>]"

definition upd_b :: local_model_update where
  "upd_b = update_for 1 ''worker-1'' [\<lparr>Label = ''ham'', Text = ''hey''\<rparr>]"

theorem aggregator_any_order_witness:
  "aggregator_run exact_fpu reversed_runtime (NewAggregatorActor ''aggregator'' ''c'')
     [LocalModelUpdate upd_b, trigger_msg 1 2, LocalModelUpdate upd_a] =
   (NewAggregatorActor ''aggregator'' ''c'',
    [SendRetry (a_Coordinator (NewAggregatorActor ''aggregator'' ''c''))
      (model_message exact_fpu 1 (map (update_counts sorted_runtime) [upd_a, upd_b]))
      (ModelSend (AggregatorID (NewAggregatorActor ''aggregator'' ''c'')) 1)])"
  by (rule aggregator_any_order)
    (simp_all add: fresh_round_def NewAggregatorActor_def upd_a_def upd_b_def update_for_def int64_max_def numeral_2_eq_2)

lemma aggregator_run_append:
  "aggregator_run fp rt a ms = (a', out) \<Longrightarrow> (\<And>rt'. map_runtime rt' \<Longrightarrow> aggregator_run fp rt' a' ms' = (a'', out')) \<Longrightarrow>
   map_runtime rt \<Longrightarrow> aggregator_run fp rt a (ms @ ms') = (a'', out @ out')"
  by (induction ms arbitrary: rt a out) (auto simp: map_runtime_sub split: prod.splits)

text \<open>C39: The aggregator counts messages, not workers: an update that a retried remote send delivered twice
completes a round of two workers without the second one, the model is aggregated from the first worker
counted twice, and the second worker's update, arriving later, stays behind for ever.\<close>

theorem aggregator_counts_duplicates:
  assumes "map_runtime rt" and "fresh_round a r" and "up_RoundId u = r" and "up_RoundId v = r"
  shows "aggregator_run fp rt a [trigger_msg r 2, LocalModelUpdate u, LocalModelUpdate u, LocalModelUpdate v] =
    (a\<lparr>updates := fmupd r [update_counts sorted_runtime v] (updates a)\<rparr>,
     [SendRetry (a_Coordinator a) (model_message fp r [update_counts sorted_runtime u, update_counts sorted_runtime u])
        (ModelSend (AggregatorID a) r)])"
proof -
  have "aggregator_run fp rt (mid_round a r 2 [] False) [trigger_msg r 2, LocalModelUpdate u, LocalModelUpdate u] =
      (a, [SendRetry (a_Coordinator a) (model_message fp r [update_counts sorted_runtime u, update_counts sorted_runtime u])
        (ModelSend (AggregatorID a) r)])"
    using run_round [OF assms(1,2), of 2 "[trigger_msg r 2, LocalModelUpdate u, LocalModelUpdate u]" False "[]" fp] assms(3)
    by (simp add: round_msg_def trigger_msg_def int64_max_def)
  moreover have "aggregator_run fp rt' a [LocalModelUpdate v] =
      (a\<lparr>updates := fmupd r [update_counts sorted_runtime v] (updates a)\<rparr>, [])" if "map_runtime rt'" for rt'
    using that assms(2,4)
    by (simp add: aggregator_receive_def maybeAggregate_eq map_runtime_sub update_counts_runtime [OF map_runtime_sub]
        fresh_round_def round_updates_def)
  ultimately show ?thesis
    using aggregator_run_append [of fp rt a "[trigger_msg r 2, LocalModelUpdate u, LocalModelUpdate u]" a _ "[LocalModelUpdate v]"]
      assms(1) by (simp add: mid_round_start)
qed

theorem aggregator_counts_duplicates_witness:
  "aggregator_run exact_fpu sorted_runtime (NewAggregatorActor ''aggregator'' ''c'')
     [trigger_msg 1 2, LocalModelUpdate upd_a, LocalModelUpdate upd_a, LocalModelUpdate upd_b] =
   ((NewAggregatorActor ''aggregator'' ''c'')\<lparr>updates := fmupd 1 [update_counts sorted_runtime upd_b]
      (updates (NewAggregatorActor ''aggregator'' ''c''))\<rparr>,
    [SendRetry (a_Coordinator (NewAggregatorActor ''aggregator'' ''c''))
       (model_message exact_fpu 1 [update_counts sorted_runtime upd_a, update_counts sorted_runtime upd_a])
       (ModelSend (AggregatorID (NewAggregatorActor ''aggregator'' ''c'')) 1)])"
  by (rule aggregator_counts_duplicates) (simp_all add: fresh_round_def NewAggregatorActor_def upd_a_def upd_b_def update_for_def)

end
