(* ===== verification/FedRound.thy ===== *)
theory FedRound
  imports FLActors
begin

text \<open>
  Federated rounds as a network of actors: one coordinator, one aggregator and any number of workers, each
  with a FIFO mailbox and the effects its running handler has still to perform.  A step lets one actor
  take its next message or perform its next effect, in any order; a send either delivers the message once
  or, when all attempts fail, loses it.  Every result the coordinator reports is the evaluation of
  the model trained centrally on all the workers' records.
\<close>

section \<open>The network\<close>

datatype node = Coord | Agg | Work nat

record fed_config =
  fc_workers :: nat
  fc_fpu :: fpu
  fc_files :: "nat \<Rightarrow> filesystem"
  fc_worker_id :: "nat \<Rightarrow> string"
  fc_test :: "data_record list"
  fc_starts :: "string list list"

record fed_net =
  coord :: "node coordinator_actor"
  agg :: "node aggregator_actor"
  boxes :: "node \<Rightarrow> fl_msg list"
  outbox :: "node \<Rightarrow> node effect list"
  results :: "round_result list"

text \<open>The actors as the driver programs build them, with the training requests in the coordinator's mailbox.\<close>

definition fed_coordinator :: "fed_config \<Rightarrow> node coordinator_actor" where
  "fed_coordinator g =
     \<lparr>CoordinatorID = ''coordinator'', Workers = map Work [0..<fc_workers g], c_Aggregator = Agg,
      TestSet = fc_test g, has_results = True, roundID = 0\<rparr>"

definition fed_worker :: "fed_config \<Rightarrow> nat \<Rightarrow> node worker_actor" where
  "fed_worker g i = \<lparr>WorkerID = fc_worker_id g i, w_Aggregator = Agg\<rparr>"

definition fed_start :: "fed_config \<Rightarrow> fed_net" where
  "fed_start g =
     \<lparr>coord = fed_coordinator g, agg = NewAggregatorActor ''aggregator'' Coord,
      boxes = (\<lambda>_. [])(Coord := map StartTraining (fc_starts g)), outbox = (\<lambda>_. []), results = []\<rparr>"

text \<open>One message at one node: the new actor states and the handler's effects.\<close>

definition fed_handle :: "fed_config \<Rightarrow> runtime \<Rightarrow> node \<Rightarrow> fl_msg \<Rightarrow> 'z fed_net_scheme \<Rightarrow> 'z fed_net_scheme" where
  "fed_handle g rt v m s =
     (case v of
        Coord \<Rightarrow> (let (c, out) = coordinator_receive (fc_fpu g) rt (coord s) m in s\<lparr>coord := c, outbox := (outbox s)(v := out)\<rparr>)
      | Agg \<Rightarrow> (let (a, out) = aggregator_receive (fc_fpu g) rt (agg s) m in s\<lparr>agg := a, outbox := (outbox s)(v := out)\<rparr>)
      | Work i \<Rightarrow> s\<lparr>outbox := (outbox s)(v := worker_receive (fc_files g i) rt (fed_worker g i) m)\<rparr>)"

text \<open>The effects of a handler, and what it leaves of the network.\<close>

definition handler_effects :: "fed_config \<Rightarrow> runtime \<Rightarrow> node \<Rightarrow> fl_msg \<Rightarrow> 'z fed_net_scheme \<Rightarrow> node effect list" where
  "handler_effects g rt v m s =
     (case v of
        Coord \<Rightarrow> snd (coordinator_receive (fc_fpu g) rt (coord s) m)
      | Agg \<Rightarrow> snd (aggregator_receive (fc_fpu g) rt (agg s) m)
      | Work i \<Rightarrow> worker_receive (fc_files g i) rt (fed_worker g i) m)"

lemma fed_handle_simps [simp]:
  "boxes (fed_handle g rt v m s) = boxes s"
  "outbox (fed_handle g rt v m s) = (outbox s)(v := handler_effects g rt v m s)"
  "results (fed_handle g rt v m s) = results s"
  "agg (fed_handle g rt v m s) = (if v = Agg then fst (aggregator_receive (fc_fpu g) rt (agg s) m) else agg s)"
  "coord (fed_handle g rt v m s) = (if v = Coord then fst (coordinator_receive (fc_fpu g) rt (coord s) m) else coord s)"
  by (cases v; simp add: fed_handle_def handler_effects_def split: prod.split)+

inductive fed_step :: "fed_config \<Rightarrow> fed_net \<Rightarrow> fed_net \<Rightarrow> bool" for g where
  fed_take: "outbox s v = [] \<Longrightarrow> boxes s v = m # ms \<Longrightarrow> map_runtime rt \<Longrightarrow>
    fed_step g s (fed_handle g rt v m (s\<lparr>boxes := (boxes s)(v := ms)\<rparr>))"
| fed_sent: "outbox s v = SendRetry to m line # es \<Longrightarrow>
    fed_step g s (s\<lparr>boxes := (boxes s)(to := boxes s to @ [m]), outbox := (outbox s)(v := es)\<rparr>)"
| fed_lost: "outbox s v = SendRetry to m line # es \<Longrightarrow> fed_step g s (s\<lparr>outbox := (outbox s)(v := es)\<rparr>)"
| fed_logged: "outbox s v = Log line # es \<Longrightarrow> fed_step g s (s\<lparr>outbox := (outbox s)(v := es)\<rparr>)"
| fed_result: "outbox s v = Result r # es \<Longrightarrow>
    fed_step g s (s\<lparr>results := results s @ [r], outbox := (outbox s)(v := es)\<rparr>)"

inductive_cases fed_stepE: "fed_step g s t"

section \<open>Accounting\<close>

text \<open>The rounds the coordinator will start: the requests with one path per worker.\<close>

definition fed_rounds :: "fed_config \<Rightarrow> string list list" where
  "fed_rounds g = filter (\<lambda>ps. length ps = fc_workers g) (fc_starts g)"

text \<open>What a worker's partition contributes: its counts, or nothing if it cannot be loaded.\<close>

definition load_counts :: "fed_config \<Rightarrow> nat \<Rightarrow> string \<Rightarrow> local_counts multiset" where
  "load_counts g i path = (case Load (fc_files g i) path of Inl _ \<Rightarrow> {#} | Inr recs \<Rightarrow> {#CountLocal recs#})"

text \<open>The contribution to round \<open>r\<close> that a message in the mailbox of node \<open>v\<close> stands for.\<close>

definition contrib :: "fed_config \<Rightarrow> int64 \<Rightarrow> node \<Rightarrow> fl_msg \<Rightarrow> local_counts multiset" where
  "contrib g r v m =
     (case m of
        TrainRequest q \<Rightarrow>
          (case v of Work i \<Rightarrow> if tr_RoundId q = r then load_counts g i (tr_DatasetPartitionPath q) else {#} | _ \<Rightarrow> {#})
      | LocalModelUpdate u \<Rightarrow> if v = Agg \<and> up_RoundId u = r then {#update_counts sorted_runtime u#} else {#}
      | _ \<Rightarrow> {#})"

primrec contrib_box :: "fed_config \<Rightarrow> int64 \<Rightarrow> node \<Rightarrow> fl_msg list \<Rightarrow> local_counts multiset" where
  "contrib_box g r v [] = {#}"
| "contrib_box g r v (m # ms) = contrib g r v m + contrib_box g r v ms"

primrec contrib_out :: "fed_config \<Rightarrow> int64 \<Rightarrow> node effect list \<Rightarrow> local_counts multiset" where
  "contrib_out g r [] = {#}"
| "contrib_out g r (e # es) = (case e of SendRetry to m _ \<Rightarrow> contrib g r to m | _ \<Rightarrow> {#}) + contrib_out g r es"

definition nodes :: "fed_config \<Rightarrow> node set" where
  "nodes g = {Coord, Agg} \<union> Work ` {..<fc_workers g}"

text \<open>Everything in the network that belongs to round \<open>r\<close>.\<close>

definition in_flight :: "fed_config \<Rightarrow> int64 \<Rightarrow> fed_net \<Rightarrow> local_counts multiset" where
  "in_flight g r s =
     (\<Sum>v\<in>nodes g. contrib_box g r v (boxes s v) + contrib_out g r (outbox s v)) + mset (round_updates (agg s) r)"

text \<open>What round \<open>j\<close> (counted from 1) can contribute at most.\<close>

definition full_round :: "fed_config \<Rightarrow> nat \<Rightarrow> local_counts multiset" where
  "full_round g j = (\<Sum>i<fc_workers g. load_counts g i (fed_rounds g ! (j - 1) ! i))"

definition fed_bound :: "fed_config \<Rightarrow> bool" where
  "fed_bound g \<longleftrightarrow> int (fc_workers g) \<le> int64_max \<and> int (length (fc_starts g)) \<le> int64_max"

lemma contrib_box_append [simp]: "contrib_box g r v (xs @ ys) = contrib_box g r v xs + contrib_box g r v ys"
  by (induction xs) simp_all

lemma finite_nodes [simp]: "finite (nodes g)"
  by (simp add: nodes_def)

text \<open>Changing one node's mailbox or outbox.\<close>

lemma sum_node:
  fixes f :: "node \<Rightarrow> 'a multiset"
  assumes "v \<in> nodes g" and "\<And>u. u \<noteq> v \<Longrightarrow> f u = h u"
  shows "(\<Sum>u\<in>nodes g. f u) + h v = (\<Sum>u\<in>nodes g. h u) + f v"
proof -
  have "(\<Sum>u\<in>nodes g. f u) = f v + (\<Sum>u\<in>nodes g - {v}. f u)" using assms(1) by (simp add: sum.remove)
  moreover have "(\<Sum>u\<in>nodes g. h u) = h v + (\<Sum>u\<in>nodes g - {v}. h u)" using assms(1) by (simp add: sum.remove)
  moreover have "(\<Sum>u\<in>nodes g - {v}. f u) = (\<Sum>u\<in>nodes g - {v}. h u)" using assms(2) by (intro sum.cong) auto
  ultimately show ?thesis by (simp add: ac_simps)
qed

lemma sum_nodes_mono:
  fixes f :: "node \<Rightarrow> 'a multiset"
  assumes "\<And>u. f u \<subseteq># h u"
  shows "(\<Sum>u\<in>nodes g. f u) \<subseteq># (\<Sum>u\<in>nodes g. h u)"
proof -
  have "finite A \<Longrightarrow> (\<Sum>u\<in>A. f u) \<subseteq># (\<Sum>u\<in>A. h u)" for A
    by (induction rule: finite_induct) (auto intro: subset_mset.add_mono assms)
  then show ?thesis by simp
qed

section \<open>Facts about the handlers\<close>

lemma of_nat_int64_inj: "int i \<le> int64_max \<Longrightarrow> int j \<le> int64_max \<Longrightarrow> (of_nat i :: int64) = of_nat j \<longleftrightarrow> i = j"
  by (metis of_nat_eq_iff sint_of_nat)

lemma size_load_counts: "size (load_counts g i p) \<le> 1"
  by (simp add: load_counts_def split: sum.split)

lemma size_full_round: "size (full_round g j) \<le> fc_workers g"
proof -
  have "size (\<Sum>i<n. load_counts g i (p i)) \<le> n" for p and n :: nat
    by (induction n) (use size_load_counts le_SucI add_mono in fastforce)+
  then show ?thesis by (simp add: full_round_def)
qed

lemma contrib_out_map:
  "contrib_out g r (map (\<lambda>i. SendRetry (to i) (msg i) (line i)) xs) = sum_list (map (\<lambda>i. contrib g r (to i) (msg i)) xs)"
  by (induction xs) simp_all

lemma contrib_train_requests:
  assumes "Workers c = map Work [0..<fc_workers g]"
  shows "contrib_out g r (train_requests c r' ps) = (if r' = r then (\<Sum>i<fc_workers g. load_counts g i (ps ! i)) else {#})"
proof -
  have "contrib_out g r (train_requests c r' ps) =
      sum_list (map (\<lambda>i. contrib g r (Workers c ! i) (TrainRequest \<lparr>tr_RoundId = r', tr_DatasetPartitionPath = ps ! i\<rparr>)) [0..<length (Workers c)])"
    unfolding train_requests_def contrib_out_map ..
  also have "\<dots> = (\<Sum>i<fc_workers g. contrib g r (Work i) (TrainRequest \<lparr>tr_RoundId = r', tr_DatasetPartitionPath = ps ! i\<rparr>))"
    unfolding interv_sum_list_conv_sum_set_nat using assms by (intro sum.cong) auto
  also have "\<dots> = (if r' = r then (\<Sum>i<fc_workers g. load_counts g i (ps ! i)) else {#})"
    by (auto simp: contrib_def)
  finally show ?thesis .
qed

lemma up_RoundId_update_for: "up_RoundId (update_for r wid recs) = r"
  by (simp add: update_for_def)

lemma contrib_worker:
  assumes "map_runtime rt"
  shows "contrib_out g r (worker_receive (fc_files g i) rt (fed_worker g i) m) = contrib g r (Work i) m"
proof (cases m)
  case (TrainRequest q)
  have "contrib g r Agg (LocalModelUpdate (update_for r' wid recs)) = (if r' = r then {#CountLocal recs#} else {#})" for r' wid recs
    by (simp add: contrib_def update_counts_for up_RoundId_update_for)
  then show ?thesis using assms TrainRequest
    by (cases "Load (fc_files g i) (tr_DatasetPartitionPath q)")
      (simp_all add: worker_receive_train load_counts_def fed_worker_def, simp_all add: contrib_def load_counts_def)
qed (simp_all add: worker_receive_def contrib_def)

lemma model_message_Model: "\<exists>am. model_message fp r us = AggregatedModel am"
  by (simp add: model_message_def Let_def)

lemma contrib_model [simp]: "contrib g r v (model_message fp r' us) = {#}"
  by (simp add: contrib_def model_message_def Let_def)

text \<open>The aggregator drops nothing but a complete round.\<close>

lemma contrib_aggregator:
  assumes "map_runtime rt" and "aggregator_receive fp rt a m = (a', out)"
  shows "contrib_out g r out + mset (round_updates a' r) \<subseteq># contrib g r Agg m + mset (round_updates a r)"
proof -
  have maybe: "contrib_out g r out + mset (round_updates a' r) \<subseteq># mset (round_updates b r)"
    if "map_runtime rt'" "maybeAggregate fp rt' b r' = (a', out)" for b rt' r'
    using that by (auto simp: maybeAggregate_eq round_updates_def split: option.splits if_splits)
  show ?thesis
  proof (cases m)
    case (LocalModelUpdate u)
    let ?b = "a\<lparr>updates := fmupd (up_RoundId u) (round_updates a (up_RoundId u) @ [update_counts (sub_run rt 1) u]) (updates a)\<rparr>"
    have "maybeAggregate fp (sub_run rt 0) ?b (up_RoundId u) = (a', out)"
      using assms(2) LocalModelUpdate by (simp add: aggregator_receive_def)
    then have "contrib_out g r out + mset (round_updates a' r) \<subseteq># mset (round_updates ?b r)"
      by (rule maybe [OF map_runtime_sub [OF assms(1)]])
    moreover have "mset (round_updates (a\<lparr>updates := fmupd (up_RoundId u) (round_updates a (up_RoundId u) @ [update_counts (sub_run rt 1) u]) (updates a)\<rparr>) r) =
        contrib g r Agg m + mset (round_updates a r)"
      using LocalModelUpdate by (simp add: contrib_def update_counts_runtime [OF map_runtime_sub [OF assms(1)]])
    ultimately show ?thesis by simp
  next
    case (AggregateTrigger t)
    let ?b = "a\<lparr>expected := fmupd (at_RoundId t) (at_ExpectedWorkers t) (expected a)\<rparr>"
    have "maybeAggregate fp (sub_run rt 0) ?b (at_RoundId t) = (a', out)"
      using assms(2) AggregateTrigger by (simp add: aggregator_receive_def)
    then have "contrib_out g r out + mset (round_updates a' r) \<subseteq># mset (round_updates ?b r)"
      by (rule maybe [OF map_runtime_sub [OF assms(1)]])
    then show ?thesis using AggregateTrigger by (simp add: contrib_def)
  qed (use assms in \<open>auto simp: aggregator_receive_def contrib_def\<close>)
qed

lemma Predict_cong:
  assumes "WordProbs m = WordProbs m'" and "ClassPriors m = ClassPriors m'"
  shows "Predict fp ord m txt = Predict fp ord m' txt"
proof -
  have "predict_body fp m txt = predict_body fp m' txt"
  proof (intro ext)
    fix cl pr st
    have "class_score fp m txt cl pr = class_score fp m' txt cl pr"
      by (simp add: class_score_def add_token_score_def [abs_def] assms)
    then show "predict_body fp m txt cl pr st = predict_body fp m' txt cl pr st"
      by (simp add: predict_body_def split: prod.split)
  qed
  then show ?thesis by (simp add: Predict_def assms)
qed

lemma Evaluate_cong:
  assumes "\<And>i r. (i, r) \<in> set (enumerate 0 test) \<Longrightarrow> Predict fp (rt [i]) m (Text r) = Predict fp (rt' [i]) m' (Text r)"
  shows "Evaluate fp rt m test = Evaluate fp rt' m' test"
  unfolding Evaluate_def confusion_of_def
  by (intro arg_cong [where f = "metrics_of fp"] fold_cong) (auto simp: assms)

lemma evaluate_model:
  assumes "map_runtime rt" and "model_message fp r us = AggregatedModel am"
  shows "\<exists>line. evaluate fp rt c am = Log line #
    (if has_results c then [Result \<lparr>rr_RoundID = r, rr_Metrics = Evaluate fp (sub_run rt 2) (Aggregate fp sorted_runtime us) (TestSet c)\<rparr>] else [])"
proof -
  have am: "am_RoundId am = r" "fmmap Probs (am_GlobalWordProbs am) = WordProbs (Aggregate fp sorted_runtime us)"
    "am_ClassPriors am = ClassPriors (Aggregate fp sorted_runtime us)"
    using assms(2) by (auto simp: model_message_def Let_def)
  show ?thesis
    by (simp add: evaluate_def Let_def fromPBWordProbs_eq order_intros assms(1) am)
      (intro impI Evaluate_cong Predict_cong; simp)
qed

section \<open>Invariant\<close>

definition msg_ok :: "fed_config \<Rightarrow> nat \<Rightarrow> fl_msg \<Rightarrow> bool" where
  "msg_ok g k m \<longleftrightarrow>
     (case m of
        AggregateTrigger t \<Rightarrow> at_ExpectedWorkers t = of_nat (fc_workers g) \<and> (\<exists>j\<in>{1..k}. at_RoundId t = of_nat j)
      | AggregatedModel _ \<Rightarrow> (\<exists>j\<in>{1..k}. \<exists>us. m = model_message (fc_fpu g) (of_nat j) us \<and>
          mset us = full_round g j \<and> length us = fc_workers g)
      | _ \<Rightarrow> True)"

definition result_ok :: "fed_config \<Rightarrow> nat \<Rightarrow> round_result \<Rightarrow> bool" where
  "result_ok g k x \<longleftrightarrow> (\<exists>j\<in>{1..k}. \<exists>us rt. mset us = full_round g j \<and> length us = fc_workers g \<and> map_runtime rt \<and>
     rr_RoundID x = of_nat j \<and>
     rr_Metrics x = Evaluate (fc_fpu g) rt (Aggregate (fc_fpu g) sorted_runtime us) (fc_test g))"

definition effect_ok :: "fed_config \<Rightarrow> nat \<Rightarrow> node effect \<Rightarrow> bool" where
  "effect_ok g k e \<longleftrightarrow>
     (case e of
        SendRetry to m _ \<Rightarrow> to \<in> nodes g \<and> msg_ok g k m \<and> (\<forall>ps. m \<noteq> StartTraining ps)
      | Log _ \<Rightarrow> True
      | Result x \<Rightarrow> result_ok g k x)"

fun starts_in :: "nat \<Rightarrow> fl_msg list \<Rightarrow> string list list" where
  "starts_in n [] = []"
| "starts_in n (StartTraining ps # ms) = (if length ps = n then ps # starts_in n ms else starts_in n ms)"
| "starts_in n (_ # ms) = starts_in n ms"

definition actors_ok :: "fed_config \<Rightarrow> nat \<Rightarrow> 'z fed_net_scheme \<Rightarrow> bool" where
  "actors_ok g k s \<longleftrightarrow>
     coord s = (fed_coordinator g)\<lparr>roundID := of_nat k\<rparr> \<and> k \<le> length (fed_rounds g) \<and>
     a_Coordinator (agg s) = Coord \<and>
     drop k (fed_rounds g) = starts_in (fc_workers g) (boxes s Coord) \<and>
     (\<forall>r e. fmlookup (expected (agg s)) r = Some e \<longrightarrow> e = of_nat (fc_workers g) \<and> (\<exists>j\<in>{1..k}. r = of_nat j))"

definition messages_ok :: "fed_config \<Rightarrow> nat \<Rightarrow> fed_net \<Rightarrow> bool" where
  "messages_ok g k s \<longleftrightarrow>
     (\<forall>v. list_all (msg_ok g k) (boxes s v)) \<and> (\<forall>v. list_all (effect_ok g k) (outbox s v)) \<and>
     (\<forall>v. v \<notin> nodes g \<longrightarrow> boxes s v = [] \<and> outbox s v = []) \<and> list_all (result_ok g k) (results s)"

definition flight_ok :: "fed_config \<Rightarrow> nat \<Rightarrow> fed_net \<Rightarrow> bool" where
  "flight_ok g k s \<longleftrightarrow>
     (\<forall>j\<in>{1..length (fed_rounds g)}. in_flight g (of_nat j) s \<subseteq># (if j \<le> k then full_round g j else {#}))"

definition fed_inv :: "fed_config \<Rightarrow> fed_net \<Rightarrow> bool" where
  "fed_inv g s \<longleftrightarrow> (\<exists>k. actors_ok g k s \<and> messages_ok g k s \<and> flight_ok g k s)"

lemma msg_ok_mono: "msg_ok g k m \<Longrightarrow> k \<le> k' \<Longrightarrow> msg_ok g k' m"
  by (cases m) (fastforce simp: msg_ok_def)+

lemma result_ok_mono:
  assumes "result_ok g k x" and "k \<le> k'"
  shows "result_ok g k' x"
proof -
  have "{1..k} \<subseteq> {1..k'}" using assms(2) by auto
  then show ?thesis using assms(1) unfolding result_ok_def by blast
qed

lemma effect_ok_mono: "effect_ok g k e \<Longrightarrow> k \<le> k' \<Longrightarrow> effect_ok g k' e"
  by (cases e) (auto simp: effect_ok_def intro: msg_ok_mono result_ok_mono)

lemma starts_in_concat: "starts_in n (xs @ ys) = starts_in n xs @ starts_in n ys"
  by (induction n xs rule: starts_in.induct) simp_all

lemma starts_in_append: "\<forall>ps. m \<noteq> StartTraining ps \<Longrightarrow> starts_in n (ms @ [m]) = starts_in n ms"
  by (cases m) (simp_all add: starts_in_concat)

text \<open>How a step changes what is in flight.\<close>

lemma flight_take_sum:
  assumes "v \<in> nodes g" and "outbox s v = []" and "boxes s v = m # ms"
    and "boxes t = (boxes s)(v := ms)" and "outbox t = (outbox s)(v := out)"
  shows "in_flight g r t + contrib g r v m + mset (round_updates (agg s) r) =
    in_flight g r s + contrib_out g r out + mset (round_updates (agg t) r)"
proof -
  let ?W = "\<lambda>s u. contrib_box g r u (boxes s u) + contrib_out g r (outbox s u)"
  have "(\<Sum>u\<in>nodes g. ?W t u) + ?W s v = (\<Sum>u\<in>nodes g. ?W s u) + ?W t v"
    using assms(1) by (rule sum_node) (simp add: assms)
  then have W: "(\<Sum>u\<in>nodes g. ?W t u) + contrib g r v m = (\<Sum>u\<in>nodes g. ?W s u) + contrib_out g r out"
    using assms(2-5) by (simp add: ac_simps)
  have "in_flight g r t + contrib g r v m = (\<Sum>u\<in>nodes g. ?W t u) + contrib g r v m + mset (round_updates (agg t) r)"
    unfolding in_flight_def by (simp only: ac_simps)
  then show ?thesis unfolding W in_flight_def by (simp only: ac_simps)
qed

lemma flight_take:
  assumes "v \<in> nodes g" and "outbox s v = []" and "boxes s v = m # ms"
    and "boxes t = (boxes s)(v := ms)" and "outbox t = (outbox s)(v := out)"
    and "contrib_out g r out + mset (round_updates (agg t) r) \<subseteq># contrib g r v m + mset (round_updates (agg s) r) + extra"
  shows "in_flight g r t \<subseteq># in_flight g r s + extra"
proof -
  have "in_flight g r t + (contrib g r v m + mset (round_updates (agg s) r)) =
      in_flight g r s + (contrib_out g r out + mset (round_updates (agg t) r))"
    using flight_take_sum [OF assms(1-5), of r] by (simp only: add.assoc)
  also have "\<dots> \<subseteq># in_flight g r s + (contrib g r v m + mset (round_updates (agg s) r) + extra)"
    using assms(6) by (rule subset_mset.add_left_mono)
  also have "\<dots> = in_flight g r s + extra + (contrib g r v m + mset (round_updates (agg s) r))"
    by (simp only: ac_simps)
  finally show ?thesis by (simp only: subset_mset.add_le_cancel_right)
qed

lemma flight_drop:
  assumes "outbox s v = e # es" and "boxes t = boxes s" and "outbox t = (outbox s)(v := es)" and "agg t = agg s"
  shows "in_flight g r t \<subseteq># in_flight g r s"
  unfolding in_flight_def assms(4)
  by (intro subset_mset.add_right_mono sum_nodes_mono) (simp add: assms subset_mset.add_left_mono)

lemma flight_send:
  assumes "v \<in> nodes g" and "outbox s v = SendRetry to m line # es"
    and "boxes t = (boxes s)(to := boxes s to @ [m])" and "outbox t = (outbox s)(v := es)" and "agg t = agg s"
  shows "in_flight g r t \<subseteq># in_flight g r s"
proof -
  let ?B = "\<lambda>s u. contrib_box g r u (boxes s u)" and ?O = "\<lambda>s u. contrib_out g r (outbox s u)"
  have "(\<Sum>u\<in>nodes g. ?O t u) + ?O s v = (\<Sum>u\<in>nodes g. ?O s u) + ?O t v"
    using assms(1) by (rule sum_node) (simp add: assms)
  then have O: "(\<Sum>u\<in>nodes g. ?O t u) + contrib g r to m = (\<Sum>u\<in>nodes g. ?O s u)"
    using assms(2,4) by (simp add: ac_simps)
  have B: "(\<Sum>u\<in>nodes g. ?B t u) \<subseteq># (\<Sum>u\<in>nodes g. ?B s u) + contrib g r to m"
  proof (cases "to \<in> nodes g")
    case True
    then have "(\<Sum>u\<in>nodes g. ?B t u) + ?B s to = (\<Sum>u\<in>nodes g. ?B s u) + ?B t to"
      by (rule sum_node) (simp add: assms)
    then show ?thesis using assms(3) by (simp add: ac_simps)
  next
    case False
    then have "(\<Sum>u\<in>nodes g. ?B t u) = (\<Sum>u\<in>nodes g. ?B s u)" by (intro sum.cong) (auto simp: assms)
    then show ?thesis by simp
  qed
  have "in_flight g r t = (\<Sum>u\<in>nodes g. ?B t u) + (\<Sum>u\<in>nodes g. ?O t u) + mset (round_updates (agg s) r)"
    by (simp add: in_flight_def sum.distrib assms(5))
  also have "\<dots> \<subseteq># (\<Sum>u\<in>nodes g. ?B s u) + contrib g r to m + (\<Sum>u\<in>nodes g. ?O t u) + mset (round_updates (agg s) r)"
    using B by (intro subset_mset.add_right_mono)
  also have "\<dots> = in_flight g r s"
    unfolding in_flight_def sum.distrib O [symmetric] by (simp add: ac_simps)
  finally show ?thesis .
qed

lemma flight_ok_le:
  assumes "flight_ok g k s" and "\<And>r. in_flight g r t \<subseteq># in_flight g r s"
  shows "flight_ok g k t"
  using assms unfolding flight_ok_def by (meson subset_mset.order_trans)

text \<open>The steps that perform an effect.\<close>

lemma fed_inv_sent:
  assumes "fed_inv g s" and "outbox s v = SendRetry to m line # es"
  shows "fed_inv g (s\<lparr>boxes := (boxes s)(to := boxes s to @ [m]), outbox := (outbox s)(v := es)\<rparr>)"
    and "fed_inv g (s\<lparr>outbox := (outbox s)(v := es)\<rparr>)"
proof -
  from assms(1) obtain k where k: "actors_ok g k s" "messages_ok g k s" "flight_ok g k s" by (auto simp: fed_inv_def)
  have v: "v \<in> nodes g" using k(2) assms(2) unfolding messages_ok_def by fastforce
  have all: "list_all (effect_ok g k) (outbox s v)" using k(2) by (simp add: messages_ok_def)
  then have e: "to \<in> nodes g" "msg_ok g k m" "\<forall>ps. m \<noteq> StartTraining ps" and es: "list_all (effect_ok g k) es"
    by (simp_all add: assms(2) effect_ok_def)
  let ?t = "s\<lparr>boxes := (boxes s)(to := boxes s to @ [m]), outbox := (outbox s)(v := es)\<rparr>"
  let ?u = "s\<lparr>outbox := (outbox s)(v := es)\<rparr>"
  have "actors_ok g k ?t" using k(1) e(3) by (simp add: actors_ok_def starts_in_append)
  moreover have "messages_ok g k ?t" using k(2) e es v by (auto simp: messages_ok_def)
  moreover have "flight_ok g k ?t"
    by (rule flight_ok_le [OF k(3)], rule flight_send [OF v assms(2)]) simp_all
  ultimately show "fed_inv g ?t" by (auto simp: fed_inv_def)
  have "actors_ok g k ?u" using k(1) by (simp add: actors_ok_def)
  moreover have "messages_ok g k ?u" using k(2) es v by (auto simp: messages_ok_def)
  moreover have "flight_ok g k ?u"
    by (rule flight_ok_le [OF k(3)], rule flight_drop [OF assms(2)]) simp_all
  ultimately show "fed_inv g ?u" by (auto simp: fed_inv_def)
qed

lemma fed_inv_effect:
  assumes "fed_inv g s" and "outbox s v = e # es" and "\<And>k. effect_ok g k e \<Longrightarrow> list_all (result_ok g k) rs"
  shows "fed_inv g (s\<lparr>results := results s @ rs, outbox := (outbox s)(v := es)\<rparr>)"
proof -
  from assms(1) obtain k where k: "actors_ok g k s" "messages_ok g k s" "flight_ok g k s" by (auto simp: fed_inv_def)
  have v: "v \<in> nodes g" using k(2) assms(2) unfolding messages_ok_def by fastforce
  have all: "list_all (effect_ok g k) (outbox s v)" using k(2) by (simp add: messages_ok_def)
  then have e: "list_all (result_ok g k) rs" and es: "list_all (effect_ok g k) es"
    using assms(3) by (simp_all add: assms(2))
  let ?u = "s\<lparr>results := results s @ rs, outbox := (outbox s)(v := es)\<rparr>"
  have "actors_ok g k ?u" using k(1) by (simp add: actors_ok_def)
  moreover have "messages_ok g k ?u" using k(2) e es v by (auto simp: messages_ok_def)
  moreover have "flight_ok g k ?u"
    by (rule flight_ok_le [OF k(3)], rule flight_drop [OF assms(2)]) simp_all
  ultimately show "fed_inv g ?u" by (auto simp: fed_inv_def)
qed

text \<open>The steps that take a message.\<close>

lemma take_parts:
  assumes "messages_ok g k s" and "boxes s v = m # ms"
  shows "v \<in> nodes g" and "msg_ok g k m" and "list_all (msg_ok g k) ms"
proof -
  have "list_all (msg_ok g k) (boxes s v)" "v \<notin> nodes g \<longrightarrow> boxes s v = []"
    using assms(1) by (auto simp: messages_ok_def)
  then show "v \<in> nodes g" "msg_ok g k m" "list_all (msg_ok g k) ms" using assms(2) by auto
qed

lemma messages_ok_mono:
  assumes "messages_ok g k s" and "k \<le> k'"
  shows "messages_ok g k' s"
proof -
  have "list_all (msg_ok g k) xs \<Longrightarrow> list_all (msg_ok g k') xs" for xs
    using assms(2) by (auto elim!: list.pred_mono_strong intro: msg_ok_mono)
  moreover have "list_all (effect_ok g k) xs \<Longrightarrow> list_all (effect_ok g k') xs" for xs
    using assms(2) by (auto elim!: list.pred_mono_strong intro: effect_ok_mono)
  moreover have "list_all (result_ok g k) xs \<Longrightarrow> list_all (result_ok g k') xs" for xs
    using assms(2) by (auto elim!: list.pred_mono_strong intro: result_ok_mono)
  ultimately show ?thesis using assms(1) by (simp add: messages_ok_def)
qed

lemma fed_take_worker:
  assumes "fed_inv g s" and "outbox s (Work i) = []" and "boxes s (Work i) = m # ms" and "map_runtime rt"
  shows "fed_inv g (fed_handle g rt (Work i) m (s\<lparr>boxes := (boxes s)(Work i := ms)\<rparr>))"
proof -
  from assms(1) obtain k where k: "actors_ok g k s" "messages_ok g k s" "flight_ok g k s" by (auto simp: fed_inv_def)
  note parts = take_parts [OF k(2) assms(3)]
  let ?out = "worker_receive (fc_files g i) rt (fed_worker g i) m"
  let ?t = "fed_handle g rt (Work i) m (s\<lparr>boxes := (boxes s)(Work i := ms)\<rparr>)"
  have t: "?t = s\<lparr>boxes := (boxes s)(Work i := ms), outbox := (outbox s)(Work i := ?out)\<rparr>"
    by (simp add: fed_handle_def)
  have "list_all (effect_ok g k) ?out"
    using assms(4) by (cases m)
      (auto simp: worker_receive_def fed_worker_def effect_ok_def msg_ok_def nodes_def Let_def split: sum.split)
  then have "messages_ok g k ?t" using k(2) parts unfolding t by (auto simp: messages_ok_def)
  moreover have "actors_ok g k ?t" using k(1) unfolding t by (simp add: actors_ok_def)
  moreover have "flight_ok g k ?t"
  proof (rule flight_ok_le [OF k(3)])
    fix r
    have "in_flight g r ?t \<subseteq># in_flight g r s + {#}"
      by (rule flight_take [OF parts(1) assms(2,3), of _ ?out])
        (simp_all add: t contrib_worker assms(4))
    then show "in_flight g r ?t \<subseteq># in_flight g r s" by simp
  qed
  ultimately show ?thesis by (auto simp: fed_inv_def)
qed

text \<open>The aggregator's state when it has stored a message and not yet looked whether the round is complete.\<close>

definition agg_store :: "'ref aggregator_actor \<Rightarrow> fl_msg \<Rightarrow> 'ref aggregator_actor" where
  "agg_store a m =
     (case m of
        AggregateTrigger t \<Rightarrow> a\<lparr>expected := fmupd (at_RoundId t) (at_ExpectedWorkers t) (expected a)\<rparr>
      | LocalModelUpdate u \<Rightarrow>
          a\<lparr>updates := fmupd (up_RoundId u) (round_updates a (up_RoundId u) @ [update_counts sorted_runtime u]) (updates a)\<rparr>
      | _ \<Rightarrow> a)"

lemma agg_store_facts:
  "a_Coordinator (agg_store a m) = a_Coordinator a"
  "mset (round_updates (agg_store a m) r) = contrib g r Agg m + mset (round_updates a r)"
  by (cases m; simp add: agg_store_def contrib_def)+

lemma aggregator_receive_cases:
  assumes "map_runtime rt" and "aggregator_receive fp rt a m = (a', out)"
  obtains (wait) "a' = agg_store a m" "out = []"
  | (complete) r n where "fmlookup (expected (agg_store a m)) r = Some n"
      "\<not> int64_gt n (of_nat (length (round_updates (agg_store a m) r)))"
      "a' = (agg_store a m)\<lparr>updates := fmdrop r (updates (agg_store a m)), expected := fmdrop r (expected (agg_store a m))\<rparr>"
      "out = [SendRetry (a_Coordinator a) (model_message fp r (round_updates (agg_store a m) r)) (ModelSend (AggregatorID (agg_store a m)) r)]"
proof -
  have maybe: thesis if "maybeAggregate fp (sub_run rt 0) (agg_store a m) r = (a', out)" for r
    using that wait complete [of r] by (auto simp: maybeAggregate_eq map_runtime_sub assms(1) agg_store_facts split: option.splits if_splits)
  show thesis
  proof (cases m)
    case (AggregateTrigger t)
    then show thesis using assms(2) maybe [of "at_RoundId t"] by (simp add: aggregator_receive_def agg_store_def)
  next
    case (LocalModelUpdate u)
    then show thesis using assms maybe [of "up_RoundId u"]
      by (simp add: aggregator_receive_def agg_store_def update_counts_runtime [OF map_runtime_sub])
  qed (use assms(2) wait in \<open>simp_all add: aggregator_receive_def agg_store_def\<close>)
qed

lemma in_flight_agg:
  assumes "boxes s Agg = m # ms"
  shows "mset (round_updates (agg_store (agg s) m) r) \<subseteq># in_flight g r s"
proof -
  have "Agg \<in> nodes g" by (simp add: nodes_def)
  then have "in_flight g r s = contrib g r Agg m + mset (round_updates (agg s) r) +
      (contrib_box g r Agg ms + contrib_out g r (outbox s Agg) +
       (\<Sum>v\<in>nodes g - {Agg}. contrib_box g r v (boxes s v) + contrib_out g r (outbox s v)))"
    using assms by (simp add: in_flight_def sum.remove ac_simps)
  then show ?thesis unfolding agg_store_facts(2) [of _ _ _ g] by simp
qed

lemma fed_rounds_le: "length (fed_rounds g) \<le> length (fc_starts g)"
  by (simp add: fed_rounds_def)

text \<open>A gathered round that is not short of updates has all of them.\<close>

lemma full_round_complete:
  assumes "mset us \<subseteq># full_round g j" and "\<not> int64_gt (of_nat (fc_workers g)) (of_nat (length us))" and "fed_bound g"
  shows "length us = fc_workers g" and "mset us = full_round g j"
proof -
  have "length us \<le> fc_workers g" using size_mset_mono [OF assms(1)] size_full_round [of g j] by simp
  moreover from this have "fc_workers g \<le> length us"
    using assms(2,3) by (simp add: int64_gt_def fed_bound_def sint_of_nat)
  ultimately show eq: "length us = fc_workers g" by simp
  show "mset us = full_round g j"
  proof (rule ccontr)
    assume "mset us \<noteq> full_round g j"
    then have "mset us \<subset># full_round g j" using assms(1) by (simp add: subset_mset.less_le)
    then show False using mset_subset_size size_full_round [of g j] eq by fastforce
  qed
qed

definition expected_ok :: "fed_config \<Rightarrow> nat \<Rightarrow> node aggregator_actor \<Rightarrow> bool" where
  "expected_ok g k a \<longleftrightarrow> (\<forall>r e. fmlookup (expected a) r = Some e \<longrightarrow> e = of_nat (fc_workers g) \<and> (\<exists>j\<in>{1..k}. r = of_nat j))"

text \<open>What the aggregator does to its table of expected updates and what it sends.\<close>

lemma aggregator_facts:
  assumes "fed_bound g" and "map_runtime rt" and recv: "aggregator_receive (fc_fpu g) rt a m = (a', out)"
    and a: "a_Coordinator a = Coord" and exp: "expected_ok g k (agg_store a m)"
    and full: "\<And>j. j \<in> {1..k} \<Longrightarrow> mset (round_updates (agg_store a m) (of_nat j)) \<subseteq># full_round g j"
  shows "a_Coordinator a' = Coord \<and> list_all (effect_ok g k) out \<and> expected_ok g k a'"
  using assms(2) recv
proof (cases rule: aggregator_receive_cases)
  case wait
  then show ?thesis using exp a by (auto simp: agg_store_facts)
next
  case (complete r n)
  let ?us = "round_updates (agg_store a m) r"
  obtain j where j: "j \<in> {1..k}" "r = of_nat j" and n: "n = of_nat (fc_workers g)"
    using exp complete(1) unfolding expected_ok_def by blast
  have us: "length ?us = fc_workers g" "mset ?us = full_round g j"
    by (rule full_round_complete [OF _ _ assms(1)]; use full [OF j(1)] j(2) complete(2) n in simp)+
  obtain am where am: "model_message (fc_fpu g) r ?us = AggregatedModel am"
    using model_message_Model [of "fc_fpu g" r ?us] by blast
  have "\<exists>j\<in>{1..k}. \<exists>us. model_message (fc_fpu g) r ?us = model_message (fc_fpu g) (of_nat j) us \<and>
      mset us = full_round g j \<and> length us = fc_workers g"
    using j us by blast
  then have "msg_ok g k (model_message (fc_fpu g) r ?us)" using am by (simp add: msg_ok_def)
  then have "list_all (effect_ok g k) out"
    using complete(4) a am by (auto simp: effect_ok_def nodes_def)
  moreover have "expected_ok g k a'" using complete(3) exp by (auto simp: expected_ok_def split: if_splits)
  ultimately show ?thesis using complete(3) a by (simp add: agg_store_facts)
qed

lemma fed_take_agg:
  assumes "fed_inv g s" and "fed_bound g" and "outbox s Agg = []" and "boxes s Agg = m # ms" and "map_runtime rt"
  shows "fed_inv g (fed_handle g rt Agg m (s\<lparr>boxes := (boxes s)(Agg := ms)\<rparr>))"
proof -
  from assms(1) obtain k where k: "actors_ok g k s" "messages_ok g k s" "flight_ok g k s" by (auto simp: fed_inv_def)
  note parts = take_parts [OF k(2) assms(4)]
  obtain a' out where recv: "aggregator_receive (fc_fpu g) rt (agg s) m = (a', out)" by fastforce
  let ?t = "fed_handle g rt Agg m (s\<lparr>boxes := (boxes s)(Agg := ms)\<rparr>)"
  let ?b = "agg_store (agg s) m"
  have t: "?t = s\<lparr>boxes := (boxes s)(Agg := ms), agg := a', outbox := (outbox s)(Agg := out)\<rparr>"
    by (simp add: fed_handle_def recv)
  have exp: "expected_ok g k ?b"
    using k(1) parts(2) by (cases m) (auto simp: expected_ok_def actors_ok_def agg_store_def msg_ok_def split: if_splits)
  have full: "mset (round_updates ?b (of_nat j)) \<subseteq># full_round g j" if "j \<in> {1..k}" for j
  proof -
    have "j \<in> {1..length (fed_rounds g)}" and "j \<le> k" using that k(1) by (auto simp: actors_ok_def)
    moreover have "in_flight g (of_nat j) s \<subseteq># (if j \<le> k then full_round g j else {#})"
      using k(3) calculation(1) unfolding flight_ok_def by (rule bspec)
    ultimately show ?thesis using subset_mset.order_trans [OF in_flight_agg [OF assms(4)]] by auto
  qed
  have facts: "a_Coordinator a' = Coord \<and> list_all (effect_ok g k) out \<and> expected_ok g k a'"
    using k(1) by (intro aggregator_facts [OF assms(2,5) recv _ exp full]) (simp_all add: actors_ok_def)
  then have "messages_ok g k ?t" using k(2) parts unfolding t by (auto simp: messages_ok_def)
  moreover have "actors_ok g k ?t" using k(1) facts unfolding t by (simp add: actors_ok_def expected_ok_def)
  moreover have "flight_ok g k ?t"
  proof (rule flight_ok_le [OF k(3)])
    fix r
    have "in_flight g r ?t \<subseteq># in_flight g r s + {#}"
      using contrib_aggregator [OF assms(5) recv, of g r]
      by (intro flight_take [OF parts(1) assms(3,4), of _ out]) (simp_all add: t)
    then show "in_flight g r ?t \<subseteq># in_flight g r s" by simp
  qed
  ultimately show ?thesis by (auto simp: fed_inv_def)
qed

lemma starts_in_other: "\<forall>ps. m \<noteq> StartTraining ps \<Longrightarrow> starts_in n (m # ms) = starts_in n ms"
  by (cases m) simp_all

text \<open>A training request with one path per worker starts the next round.\<close>

definition round_effects :: "node coordinator_actor \<Rightarrow> nat \<Rightarrow> nat \<Rightarrow> string list \<Rightarrow> node effect list" where
  "round_effects c n j ps =
     SendRetry Agg (AggregateTrigger \<lparr>at_RoundId = of_nat j, at_ExpectedWorkers = of_nat n\<rparr>) (TriggerSend (CoordinatorID c) (of_nat j))
     # train_requests c (of_nat j) ps"

lemma actors_start:
  assumes k: "actors_ok g k s" and box: "boxes s Coord = StartTraining ps # ms" and len: "length ps = fc_workers g"
  shows "k < length (fed_rounds g)" and "fed_rounds g ! k = ps" and "Workers (coord s) = map Work [0..<fc_workers g]"
    and "coordinator_receive fp rt (coord s) (StartTraining ps) =
      ((coord s)\<lparr>roundID := of_nat (Suc k)\<rparr>, round_effects (coord s) (fc_workers g) (Suc k) ps)"
    and "boxes t = (boxes s)(Coord := ms) \<Longrightarrow> coord t = (coord s)\<lparr>roundID := of_nat (Suc k)\<rparr> \<Longrightarrow> agg t = agg s \<Longrightarrow>
      actors_ok g (Suc k) t"
proof -
  have drop: "drop k (fed_rounds g) = ps # starts_in (fc_workers g) ms" using k box len by (simp add: actors_ok_def)
  then show lt: "k < length (fed_rounds g)" by (metis drop_all leI list.distinct(1))
  have rest: "drop (Suc k) (fed_rounds g) = starts_in (fc_workers g) ms"
    using drop Cons_nth_drop_Suc [OF lt] by simp
  show "fed_rounds g ! k = ps" using drop Cons_nth_drop_Suc [OF lt] by simp
  have W: "Workers (coord s) = map Work [0..<fc_workers g]" "c_Aggregator (coord s) = Agg" "roundID (coord s) = of_nat k"
    using k by (simp_all add: actors_ok_def fed_coordinator_def)
  then show "Workers (coord s) = map Work [0..<fc_workers g]" by simp
  show "coordinator_receive fp rt (coord s) (StartTraining ps) =
      ((coord s)\<lparr>roundID := of_nat (Suc k)\<rparr>, round_effects (coord s) (fc_workers g) (Suc k) ps)"
    using len by (simp add: coordinator_receive_def startRound_def round_effects_def W Let_def add.commute)
  show "actors_ok g (Suc k) t"
    if "boxes t = (boxes s)(Coord := ms)" "coord t = (coord s)\<lparr>roundID := of_nat (Suc k)\<rparr>" "agg t = agg s"
    using k lt rest that by (fastforce simp: actors_ok_def)
qed

lemma contrib_round_effects:
  assumes "Workers c = map Work [0..<fc_workers g]" and "fed_rounds g ! k = ps"
  shows "contrib_out g r (round_effects c n (Suc k) ps) = (if of_nat (Suc k) = r then full_round g (Suc k) else {#})"
  using contrib_train_requests [OF assms(1), of r "of_nat (Suc k)" ps] assms(2)
  by (simp add: round_effects_def contrib_def full_round_def)

lemma fed_take_start:
  assumes k: "actors_ok g k s" "messages_ok g k s" "flight_ok g k s" and bound: "fed_bound g"
    and "outbox s Coord = []" and box: "boxes s Coord = StartTraining ps # ms" and len: "length ps = fc_workers g"
    and t: "t = s\<lparr>boxes := (boxes s)(Coord := ms), coord := (coord s)\<lparr>roundID := of_nat (Suc k)\<rparr>,
      outbox := (outbox s)(Coord := round_effects (coord s) (fc_workers g) (Suc k) ps)\<rparr>"
  shows "fed_inv g t"
proof -
  note parts = take_parts [OF k(2) box] and start = actors_start [OF k(1) box len]
  note contrib_out = contrib_round_effects [OF start(3,2), of _ "fc_workers g"]
  have k': "k < length (fed_rounds g)" by (rule start(1))
  have "list_all (effect_ok g (Suc k)) (round_effects (coord s) (fc_workers g) (Suc k) ps)"
    unfolding round_effects_def train_requests_def
    by (auto simp: effect_ok_def msg_ok_def nodes_def list_all_iff start(3) intro!: bexI [of _ "Suc k"])
  then have "messages_ok g (Suc k) t"
    using messages_ok_mono [OF k(2), of "Suc k"] take_parts [OF messages_ok_mono [OF k(2), of "Suc k"] box]
    unfolding t by (simp add: messages_ok_def)
  moreover have "actors_ok g (Suc k) t" by (rule start(5)) (simp_all add: t)
  moreover have "in_flight g (of_nat j) t \<subseteq># (if j \<le> Suc k then full_round g j else {#})"
    if j: "j \<in> {1..length (fed_rounds g)}" for j
  proof -
    have "in_flight g (of_nat j) t \<subseteq># in_flight g (of_nat j) s + contrib_out g (of_nat j) (round_effects (coord s) (fc_workers g) (Suc k) ps)"
      by (rule flight_take [OF parts(1) assms(5) box]) (simp_all add: t contrib_def, rule subset_mset.order_refl)
    moreover have "in_flight g (of_nat j) s \<subseteq># (if j \<le> k then full_round g j else {#})"
      using k(3) j unfolding flight_ok_def by (rule bspec)
    moreover have "(of_nat (Suc k) :: int64) = of_nat j \<longleftrightarrow> j = Suc k"
      using of_nat_int64_inj [of "Suc k" j] j k' bound fed_rounds_le [of g] by (auto simp: fed_bound_def)
    ultimately show ?thesis by (auto simp: contrib_out split: if_splits)
  qed
  then have "flight_ok g (Suc k) t" unfolding flight_ok_def by (rule ballI)
  ultimately show ?thesis by (auto simp: fed_inv_def)
qed

text \<open>A message after which the coordinator stays as it is and starts nothing.\<close>

lemma fed_stay_coord:
  assumes k: "actors_ok g k s" "messages_ok g k s" "flight_ok g k s"
    and box: "outbox s Coord = []" "boxes s Coord = m # ms"
    and t: "t = s\<lparr>boxes := (boxes s)(Coord := ms), outbox := (outbox s)(Coord := out)\<rparr>"
    and out: "list_all (effect_ok g k) out" "\<And>r. contrib_out g r out = {#}"
    and starts: "starts_in (fc_workers g) (m # ms) = starts_in (fc_workers g) ms"
  shows "fed_inv g t"
proof -
  note parts = take_parts [OF k(2) box(2)]
  have "messages_ok g k t" using k(2) parts out(1) unfolding t by (auto simp: messages_ok_def)
  moreover have "actors_ok g k t" using k(1) starts box(2) unfolding t by (simp add: actors_ok_def)
  moreover have "flight_ok g k t"
  proof (rule flight_ok_le [OF k(3)])
    fix r
    have "in_flight g r t \<subseteq># in_flight g r s + {#}"
      by (rule flight_take [OF parts(1) box, of _ out]) (simp_all add: t out(2))
    then show "in_flight g r t \<subseteq># in_flight g r s" by simp
  qed
  ultimately show ?thesis by (auto simp: fed_inv_def)
qed

text \<open>Evaluating a model that comes from a full round reports a result of that round.\<close>

lemma evaluate_effects:
  assumes "actors_ok g k s" and "msg_ok g k (AggregatedModel am)" and "map_runtime rt"
  shows "list_all (effect_ok g k) (evaluate (fc_fpu g) rt (coord s) am)"
    and "contrib_out g r (evaluate (fc_fpu g) rt (coord s) am) = {#}"
proof -
  obtain j us where j: "j \<in> {1..k}" "AggregatedModel am = model_message (fc_fpu g) (of_nat j) us"
    "mset us = full_round g j" "length us = fc_workers g"
    using assms(2) by (auto simp: msg_ok_def)
  obtain line where ev: "evaluate (fc_fpu g) rt (coord s) am = Log line # [Result \<lparr>rr_RoundID = of_nat j,
      rr_Metrics = Evaluate (fc_fpu g) (sub_run rt 2) (Aggregate (fc_fpu g) sorted_runtime us) (fc_test g)\<rparr>]"
    using evaluate_model [OF assms(3) j(2) [symmetric], of "coord s"] assms(1) by (auto simp: actors_ok_def fed_coordinator_def)
  have "result_ok g k \<lparr>rr_RoundID = of_nat j,
      rr_Metrics = Evaluate (fc_fpu g) (sub_run rt 2) (Aggregate (fc_fpu g) sorted_runtime us) (fc_test g)\<rparr>"
    unfolding result_ok_def using j map_runtime_sub [OF assms(3), of 2]
    by (intro bexI [of _ j] exI [of _ us] exI [of _ "sub_run rt 2"]) simp_all
  then show "list_all (effect_ok g k) (evaluate (fc_fpu g) rt (coord s) am)"
    unfolding ev by (simp add: effect_ok_def)
  show "contrib_out g r (evaluate (fc_fpu g) rt (coord s) am) = {#}" by (simp add: ev)
qed

lemma fed_take_coord:
  assumes "fed_inv g s" and "fed_bound g" and "outbox s Coord = []" and "boxes s Coord = m # ms" and "map_runtime rt"
  shows "fed_inv g (fed_handle g rt Coord m (s\<lparr>boxes := (boxes s)(Coord := ms)\<rparr>))"
proof -
  from assms(1) obtain k where k: "actors_ok g k s" "messages_ok g k s" "flight_ok g k s" by (auto simp: fed_inv_def)
  note parts = take_parts [OF k(2) assms(4)] and stay = fed_stay_coord [OF k assms(3,4)]
  let ?t = "fed_handle g rt Coord m (s\<lparr>boxes := (boxes s)(Coord := ms)\<rparr>)"
  have W: "length (Workers (coord s)) = fc_workers g" using k(1) by (simp add: actors_ok_def fed_coordinator_def)
  show ?thesis
  proof (cases m)
    case (StartTraining ps)
    show ?thesis
    proof (cases "length ps = fc_workers g")
      case True
      have box: "boxes s Coord = StartTraining ps # ms" using assms(4) StartTraining by simp
      then show ?thesis
        using fed_take_start [OF k assms(2,3) box True refl] actors_start(4) [OF k(1) box True]
        by (simp add: fed_handle_def StartTraining)
    next
      case False
      then have "startRound (coord s) ps = (coord s, [Log (PartitionMismatch (CoordinatorID (coord s)) (length ps) (fc_workers g))])"
        using W by (simp add: startRound_def)
      then show ?thesis using False
        by (intro stay [of _ "[Log (PartitionMismatch (CoordinatorID (coord s)) (length ps) (fc_workers g))]"])
          (simp_all add: fed_handle_def StartTraining coordinator_receive_def effect_ok_def)
    qed
  next
    case (AggregatedModel am)
    then show ?thesis using evaluate_effects [OF k(1) _ assms(5), of am] parts(2)
      by (intro stay [of _ "evaluate (fc_fpu g) rt (coord s) am"])
        (simp_all add: fed_handle_def coordinator_receive_def)
  qed (intro stay [of _ "[]"]; simp add: fed_handle_def coordinator_receive_def)+
qed

lemma fed_inv_start: "fed_inv g (fed_start g)"
proof -
  have box: "contrib_box g r v (map StartTraining pss) = {#}" for r v pss
    by (induction pss) (simp_all add: contrib_def)
  have starts: "starts_in n (map StartTraining pss) = filter (\<lambda>ps. length ps = n) pss" for n pss
    by (induction pss) simp_all
  have "in_flight g r (fed_start g) = {#}" for r
    by (simp add: in_flight_def fed_start_def box if_distrib NewAggregatorActor_def round_updates_def cong: if_cong)
  then have "flight_ok g 0 (fed_start g)" by (simp add: flight_ok_def)
  moreover have "actors_ok g 0 (fed_start g)"
    by (simp add: actors_ok_def fed_start_def fed_coordinator_def NewAggregatorActor_def starts fed_rounds_def)
  moreover have "messages_ok g 0 (fed_start g)"
    by (auto simp: messages_ok_def fed_start_def list_all_iff msg_ok_def nodes_def)
  ultimately show ?thesis by (auto simp: fed_inv_def)
qed

lemma fed_inv_step: "fed_step g s t \<Longrightarrow> fed_bound g \<Longrightarrow> fed_inv g s \<Longrightarrow> fed_inv g t"
proof (induction rule: fed_step.induct)
  case (fed_take s v m ms rt)
  then show ?case
    by (cases v) (simp_all add: fed_take_coord fed_take_agg fed_take_worker)
next
  case (fed_sent s v to m line es)
  then show ?case using fed_inv_sent(1) by blast
next
  case (fed_lost s v to m line es)
  then show ?case using fed_inv_sent(2) by blast
next
  case (fed_logged s v line es)
  then show ?case using fed_inv_effect [of g s v "Log line" es "[]"] by simp
next
  case (fed_result s v r es)
  then show ?case using fed_inv_effect [of g s v "Result r" es "[r]"] by (simp add: effect_ok_def)
qed

interpretation fed_sys: safe_system "\<lambda>s. s = fed_start g" "fed_step g" "\<lambda>s. fed_bound g \<longrightarrow> fed_inv g s" for g
  by unfold_locales (auto simp: fed_inv_start intro: fed_inv_step)

abbreviation fed_reachable :: "fed_config \<Rightarrow> fed_net \<Rightarrow> bool" where
  "fed_reachable g \<equiv> reaches (\<lambda>s. s = fed_start g) (fed_step g)"

section \<open>A complete round is the centralized model\<close>

lemma size_sum_lessThan: "size (\<Sum>i<(n::nat). f i :: 'a multiset) = (\<Sum>i<n. size (f i))"
  by (induction n) simp_all

lemma sum_singles: "(\<Sum>i<(n::nat). {#f i#}) = mset (map f [0..<n])"
  by (induction n) simp_all

lemma full_round_loads:
  assumes "size (full_round g j) = fc_workers g"
  obtains recs where "length recs = fc_workers g"
    and "\<forall>i<fc_workers g. Load (fc_files g i) (fed_rounds g ! (j - 1) ! i) = Inr (recs ! i)"
    and "full_round g j = mset (map CountLocal recs)"
proof -
  let ?n = "fc_workers g" and ?p = "\<lambda>i. fed_rounds g ! (j - 1) ! i"
  have ok: "size (load_counts g i (?p i)) = 1" if "i < ?n" for i
  proof (rule ccontr)
    assume "size (load_counts g i (?p i)) \<noteq> 1"
    then have "size (load_counts g i (?p i)) = 0" using size_load_counts [of g i "?p i"] by linarith
    then have "(\<Sum>i<?n. size (load_counts g i (?p i))) < (\<Sum>i<?n. 1)"
      using that size_load_counts by (intro sum_strict_mono_ex1) auto
    then show False using assms by (simp add: full_round_def size_sum_lessThan)
  qed
  define recs where "recs = map (\<lambda>i. case Load (fc_files g i) (?p i) of Inr rs \<Rightarrow> rs | Inl _ \<Rightarrow> []) [0..<?n]"
  have load: "Load (fc_files g i) (?p i) = Inr (recs ! i)" if "i < ?n" for i
    using ok [OF that] that by (auto simp: recs_def load_counts_def split: sum.splits)
  have "full_round g j = (\<Sum>i<?n. {#CountLocal (recs ! i)#})"
    unfolding full_round_def by (intro sum.cong refl) (simp only: load_counts_def load lessThan_iff sum.case)
  also have "\<dots> = mset (map (\<lambda>i. CountLocal (recs ! i)) [0..<?n])"
    by (rule sum_singles)
  also have "map (\<lambda>i. CountLocal (recs ! i)) [0..<?n] = map CountLocal recs"
    by (rule nth_equalityI) (simp_all add: recs_def)
  finally show thesis using load by (intro that [of recs]) (simp_all add: recs_def)
qed

lemma result_centralized:
  assumes "fed_bound g" and "fed_reachable g s" and "x \<in> set (results s)"
  shows "\<exists>j recs rt. 1 \<le> j \<and> j \<le> length (fed_rounds g) \<and> rr_RoundID x = of_nat j \<and> length recs = fc_workers g \<and>
    map (\<lambda>i. Load (fc_files g i) (fed_rounds g ! (j - 1) ! i)) [0..<fc_workers g] = map Inr recs \<and> map_runtime rt \<and>
    rr_Metrics x = Evaluate (fc_fpu g) rt (Aggregate (fc_fpu g) sorted_runtime [CountLocal (concat recs)]) (fc_test g)"
proof -
  obtain k where k: "actors_ok g k s" "messages_ok g k s"
    using fed_sys.reaches_good [OF assms(2)] assms(1) by (auto simp: fed_inv_def)
  then have "result_ok g k x" using assms(3) by (auto simp: messages_ok_def list_all_iff)
  then obtain j us rt where j: "j \<in> {1..k}" and us: "mset us = full_round g j" "length us = fc_workers g"
    and x: "map_runtime rt" "rr_RoundID x = of_nat j"
      "rr_Metrics x = Evaluate (fc_fpu g) rt (Aggregate (fc_fpu g) sorted_runtime us) (fc_test g)"
    unfolding result_ok_def by blast
  have "size (full_round g j) = fc_workers g" using us by (metis size_mset)
  then obtain recs where recs: "length recs = fc_workers g"
    "\<forall>i<fc_workers g. Load (fc_files g i) (fed_rounds g ! (j - 1) ! i) = Inr (recs ! i)"
    "full_round g j = mset (map CountLocal recs)" by (rule full_round_loads)
  have "Aggregate (fc_fpu g) sorted_runtime us = Aggregate (fc_fpu g) sorted_runtime (map CountLocal recs)"
    using us(1) recs(3) by (intro Aggregate_runtime) simp_all
  also have "\<dots> = Aggregate (fc_fpu g) sorted_runtime [CountLocal (concat recs)]"
    by (rule Aggregate_shards) simp_all
  finally have "rr_Metrics x = Evaluate (fc_fpu g) rt (Aggregate (fc_fpu g) sorted_runtime [CountLocal (concat recs)]) (fc_test g)"
    using x(3) by simp
  moreover have "map (\<lambda>i. Load (fc_files g i) (fed_rounds g ! (j - 1) ! i)) [0..<fc_workers g] = map Inr recs"
    using recs(1,2) by (intro nth_equalityI) simp_all
  moreover have "1 \<le> j" "j \<le> length (fed_rounds g)" using j k(1) by (auto simp: actors_ok_def)
  ultimately show ?thesis using x recs(1) by blast
qed

end
