(* ===== verification/GoNet.thy ===== *)
theory GoNet
  imports GoSlice
begin

text \<open>
  Functions of the standard library on numbers, network addresses and file paths that the node programs
  use: \<^verbatim>\<open>strconv.Itoa\<close> and \<^verbatim>\<open>Atoi\<close>,
  \<^verbatim>\<open>net.SplitHostPort\<close> and \<^verbatim>\<open>JoinHostPort\<close>,
  \<^verbatim>\<open>filepath.Join\<close> (on Unix).
\<close>

section \<open>Numbers\<close>

definition digit :: "nat \<Rightarrow> char" where
  "digit n = char_of (48 + n)"

fun itoa :: "nat \<Rightarrow> string" where
  "itoa n = (if n < 10 then [digit n] else itoa (n div 10) @ [digit (n mod 10)])"

declare itoa.simps [simp del]

definition digit_value :: "char \<Rightarrow> nat option" where
  "digit_value c = (let n = of_char c in if 48 \<le> n \<and> n \<le> 57 then Some (n - 48) else None)"

text \<open>The value of a string of digits.\<close>

fun digits_value :: "nat \<Rightarrow> string \<Rightarrow> nat option" where
  "digits_value acc [] = Some acc"
| "digits_value acc (c # cs) = (case digit_value c of None \<Rightarrow> None | Some d \<Rightarrow> digits_value (10 * acc + d) cs)"

text \<open>\<^verbatim>\<open>Atoi\<close>: an optional sign and at least one digit; \<open>None\<close> also where the number does not fit.\<close>

definition atoi :: "string \<Rightarrow> int option" where
  "atoi s =
     (let (neg, ds) = (case s of [] \<Rightarrow> (False, []) | c # cs \<Rightarrow>
            if c = CHR ''-'' then (True, cs) else if c = CHR ''+'' then (False, cs) else (False, s)) in
      if ds = [] then None
      else (case digits_value 0 ds of
          None \<Rightarrow> None
        | Some n \<Rightarrow> (let i = (if neg then - int n else int n)
            in if - (2 ^ 63) \<le> i \<and> i \<le> int64_max then Some i else None)))"

lemma digit_value_digit: "n < 10 \<Longrightarrow> digit_value (digit n) = Some n"
  by (simp add: digit_value_def digit_def)

lemma digits_value_append:
  "digits_value acc (xs @ ys) = (case digits_value acc xs of None \<Rightarrow> None | Some a \<Rightarrow> digits_value a ys)"
  by (induction acc xs rule: digits_value.induct) (simp_all split: option.split)

lemma digits_value_itoa: "digits_value 0 (itoa n) = Some n"
proof (induction n rule: itoa.induct)
  case (1 n)
  show ?case
  proof (cases "n < 10")
    case True
    then show ?thesis by (subst itoa.simps) (simp add: digit_value_digit)
  next
    case False
    then show ?thesis using 1 by (subst itoa.simps) (simp add: digits_value_append digit_value_digit)
  qed
qed

lemma itoa_digits: "c \<in> set (itoa n) \<Longrightarrow> 48 \<le> (of_char c :: nat) \<and> (of_char c :: nat) \<le> 57"
proof (induction n rule: itoa.induct)
  case (1 n)
  have d: "48 \<le> (of_char (digit k) :: nat) \<and> (of_char (digit k) :: nat) \<le> 57" if "k < 10" for k
    using that by (simp add: digit_def)
  show ?case
  proof (cases "n < 10")
    case True
    then have "c = digit n" using 1(2) by (subst (asm) itoa.simps) simp
    then show ?thesis using d [of n] True by simp
  next
    case False
    then have "c \<in> set (itoa (n div 10)) \<or> c = digit (n mod 10)" using 1(2) by (subst (asm) itoa.simps) auto
    then show ?thesis using 1(1) False d [of "n mod 10"] by auto
  qed
qed

lemma itoa_nonempty [simp]: "itoa n \<noteq> []"
  by (subst itoa.simps) simp

lemma itoa_inj: "itoa m = itoa n \<Longrightarrow> m = n"
  by (metis digits_value_itoa option.inject)

lemma atoi_itoa:
  assumes "int n \<le> int64_max"
  shows "atoi (itoa n) = Some (int n)"
proof -
  obtain c cs where c: "itoa n = c # cs" by (cases "itoa n") auto
  then have "48 \<le> (of_char c :: nat)" using itoa_digits [of c n] by simp
  then have "c \<noteq> CHR ''-'' \<and> c \<noteq> CHR ''+''" by auto
  then show ?thesis using digits_value_itoa [of n] assms by (simp add: atoi_def c Let_def)
qed

section \<open>Host and port\<close>

text \<open>The part before and after the last occurrence of a byte.\<close>

definition split_last :: "char \<Rightarrow> string \<Rightarrow> (string \<times> string) option" where
  "split_last sep s = map_option (\<lambda>(a, b). (rev b, rev a)) (split_first sep (rev s))"

definition split_host_port :: "string \<Rightarrow> (string \<times> string) option" where
  "split_host_port hp =
     (case split_last CHR '':'' hp of
        None \<Rightarrow> None
      | Some (before, port) \<Rightarrow>
          if take 1 hp = ''[''
          then (case split_first CHR '']'' (tl hp) of
              None \<Rightarrow> None
            | Some (host, after) \<Rightarrow>
                if after = CHR '':'' # port \<and> CHR ''['' \<notin> set host \<and> CHR ''['' \<notin> set after \<and> CHR '']'' \<notin> set after
                then Some (host, port) else None)
          else if CHR '':'' \<in> set before \<or> CHR ''['' \<in> set hp \<or> CHR '']'' \<in> set hp then None
          else Some (before, port))"

definition join_host_port :: "string \<Rightarrow> string \<Rightarrow> string" where
  "join_host_port host port =
     (if CHR '':'' \<in> set host then ''['' @ host @ '']:'' @ port else host @ '':'' @ port)"

lemma split_last_append: "sep \<notin> set b \<Longrightarrow> split_last sep (a @ sep # b) = Some (a, b)"
  by (simp add: split_last_def)

lemma split_join_host_port:
  assumes "set host \<inter> {CHR ''['', CHR '']''} = {}" and "set port \<inter> {CHR '':'', CHR ''['', CHR '']''} = {}"
  shows "split_host_port (join_host_port host port) = Some (host, port)"
proof (cases "CHR '':'' \<in> set host")
  case True
  have "split_last CHR '':'' (''['' @ host @ '']'' @ CHR '':'' # port) = Some (''['' @ host @ '']'', port)"
    using assms(2) split_last_append [of "CHR '':''" port "''['' @ host @ '']''"] by simp
  moreover have "split_first CHR '']'' (host @ CHR '']'' # CHR '':'' # port) = Some (host, CHR '':'' # port)"
    using assms(1) by (intro split_first_append) auto
  ultimately show ?thesis using assms True by (simp add: split_host_port_def join_host_port_def)
next
  case False
  have "take 1 (host @ CHR '':'' # port) \<noteq> ''[''" using assms(1) by (cases host) auto
  then show ?thesis using assms False split_last_append [of "CHR '':''" port host]
    by (auto simp: split_host_port_def join_host_port_def)
qed

section \<open>Paths\<close>

text \<open>The components of a cleaned path; \<open>rooted\<close> paths cannot go above the root.\<close>

definition clean_step :: "bool \<Rightarrow> string \<Rightarrow> string list \<Rightarrow> string list" where
  "clean_step rooted e stack =
     (if e = '''' \<or> e = ''.'' then stack
      else if e = ''..'' then
        (if stack = [] then (if rooted then [] else [e])
         else if last stack = ''..'' then stack @ [e] else butlast stack)
      else stack @ [e])"

definition clean_elems :: "string \<Rightarrow> string list" where
  "clean_elems p = fold (clean_step (take 1 p = ''/'')) (split_all CHR ''/'' p) []"

definition clean_path :: "string \<Rightarrow> string" where
  "clean_path p =
     (if p = '''' then ''.''
      else (let es = clean_elems p; s = (if take 1 p = ''/'' then ''/'' else '''') @ join_with ''/'' es
            in if s = '''' then ''.'' else s))"

text \<open>\<^verbatim>\<open>filepath.Join\<close> of two elements: empty ones are ignored.\<close>

definition path_join :: "string \<Rightarrow> string \<Rightarrow> string" where
  "path_join dir file_name =
     (if dir = '''' then (if file_name = '''' then '''' else clean_path file_name)
      else clean_path (dir @ (if file_name = '''' then '''' else ''/'' @ file_name)))"


text \<open>A plain file name is appended to what the directory cleans to.\<close>

definition plain_name :: "string \<Rightarrow> bool" where
  "plain_name f \<longleftrightarrow> CHR ''/'' \<notin> set f \<and> f \<noteq> '''' \<and> f \<noteq> ''.'' \<and> f \<noteq> ''..''"

lemma split_all_snoc: "sep \<notin> set f \<Longrightarrow> split_all sep (s @ sep # f) = split_all sep s @ [f]"
  by (induction s) (auto simp: split_all_notin split: list.split)

lemma join_with_snoc: "join_with sep (ps @ [f]) = (if ps = [] then [] else join_with sep ps @ sep) @ f"
  by (induction sep ps rule: join_with.induct) auto

lemma clean_elems_snoc:
  assumes "plain_name f"
  shows "clean_elems (d @ CHR ''/'' # f) = fold (clean_step (take 1 (d @ ''/'') = ''/'')) (split_all CHR ''/'' d) [] @ [f]"
proof -
  have "take 1 (d @ CHR ''/'' # f) = take 1 (d @ ''/'')" by (cases d) simp_all
  then show ?thesis using assms split_all_snoc [of "CHR ''/''" f d]
    by (simp add: clean_elems_def plain_name_def clean_step_def)
qed

lemma path_join_prefix: "\<exists>pre. \<forall>f. plain_name f \<longrightarrow> path_join dir f = pre @ f"
proof (cases "dir = ''''")
  case True
  have "path_join '''' f = f" if "plain_name f" for f
  proof -
    have "take 1 f \<noteq> ''/''" using that by (cases f) (auto simp: plain_name_def)
    moreover have "split_all CHR ''/'' f = [f]" using that by (auto simp: plain_name_def split_all_notin)
    ultimately show ?thesis using that
      by (auto simp: path_join_def clean_path_def clean_elems_def clean_step_def plain_name_def)
  qed
  then show ?thesis using True by (intro exI [of _ "''''"]) simp
next
  case False
  define es where "es = fold (clean_step (take 1 (dir @ ''/'') = ''/'')) (split_all CHR ''/'' dir) []"
  define pre where "pre = (if take 1 (dir @ ''/'') = ''/'' then ''/'' else '''') @ (if es = [] then '''' else join_with ''/'' es @ ''/'')"
  have "path_join dir f = pre @ f" if "plain_name f" for f
  proof -
    have root: "take 1 (dir @ ''/'' @ f) = take 1 (dir @ ''/'')" by (cases dir) simp_all
    have f: "f \<noteq> ''''" using that by (simp add: plain_name_def)
    have "clean_elems (dir @ ''/'' @ f) = es @ [f]" using clean_elems_snoc [OF that, of dir] by (simp add: es_def)
    then have "clean_path (dir @ ''/'' @ f) = pre @ f"
      unfolding clean_path_def root using f by (simp add: Let_def pre_def join_with_snoc del: take_append)
    then show ?thesis using False f by (simp add: path_join_def)
  qed
  then show ?thesis by blast
qed

lemma path_join_inj: "plain_name f \<Longrightarrow> plain_name g \<Longrightarrow> path_join dir f = path_join dir g \<Longrightarrow> f = g"
  by (metis path_join_prefix same_append_eq)

end
