(* ===== verification/FedLive.thy ===== *)
theory FedLive
  imports FedRound GoNet
begin

text \<open>
  Termination and completion of federated rounds.  Every message and effect has a weight that bounds the
  steps it can still cause, so every run of the network is finite, with an explicit bound; and when no
  send is lost, a run that cannot go on has reported a result for every round whose partitions could be
  loaded.
\<close>

section \<open>Termination\<close>

text \<open>The sum over the network of what each waiting message and each effect counts for.\<close>

definition node_sum :: "(node \<Rightarrow> fl_msg \<Rightarrow> nat) \<Rightarrow> (node effect \<Rightarrow> nat) \<Rightarrow> 'z fed_net_scheme \<Rightarrow> node \<Rightarrow> nat" where
  "node_sum mu eps s v = sum_list (map (mu v) (boxes s v)) + sum_list (map eps (outbox s v))"

definition net_sum :: "fed_config \<Rightarrow> (node \<Rightarrow> fl_msg \<Rightarrow> nat) \<Rightarrow> (node effect \<Rightarrow> nat) \<Rightarrow> 'z fed_net_scheme \<Rightarrow> nat" where
  "net_sum g mu eps s = (\<Sum>v\<in>nodes g. node_sum mu eps s v)"

lemma net_sum_change:
  assumes "v \<in> nodes g" and "\<And>u. u \<noteq> v \<Longrightarrow> node_sum mu eps t u = node_sum mu eps s u"
  shows "net_sum g mu eps t + node_sum mu eps s v = net_sum g mu eps s + node_sum mu eps t v"
proof -
  have "(\<Sum>u\<in>nodes g - {v}. node_sum mu eps t u) = (\<Sum>u\<in>nodes g - {v}. node_sum mu eps s u)"
    using assms(2) by (intro sum.cong) auto
  then show ?thesis using assms(1) by (simp add: net_sum_def sum.remove)
qed

text \<open>How the sum changes when an effect is performed, a message enqueued, and a message handled.\<close>

lemma net_sum_skip:
  assumes "v \<in> nodes g" and "outbox s v = e # es" and "boxes t = boxes s" and "outbox t = (outbox s)(v := es)"
  shows "net_sum g mu eps t + eps e = net_sum g mu eps s"
proof -
  have "net_sum g mu eps t + node_sum mu eps s v = net_sum g mu eps s + node_sum mu eps t v"
    using assms by (intro net_sum_change) (simp_all add: node_sum_def)
  then show ?thesis using assms by (simp add: node_sum_def)
qed

lemma net_sum_enqueue:
  assumes "to \<in> nodes g" and "boxes t = (boxes s)(to := boxes s to @ [m])" and "outbox t = outbox s"
  shows "net_sum g mu eps t = net_sum g mu eps s + mu to m"
proof -
  have "net_sum g mu eps t + node_sum mu eps s to = net_sum g mu eps s + node_sum mu eps t to"
    using assms by (intro net_sum_change) (simp_all add: node_sum_def)
  then show ?thesis using assms by (simp add: node_sum_def)
qed

lemma net_sum_send:
  assumes "v \<in> nodes g" and "to \<in> nodes g" and "outbox s v = SendRetry to m line # es"
    and "boxes t = (boxes s)(to := boxes s to @ [m])" and "outbox t = (outbox s)(v := es)"
  shows "net_sum g mu eps t + eps (SendRetry to m line) = net_sum g mu eps s + mu to m"
proof -
  let ?u = "s\<lparr>outbox := (outbox s)(v := es)\<rparr>"
  have "net_sum g mu eps ?u + eps (SendRetry to m line) = net_sum g mu eps s"
    by (rule net_sum_skip [OF assms(1,3)]) simp_all
  moreover have "net_sum g mu eps t = net_sum g mu eps ?u + mu to m"
    by (rule net_sum_enqueue [OF assms(2)]) (simp_all add: assms(4,5))
  ultimately show ?thesis by simp
qed

lemma net_sum_take:
  assumes "v \<in> nodes g" and "outbox s v = []" and "boxes s v = m # ms"
    and "boxes t = (boxes s)(v := ms)" and "outbox t = (outbox s)(v := out)"
  shows "net_sum g mu eps t + mu v m = net_sum g mu eps s + sum_list (map eps out)"
proof -
  have "net_sum g mu eps t + node_sum mu eps s v = net_sum g mu eps s + node_sum mu eps t v"
    using assms(1) by (rule net_sum_change) (simp add: node_sum_def assms(4,5))
  then show ?thesis using assms by (simp add: node_sum_def)
qed

text \<open>
  The weight of a message bounds the steps it can cause with \<open>n\<close> workers, where a send makes at most
  \<open>a\<close> attempts and each attempt costs \<open>b\<close> steps and the steps of the message it delivers.
\<close>

definition update_weight :: "nat \<Rightarrow> nat \<Rightarrow> nat" where
  "update_weight a b = Suc (a * (3 + b))"

definition request_weight :: "nat \<Rightarrow> nat \<Rightarrow> nat" where
  "request_weight a b = Suc (a * (update_weight a b + b))"

fun msg_weight :: "nat \<Rightarrow> nat \<Rightarrow> nat \<Rightarrow> fl_msg \<Rightarrow> nat" where
  "msg_weight a b n (StartTraining ps) = Suc (a * (update_weight a b + b) + n * (a * (request_weight a b + b)))"
| "msg_weight a b n (TrainRequest q) = request_weight a b"
| "msg_weight a b n (LocalModelUpdate u) = update_weight a b"
| "msg_weight a b n (AggregateTrigger t) = update_weight a b"
| "msg_weight a b n (AggregatedModel m) = 3"
| "msg_weight a b n OtherFL = 1"

fun effect_weight :: "nat \<Rightarrow> nat \<Rightarrow> nat \<Rightarrow> 'ref effect \<Rightarrow> nat" where
  "effect_weight a b n (SendRetry to m line) = a * (msg_weight a b n m + b)"
| "effect_weight a b n (Log line) = 1"
| "effect_weight a b n (Result x) = 1"

lemma msg_weight_pos: "0 < msg_weight a b n m"
  by (cases m) (simp_all add: update_weight_def request_weight_def)

lemma effect_weight_pos: "0 < a \<Longrightarrow> 0 < effect_weight a b n e"
  by (cases e) (simp_all add: msg_weight_pos)

lemma model_message_weight: "msg_weight a b n (model_message fp r us) = 3"
  by (simp add: model_message_def Let_def)

text \<open>The round a message to the aggregator belongs to.\<close>

fun touched :: "fl_msg \<Rightarrow> int64 option" where
  "touched (AggregateTrigger t) = Some (at_RoundId t)"
| "touched (LocalModelUpdate u) = Some (up_RoundId u)"
| "touched _ = None"

text \<open>Each handler's effects weigh less than the message it handles.\<close>

lemma worker_weight:
  "0 < a \<Longrightarrow> sum_list (map (effect_weight a b n) (worker_receive fs rt w m)) < msg_weight a b n m"
  by (cases m) (auto simp: worker_receive_def Let_def request_weight_def update_weight_def split: sum.split)

lemma aggregator_weight:
  assumes "map_runtime rt" and "aggregator_receive fp rt a' m = (a'', out)"
  shows "sum_list (map (effect_weight a b n) out) < msg_weight a b n m"
  using assms
proof (cases rule: aggregator_receive_cases)
  case wait
  then show ?thesis by (simp add: msg_weight_pos)
next
  case (complete r k)
  have "out = [] \<or> (\<exists>r. touched m = Some r)"
    using assms(2) by (cases m) (simp_all add: aggregator_receive_def)
  then have "msg_weight a b n m = update_weight a b" using complete(4) by (cases m) auto
  then show ?thesis using complete(4) by (simp add: model_message_weight update_weight_def)
qed

lemma coordinator_weight:
  assumes "length (Workers c) = n" and "0 < a"
  shows "sum_list (map (effect_weight a b n) (snd (coordinator_receive fp rt c m))) < msg_weight a b n m"
proof -
  have "sum_list (map (effect_weight a b n) (train_requests c r ps)) = n * (a * (request_weight a b + b))" for r ps
    using assms(1) by (simp add: train_requests_def o_def sum_list_triv)
  then show ?thesis using assms(2)
    by (cases m) (auto simp: coordinator_receive_def startRound_def evaluate_def update_weight_def request_weight_def Let_def)
qed

lemma handle_weight:
  assumes "length (Workers (coord s)) = fc_workers g" and "map_runtime rt" and "0 < a"
  shows "sum_list (map (effect_weight a b (fc_workers g)) (handler_effects g rt v m s)) < msg_weight a b (fc_workers g) m"
proof (cases v)
  case Coord
  then show ?thesis using coordinator_weight [OF assms(1,3)] by (simp add: handler_effects_def)
next
  case Agg
  then show ?thesis using aggregator_weight [OF assms(2) prod.collapse [symmetric]] by (simp add: handler_effects_def)
next
  case (Work i)
  then show ?thesis using worker_weight [OF assms(3)] by (simp add: handler_effects_def)
qed

text \<open>Local references: one delivery for each send.\<close>

definition net_weight :: "fed_config \<Rightarrow> fed_net \<Rightarrow> nat" where
  "net_weight g = net_sum g (\<lambda>_. msg_weight 1 1 (fc_workers g)) (effect_weight 1 1 (fc_workers g))"

lemma send_target:
  assumes "messages_ok g k s" and "outbox s v = SendRetry to m line # es"
  shows "v \<in> nodes g" and "to \<in> nodes g"
proof -
  show "v \<in> nodes g" using assms by (force simp: messages_ok_def)
  have "effect_ok g k (SendRetry to m line)" using assms by (auto simp: messages_ok_def dest!: spec [of _ v])
  then show "to \<in> nodes g" by (simp add: effect_ok_def)
qed

lemma fed_step_weight:
  assumes "fed_inv g s" and "fed_step g s t"
  shows "net_weight g t < net_weight g s"
proof -
  let ?mw = "\<lambda>_. msg_weight 1 1 (fc_workers g)" and ?ew = "effect_weight 1 1 (fc_workers g)"
  obtain k where k: "actors_ok g k s" "messages_ok g k s" using assms(1) by (auto simp: fed_inv_def)
  have effect: "net_weight g t < net_weight g s"
    if "outbox s v = e # es" "boxes t = boxes s" "outbox t = (outbox s)(v := es)" for v e es
  proof -
    have "v \<in> nodes g" using k(2) that(1) by (force simp: messages_ok_def)
    then show ?thesis
      using net_sum_skip [OF _ that, of g ?mw ?ew] effect_weight_pos [of 1 1 "fc_workers g" e] by (simp add: net_weight_def)
  qed
  show ?thesis using assms(2)
  proof cases
    case (fed_take v m ms rt)
    let ?u = "s\<lparr>boxes := (boxes s)(v := ms)\<rparr>"
    have "length (Workers (coord ?u)) = fc_workers g" using k(1) by (simp add: actors_ok_def fed_coordinator_def)
    from handle_weight [OF this fed_take(4), of 1 1 v m] show ?thesis
      using net_sum_take [OF take_parts(1) [OF k(2) fed_take(3)] fed_take(2,3), of t "handler_effects g rt v m ?u" ?mw ?ew]
      by (simp add: net_weight_def fed_take(1))
  next
    case (fed_sent v to m line es)
    show ?thesis
      using net_sum_send [OF send_target [OF k(2) fed_sent(2)] fed_sent(2), of t ?mw ?ew]
      by (simp add: net_weight_def fed_sent(1))
  qed (use effect in auto)
qed

interpretation fed_run: terminating_system
  "\<lambda>s. fed_bound g \<and> s = fed_start g" "fed_step g" "\<lambda>s. fed_bound g \<and> fed_inv g s" "net_weight g" for g
  by unfold_locales (auto simp: fed_inv_start intro: fed_inv_step fed_step_weight)

lemma net_weight_start: "net_weight g (fed_start g) = length (fc_starts g) * (7 + 8 * fc_workers g)"
proof -
  have "node_sum (\<lambda>_. msg_weight 1 1 n) (effect_weight 1 1 n) (fed_start g) v =
      (if v = Coord then length (fc_starts g) * (7 + 8 * n) else 0)" for n v
    by (simp add: node_sum_def fed_start_def o_def sum_list_triv update_weight_def request_weight_def)
  then show ?thesis by (simp add: net_weight_def net_sum_def nodes_def)
qed

section \<open>Runs without losses\<close>

inductive fed_live :: "fed_config \<Rightarrow> fed_net \<Rightarrow> fed_net \<Rightarrow> bool" for g where
  live_take: "outbox s v = [] \<Longrightarrow> boxes s v = m # ms \<Longrightarrow> map_runtime rt \<Longrightarrow>
    fed_live g s (fed_handle g rt v m (s\<lparr>boxes := (boxes s)(v := ms)\<rparr>))"
| live_sent: "outbox s v = SendRetry to m line # es \<Longrightarrow>
    fed_live g s (s\<lparr>boxes := (boxes s)(to := boxes s to @ [m]), outbox := (outbox s)(v := es)\<rparr>)"
| live_logged: "outbox s v = Log line # es \<Longrightarrow> fed_live g s (s\<lparr>outbox := (outbox s)(v := es)\<rparr>)"
| live_result: "outbox s v = Result r # es \<Longrightarrow>
    fed_live g s (s\<lparr>results := results s @ [r], outbox := (outbox s)(v := es)\<rparr>)"

lemma fed_live_step: "fed_live g s t \<Longrightarrow> fed_step g s t"
  by (induction rule: fed_live.induct) (auto intro: fed_step.intros)

text \<open>A run that cannot go on has nothing left to handle or to perform.\<close>

lemma fed_live_stuck:
  assumes "\<nexists>t. fed_live g s t"
  shows "boxes s v = []" and "outbox s v = []"
proof -
  show out: "outbox s v = []"
  proof (rule ccontr)
    assume "outbox s v \<noteq> []"
    then obtain e es where "outbox s v = e # es" by (cases "outbox s v") auto
    then show False using assms by (cases e) (auto intro: fed_live.intros)
  qed
  show "boxes s v = []"
  proof (rule ccontr)
    assume "boxes s v \<noteq> []"
    then obtain m ms where "boxes s v = m # ms" by (cases "boxes s v") auto
    then show False using assms live_take [OF out] map_runtime_sorted by blast
  qed
qed

text \<open>A message somewhere on its way, to a node and of a kind \<open>P\<close>; a result somewhere on its way.\<close>

definition flying :: "(node \<Rightarrow> fl_msg \<Rightarrow> bool) \<Rightarrow> fed_net \<Rightarrow> bool" where
  "flying P s \<longleftrightarrow> (\<exists>v. \<exists>m\<in>set (boxes s v). P v m) \<or> (\<exists>v to m line. SendRetry to m line \<in> set (outbox s v) \<and> P to m)"

definition resulting :: "int64 \<Rightarrow> fed_net \<Rightarrow> bool" where
  "resulting r s \<longleftrightarrow> (\<exists>v x. Result x \<in> set (outbox s v) \<and> rr_RoundID x = r) \<or> (\<exists>x\<in>set (results s). rr_RoundID x = r)"

definition is_trigger :: "int64 \<Rightarrow> node \<Rightarrow> fl_msg \<Rightarrow> bool" where
  "is_trigger r v m \<longleftrightarrow> v = Agg \<and> (case m of AggregateTrigger t \<Rightarrow> at_RoundId t = r | _ \<Rightarrow> False)"

definition is_model :: "int64 \<Rightarrow> node \<Rightarrow> fl_msg \<Rightarrow> bool" where
  "is_model r v m \<longleftrightarrow> v = Coord \<and> (case m of AggregatedModel a \<Rightarrow> am_RoundId a = r | _ \<Rightarrow> False)"

text \<open>A started round is either waiting at the aggregator with nothing missing, or past it.\<close>

definition gathering :: "fed_config \<Rightarrow> nat \<Rightarrow> fed_net \<Rightarrow> bool" where
  "gathering g j s \<longleftrightarrow> in_flight g (of_nat j) s = full_round g j \<and>
     (flying (is_trigger (of_nat j)) s \<or>
      fmlookup (expected (agg s)) (of_nat j) = Some (of_nat (fc_workers g)) \<and>
      length (round_updates (agg s) (of_nat j)) < fc_workers g)"

definition finishing :: "nat \<Rightarrow> fed_net \<Rightarrow> bool" where
  "finishing j s \<longleftrightarrow> flying (is_model (of_nat j)) s \<or> resulting (of_nat j) s"

definition round_alive :: "fed_config \<Rightarrow> nat \<Rightarrow> fed_net \<Rightarrow> bool" where
  "round_alive g j s \<longleftrightarrow> (size (full_round g j) = fc_workers g \<longrightarrow> gathering g j s \<or> finishing j s)"

definition started :: "fed_net \<Rightarrow> nat" where
  "started s = unat (roundID (coord s))"

lemma started_actors:
  assumes "fed_bound g" and "actors_ok g k s"
  shows "started s = k"
proof -
  have "int k \<le> int64_max" using assms fed_rounds_le [of g] by (auto simp: actors_ok_def fed_bound_def)
  then have "k < 2 ^ 64" by (simp add: int64_max_def)
  then have "unat (of_nat k :: int64) = k" by (simp add: unat_of_nat)
  then show ?thesis using assms(2) by (simp add: started_def actors_ok_def)
qed

text \<open>Performing an effect loses nothing.\<close>

lemma flying_sent:
  assumes "outbox s v = SendRetry to m line # es" and "flying P s"
  shows "flying P (s\<lparr>boxes := (boxes s)(to := boxes s to @ [m]), outbox := (outbox s)(v := es)\<rparr>)"
proof -
  consider u m' where "m' \<in> set (boxes s u)" "P u m'" | u to' m' line' where "SendRetry to' m' line' \<in> set (outbox s u)" "P to' m'"
    using assms(2) by (auto simp: flying_def)
  then show ?thesis
  proof cases
    case 1
    then show ?thesis by (auto simp: flying_def intro!: exI [of _ u])
  next
    case 2
    show ?thesis
    proof (cases "u = v \<and> SendRetry to' m' line' = SendRetry to m line")
      case True
      then show ?thesis using 2 by (auto simp: flying_def intro!: exI [of _ to])
    next
      case False
      then have "SendRetry to' m' line' \<in> set (((outbox s)(v := es)) u)" using 2(1) assms(1) by (auto split: if_splits)
      then show ?thesis using 2(2) unfolding flying_def by (intro disjI2) (auto simp del: fun_upd_apply)
    qed
  qed
qed

lemma flying_other:
  assumes "outbox s v = e # es" and "\<And>to m line. e \<noteq> SendRetry to m line" and "flying P s"
    and "boxes t = boxes s" and "outbox t = (outbox s)(v := es)"
  shows "flying P t"
proof -
  have "SendRetry to m line \<in> set (outbox s u) \<Longrightarrow> SendRetry to m line \<in> set (outbox t u)" for to m line u
    using assms(1,2,5) by (metis fun_upd_apply set_ConsD)
  then show ?thesis using assms(3,4) unfolding flying_def by metis
qed

text \<open>Taking a message leaves the others on their way.\<close>

lemma flying_take:
  assumes "outbox s v = []" and "boxes s v = m # ms"
    and "boxes t = (boxes s)(v := ms)" and "outbox t = (outbox s)(v := out)" and "flying P s"
  shows "flying P t \<or> P v m"
proof -
  consider u m' where "m' \<in> set (boxes s u)" "P u m'" | u to m' line where "SendRetry to m' line \<in> set (outbox s u)" "P to m'"
    using assms(5) by (auto simp: flying_def)
  then show ?thesis
  proof cases
    case 1
    then show ?thesis using assms(2,3) unfolding flying_def by (cases "u = v") force+
  next
    case 2
    then have "SendRetry to m' line \<in> set (outbox t u)" using assms(1,4) by (cases "u = v") auto
    then show ?thesis using 2(2) unfolding flying_def by blast
  qed
qed

lemma flying_out: "SendRetry to m line \<in> set (outbox t v) \<Longrightarrow> P to m \<Longrightarrow> flying P t"
  unfolding flying_def by blast

lemma resulting_mono:
  assumes "\<And>x u. Result x \<in> set (outbox s u) \<Longrightarrow> Result x \<in> set (outbox t u) \<or> x \<in> set (results t)"
    and "set (results s) \<subseteq> set (results t)" and "resulting r s"
  shows "resulting r t"
  using assms unfolding resulting_def by blast

lemma resulting_take:
  assumes "outbox s v = []" and "outbox t = (outbox s)(v := out)" and "results t = results s" and "resulting r s"
  shows "resulting r t"
proof (rule resulting_mono [OF _ _ assms(4)])
  show "Result x \<in> set (outbox s u) \<Longrightarrow> Result x \<in> set (outbox t u) \<or> x \<in> set (results t)" for x u
    using assms(1,2) by (cases "u = v") auto
qed (simp add: assms(3))

section \<open>Nothing gets lost\<close>

lemma flight_send_eq:
  assumes "v \<in> nodes g" and "to \<in> nodes g" and "outbox s v = SendRetry to m line # es"
    and "boxes t = (boxes s)(to := boxes s to @ [m])" and "outbox t = (outbox s)(v := es)" and "agg t = agg s"
  shows "in_flight g r t = in_flight g r s"
proof -
  let ?B = "\<lambda>s u. contrib_box g r u (boxes s u)" and ?O = "\<lambda>s u. contrib_out g r (outbox s u)"
  have "(\<Sum>u\<in>nodes g. ?O t u) + ?O s v = (\<Sum>u\<in>nodes g. ?O s u) + ?O t v"
    using assms(1) by (rule sum_node) (simp add: assms)
  then have O: "(\<Sum>u\<in>nodes g. ?O t u) + contrib g r to m = (\<Sum>u\<in>nodes g. ?O s u)"
    using assms(3,5) by (simp add: ac_simps)
  have "(\<Sum>u\<in>nodes g. ?B t u) + ?B s to = (\<Sum>u\<in>nodes g. ?B s u) + ?B t to"
    using assms(2) by (rule sum_node) (simp add: assms)
  then have B: "(\<Sum>u\<in>nodes g. ?B t u) = (\<Sum>u\<in>nodes g. ?B s u) + contrib g r to m"
    using assms(4) by (simp add: ac_simps)
  show ?thesis unfolding in_flight_def sum.distrib B O [symmetric] assms(6) by (simp add: ac_simps)
qed

lemma flight_skip_eq:
  assumes "outbox s v = e # es" and "\<And>to m line. e \<noteq> SendRetry to m line"
    and "boxes t = boxes s" and "outbox t = (outbox s)(v := es)" and "agg t = agg s"
  shows "in_flight g r t = in_flight g r s"
proof -
  have "(case e of SendRetry to m _ \<Rightarrow> contrib g r to m | _ \<Rightarrow> {#}) = {#}" using assms(2) by (cases e) auto
  then have "contrib_out g r (outbox t u) = contrib_out g r (outbox s u)" for u using assms(1,4) by auto
  then show ?thesis by (simp add: in_flight_def assms(3,5))
qed

lemma alive_effect:
  assumes "in_flight g (of_nat j) t = in_flight g (of_nat j) s" and "agg t = agg s"
    and "\<And>P. flying P s \<Longrightarrow> flying P t" and "\<And>r. resulting r s \<Longrightarrow> resulting r t" and "round_alive g j s"
  shows "round_alive g j t"
  using assms unfolding round_alive_def gathering_def finishing_def by metis

lemma alive_take:
  assumes "v \<in> nodes g" and "outbox s v = []" and "boxes s v = m # ms"
    and "boxes t = (boxes s)(v := ms)" and "outbox t = (outbox s)(v := out)" and "results t = results s" and "agg t = agg s"
    and "contrib_out g (of_nat j) out = contrib g (of_nat j) v m" and "\<not> is_trigger (of_nat j) v m"
    and "is_model (of_nat j) v m \<Longrightarrow> resulting (of_nat j) t"
    and "round_alive g j s"
  shows "round_alive g j t"
proof -
  have "in_flight g (of_nat j) t + (contrib g (of_nat j) v m + mset (round_updates (agg s) (of_nat j))) =
      in_flight g (of_nat j) s + (contrib g (of_nat j) v m + mset (round_updates (agg s) (of_nat j)))"
    using flight_take_sum [OF assms(1-5), of "of_nat j"] assms(7,8) by (simp add: add.assoc)
  then have "in_flight g (of_nat j) t = in_flight g (of_nat j) s" by simp
  moreover have "flying (is_trigger (of_nat j)) s \<Longrightarrow> flying (is_trigger (of_nat j)) t"
    using flying_take [OF assms(2-5), of "is_trigger (of_nat j)"] assms(9) by blast
  moreover have "finishing j s \<Longrightarrow> finishing j t"
    using flying_take [OF assms(2-5), of "is_model (of_nat j)"] assms(10)
      resulting_take [OF assms(2,5,6), of "of_nat j"] unfolding finishing_def by blast
  ultimately show ?thesis using assms(7,11) unfolding round_alive_def gathering_def by metis
qed

text \<open>The aggregator in closed form: store the message, then look at the round it belongs to.\<close>

definition agg_close :: "'ref aggregator_actor \<Rightarrow> int64 \<Rightarrow> 'ref aggregator_actor" where
  "agg_close a r = a\<lparr>updates := fmdrop r (updates a), expected := fmdrop r (expected a)\<rparr>"

lemma aggregator_receive_touched:
  assumes "map_runtime rt"
  shows "aggregator_receive fp rt a m =
    (case touched m of
       None \<Rightarrow> (agg_store a m, [])
     | Some r \<Rightarrow> (let b = agg_store a m in
         case fmlookup (expected b) r of
           None \<Rightarrow> (b, [])
         | Some n \<Rightarrow> if int64_gt n (of_nat (length (round_updates b r))) then (b, [])
             else (agg_close b r, [SendRetry (a_Coordinator a) (model_message fp r (round_updates b r)) (ModelSend (AggregatorID b) r)])))"
proof -
  have "aggregator_receive fp rt a m =
      (case touched m of None \<Rightarrow> (agg_store a m, []) | Some r \<Rightarrow> maybeAggregate fp (sub_run rt 0) (agg_store a m) r)"
    by (cases m) (simp_all add: aggregator_receive_def agg_store_def update_counts_runtime [OF map_runtime_sub [OF assms]])
  then show ?thesis
    by (simp add: maybeAggregate_eq [OF map_runtime_sub [OF assms]] agg_close_def agg_store_facts(1) Let_def
        split: option.split)
qed

lemma agg_store_untouched:
  "touched m \<noteq> Some r \<Longrightarrow> fmlookup (expected (agg_store a m)) r = fmlookup (expected a) r \<and>
     round_updates (agg_store a m) r = round_updates a r"
  by (cases m) (auto simp: agg_store_def)

lemma agg_close_other:
  "r' \<noteq> r \<Longrightarrow> fmlookup (expected (agg_close a r')) r = fmlookup (expected a) r \<and> round_updates (agg_close a r') r = round_updates a r"
  by (simp add: agg_close_def round_updates_def)

lemma is_model_message: "is_model r Coord (model_message fp r us)"
  by (simp add: is_model_def model_message_def Let_def)


text \<open>A round the aggregator does not close: nothing is sent for it, and it stays open.\<close>

lemma aggregator_quiet:
  assumes "map_runtime rt" and "aggregator_receive fp rt a m = (a', out)" and "out = [] \<or> touched m \<noteq> Some r"
  shows "fmlookup (expected a') r = fmlookup (expected (agg_store a m)) r"
    and "round_updates a' r = round_updates (agg_store a m) r" and "contrib_out g r out = {#}"
    and "touched m = Some r \<Longrightarrow> fmlookup (expected (agg_store a m)) r = Some n \<Longrightarrow>
      int64_gt n (of_nat (length (round_updates (agg_store a m) r)))"
  using assms(2,3) unfolding aggregator_receive_touched [OF assms(1)]
  by (auto simp: Let_def agg_close_other split: option.splits if_splits)

lemma aggregator_stays_open:
  fixes a :: "node aggregator_actor"
  assumes "map_runtime rt" and "aggregator_receive fp rt a m = (a', out)" and "out = [] \<or> touched m \<noteq> Some r"
    and exp: "\<And>n. fmlookup (expected (agg_store a m)) r = Some n \<Longrightarrow> n = of_nat w"
    and len: "length (round_updates (agg_store a m) r) \<le> w" and "int w \<le> int64_max"
    and opened: "is_trigger r Agg m \<or> fmlookup (expected a) r = Some (of_nat w) \<and> length (round_updates a r) < w"
  shows "fmlookup (expected (agg_store a m)) r = Some (of_nat w) \<and> length (round_updates (agg_store a m) r) < w"
proof (cases "touched m = Some r")
  case True
  then have some: "fmlookup (expected (agg_store a m)) r \<noteq> None"
    using opened by (cases m) (auto simp: is_trigger_def agg_store_def)
  then obtain n where n: "fmlookup (expected (agg_store a m)) r = Some n" by blast
  have "int64_gt n (of_nat (length (round_updates (agg_store a m) r)))"
    by (rule aggregator_quiet(4) [OF assms(1-3) True n])
  then show ?thesis using len assms(6) exp [OF n] n by (simp add: int64_gt_def sint_of_nat)
next
  case False
  then have "\<not> is_trigger r Agg m" by (cases m) (auto simp: is_trigger_def)
  then show ?thesis using opened agg_store_untouched [OF False, of a] by simp
qed

lemma aggregator_closes:
  assumes "map_runtime rt" and "aggregator_receive fp rt a m = (a', out)" and "\<not> (out = [] \<or> touched m \<noteq> Some r)"
  obtains line where "out = [SendRetry (a_Coordinator a) (model_message fp r (round_updates (agg_store a m) r)) line]"
  using assms(2,3) unfolding aggregator_receive_touched [OF assms(1)]
  by (auto simp: Let_def split: option.splits if_splits)

lemma gathering_take_agg:
  assumes bound: "fed_bound g" and k: "actors_ok g k s" and t_ok: "actors_ok g k' t"
    and take: "outbox s Agg = []" "boxes s Agg = m # ms" "boxes t = (boxes s)(Agg := ms)" "outbox t = (outbox s)(Agg := out)"
    and rt: "map_runtime rt" and recv: "aggregator_receive (fc_fpu g) rt (agg s) m = (agg t, out)"
    and full: "size (full_round g j) = fc_workers g" and gather: "gathering g j s"
  shows "gathering g j t \<or> finishing j t"
proof -
  define r :: int64 where "r = of_nat j"
  let ?b = "agg_store (agg s) m"
  show ?thesis
  proof (cases "out = [] \<or> touched m \<noteq> Some r")
    case False
    obtain line where "out = [SendRetry (a_Coordinator (agg s)) (model_message (fc_fpu g) r (round_updates ?b r)) line]"
      by (rule aggregator_closes [OF rt recv False])
    then have "SendRetry Coord (model_message (fc_fpu g) r (round_updates ?b r)) line \<in> set (outbox t Agg)"
      using k by (simp add: take(4) actors_ok_def)
    then show ?thesis using flying_out is_model_message unfolding finishing_def r_def [symmetric] by blast
  next
    case True
    note same = aggregator_quiet [OF rt recv True]
    have "in_flight g r t + (contrib g r Agg m + mset (round_updates (agg s) r)) = in_flight g r s + (contrib g r Agg m + mset (round_updates (agg s) r))"
      using flight_take_sum [OF _ take, of g r] same(2,3) agg_store_facts(2) [of "agg s" m r g] by (simp add: add.assoc nodes_def)
    then have flight: "in_flight g r t = full_round g j" using gather by (simp add: gathering_def r_def)
    have "\<forall>r e. fmlookup (expected (agg t)) r = Some e \<longrightarrow> e = of_nat (fc_workers g)"
      using t_ok unfolding actors_ok_def by blast
    then have exp: "n = of_nat (fc_workers g)" if "fmlookup (expected ?b) r = Some n" for n
      using that same(1) by auto
    have "mset (round_updates ?b r) \<subseteq># full_round g j"
      using in_flight_agg [OF take(2), of r g] gather by (simp add: r_def gathering_def)
    then have len: "length (round_updates ?b r) \<le> fc_workers g" using size_mset_mono full by fastforce
    have W: "int (fc_workers g) \<le> int64_max" using bound by (simp add: fed_bound_def)
    have "flying (is_trigger r) t \<or> is_trigger r Agg m \<or>
        fmlookup (expected (agg s)) r = Some (of_nat (fc_workers g)) \<and> length (round_updates (agg s) r) < fc_workers g"
      using gather flying_take [OF take] by (auto simp: gathering_def r_def)
    then have "flying (is_trigger r) t \<or> fmlookup (expected ?b) r = Some (of_nat (fc_workers g)) \<and> length (round_updates ?b r) < fc_workers g"
      using aggregator_stays_open [OF rt recv True exp len W] by blast
    then show ?thesis using flight same(1,2) by (simp add: gathering_def r_def [symmetric])
  qed
qed

lemma alive_take_agg:
  assumes bound: "fed_bound g" and k: "actors_ok g k s" "messages_ok g k s" and t_ok: "actors_ok g k' t"
    and "outbox s Agg = []" and box: "boxes s Agg = m # ms" and "map_runtime rt"
    and t: "t = fed_handle g rt Agg m (s\<lparr>boxes := (boxes s)(Agg := ms)\<rparr>)"
    and alive: "round_alive g j s"
  shows "round_alive g j t"
proof -
  obtain a' out where recv: "aggregator_receive (fc_fpu g) rt (agg s) m = (a', out)" by fastforce
  have t_eq: "boxes t = (boxes s)(Agg := ms)" "outbox t = (outbox s)(Agg := out)" "results t = results s" "agg t = a'"
    by (simp_all add: t fed_handle_def recv)
  note take = assms(5) box t_eq(1,2)
  have "finishing j s \<Longrightarrow> finishing j t"
    using flying_take [OF take, of "is_model (of_nat j)"] resulting_take [OF take(1,4) t_eq(3), of "of_nat j"]
    unfolding finishing_def by (auto simp: is_model_def)
  then show ?thesis
    using alive gathering_take_agg [OF bound k(1) t_ok take assms(7) recv [folded t_eq(4)]] unfolding round_alive_def by blast
qed

lemma contrib_Coord: "contrib g r Coord m = {#}"
  by (cases m) (simp_all add: contrib_def)

text \<open>The coordinator starts a round: the new round is gathering, the others are as they were.\<close>

lemma alive_start:
  assumes bound: "fed_bound g" and k: "actors_ok g k s" "messages_ok g k s" "flight_ok g k s" and t_ok: "actors_ok g k' t"
    and box: "outbox s Coord = []" "boxes s Coord = StartTraining ps # ms" and len: "length ps = fc_workers g"
    and recv: "coordinator_receive (fc_fpu g) rt (coord s) (StartTraining ps) = (coord t, out)"
    and t: "boxes t = (boxes s)(Coord := ms)" "outbox t = (outbox s)(Coord := out)" "results t = results s" "agg t = agg s"
    and alive: "\<forall>j\<in>{1..k}. round_alive g j s" and j: "j \<in> {1..k'}"
  shows "round_alive g j t"
proof -
  note take = take_parts(1) [OF k(2) box(2)] box t and start = actors_start [OF k(1) box(2) len]
  have lt: "k < length (fed_rounds g)" by (rule start(1))
  have out: "out = round_effects (coord s) (fc_workers g) (Suc k) ps" and c: "coord t = (coord s)\<lparr>roundID := of_nat (Suc k)\<rparr>"
    using recv start(4) by simp_all
  have k'_le: "k' \<le> length (fed_rounds g)" and k'_id: "roundID (coord t) = of_nat k'" using t_ok by (simp_all add: actors_ok_def)
  have bounds: "int (length (fed_rounds g)) \<le> int64_max" using bound fed_rounds_le [of g] by (simp add: fed_bound_def)
  have "(of_nat k' :: int64) = of_nat (Suc k)" using k'_id by (simp only: c) simp
  then have k': "k' = Suc k" using of_nat_int64_inj [of k' "Suc k"] lt k'_le bounds by simp
  have inj: "(of_nat (Suc k) :: int64) = of_nat j \<longleftrightarrow> j = Suc k"
    using of_nat_int64_inj [of "Suc k" j] j lt k'_le bounds by auto
  note contrib = contrib_round_effects [OF start(3,2), of _ "fc_workers g", folded out]
  show ?thesis
  proof (cases "j = Suc k")
    case False
    then have "round_alive g j s" using alive j k' by simp
    then show ?thesis using False inj contrib [of "of_nat j"]
      by (intro alive_take [OF take]) (simp_all add: contrib_Coord is_trigger_def is_model_def)
  next
    case True
    have "in_flight g (of_nat j) s \<subseteq># (if j \<le> k then full_round g j else {#})"
      using k(3) True lt unfolding flight_ok_def by (intro bspec [where x = j]) auto
    then have "in_flight g (of_nat j) s = {#}" using True by simp
    then have "in_flight g (of_nat j) t = full_round g j"
      using flight_take_sum [OF take(1-5), of "of_nat j"] contrib [of "of_nat j"] True t(4) by (simp add: contrib_Coord)
    moreover have "flying (is_trigger (of_nat j)) t"
      by (rule flying_out [of Agg "AggregateTrigger \<lparr>at_RoundId = of_nat (Suc k), at_ExpectedWorkers = of_nat (fc_workers g)\<rparr>"
          "TriggerSend (CoordinatorID (coord s)) (of_nat (Suc k))" t Coord]) (simp_all add: t(2) out round_effects_def is_trigger_def True)
    ultimately show ?thesis by (simp add: round_alive_def gathering_def)
  qed
qed

lemma evaluate_results:
  assumes "msg_ok g k (AggregatedModel am)" and "map_runtime rt" and "has_results c"
    and "is_model r Coord (AggregatedModel am)"
  shows "\<exists>x. Result x \<in> set (evaluate (fc_fpu g) rt c am) \<and> rr_RoundID x = r"
proof -
  obtain i us where i: "AggregatedModel am = model_message (fc_fpu g) (of_nat i) us" using assms(1) by (auto simp: msg_ok_def)
  then have "r = of_nat i" using assms(4) by (simp add: is_model_def model_message_def Let_def)
  then show ?thesis using evaluate_model [OF assms(2) i [symmetric], of c] assms(3) by auto
qed

lemma alive_take_coord:
  assumes bound: "fed_bound g" and k: "actors_ok g k s" "messages_ok g k s" "flight_ok g k s" and t_ok: "actors_ok g k' t"
    and "outbox s Coord = []" and box: "boxes s Coord = m # ms" and rt: "map_runtime rt"
    and t: "t = fed_handle g rt Coord m (s\<lparr>boxes := (boxes s)(Coord := ms)\<rparr>)"
    and alive: "\<forall>j\<in>{1..k}. round_alive g j s" and j: "j \<in> {1..k'}"
  shows "round_alive g j t"
proof -
  note parts = take_parts [OF k(2) box]
  obtain c out where recv: "coordinator_receive (fc_fpu g) rt (coord s) m = (c, out)" by fastforce
  have t_eq: "boxes t = (boxes s)(Coord := ms)" "outbox t = (outbox s)(Coord := out)" "results t = results s" "agg t = agg s" "coord t = c"
    by (simp_all add: t fed_handle_def recv)
  have k': "k' = started t" "k = started s" using started_actors [OF bound] t_ok k(1) by simp_all
  have stay: ?thesis if "contrib_out g (of_nat j) out = {#}" "is_model (of_nat j) Coord m \<Longrightarrow> resulting (of_nat j) t" "c = coord s"
  proof (rule alive_take [OF parts(1) assms(6) box t_eq(1-4)])
    show "round_alive g j s" using alive j that(3) k' by (simp add: started_def t_eq(5))
  qed (use that in \<open>simp_all add: contrib_Coord is_trigger_def\<close>)
  show ?thesis
  proof (cases m)
    case (StartTraining ps)
    show ?thesis
    proof (cases "length ps = fc_workers g")
      case True
      show ?thesis
        using alive_start [OF bound k t_ok assms(6) box [unfolded StartTraining] True _ t_eq(1-4) alive j] recv
        by (simp add: StartTraining t_eq(5))
    next
      case False
      then show ?thesis using recv k(1)
        by (intro stay) (auto simp: StartTraining coordinator_receive_def startRound_def actors_ok_def fed_coordinator_def is_model_def)
    qed
  next
    case (AggregatedModel am)
    then have eq: "c = coord s" "out = evaluate (fc_fpu g) rt (coord s) am" using recv by (auto simp: coordinator_receive_def)
    have "has_results (coord s)" using k(1) by (simp add: actors_ok_def fed_coordinator_def)
    then have "resulting (of_nat j) t" if "is_model (of_nat j) Coord m"
      using evaluate_results [of g k am rt "coord s" "of_nat j"] parts(2) rt that
      by (fastforce simp: AggregatedModel resulting_def t_eq(2) eq(2))
    then show ?thesis using eq evaluate_effects(2) [OF k(1) _ rt, of am] parts(2) by (intro stay) (simp_all add: AggregatedModel)
  qed (use recv in \<open>auto simp: coordinator_receive_def is_model_def intro!: stay\<close>)
qed

lemma alive_take_worker:
  assumes k: "messages_ok g k s" and out: "outbox s (Work i) = []" and box: "boxes s (Work i) = m # ms"
    and rt: "map_runtime rt" and t: "t = fed_handle g rt (Work i) m (s\<lparr>boxes := (boxes s)(Work i := ms)\<rparr>)"
    and alive: "round_alive g j s"
  shows "round_alive g j t"
  using alive
  by (rule alive_take [OF take_parts(1) [OF k box] out box, rotated -1, where out = "worker_receive (fc_files g i) rt (fed_worker g i) m"])
    (simp_all add: t fed_handle_def contrib_worker rt is_trigger_def is_model_def)

text \<open>The invariant of runs without losses: every started round is alive.\<close>

definition live_inv :: "fed_config \<Rightarrow> fed_net \<Rightarrow> bool" where
  "live_inv g s \<longleftrightarrow> fed_inv g s \<and> (\<forall>j\<in>{1..started s}. round_alive g j s)"

lemma alive_send:
  assumes "messages_ok g k s" and "outbox s v = SendRetry to m line # es" and "round_alive g j s"
    and t: "t = s\<lparr>boxes := (boxes s)(to := boxes s to @ [m]), outbox := (outbox s)(v := es)\<rparr>"
  shows "round_alive g j t"
proof (rule alive_effect [OF _ _ _ _ assms(3)])
  show "in_flight g (of_nat j) t = in_flight g (of_nat j) s"
    by (rule flight_send_eq [OF send_target [OF assms(1,2)] assms(2)]) (simp_all add: t)
  show "agg t = agg s" by (simp add: t)
  show "\<And>P. flying P s \<Longrightarrow> flying P t" unfolding t by (rule flying_sent [OF assms(2)])
  have "Result x \<in> set (outbox s u) \<Longrightarrow> Result x \<in> set (outbox t u) \<or> x \<in> set (results t)" for x u
    using assms(2) by (auto simp: t split: if_splits)
  then show "resulting r s \<Longrightarrow> resulting r t" for r by (rule resulting_mono) (simp_all add: t)
qed

lemma alive_skip:
  assumes "outbox s v = e # es" and "\<And>to m line. e \<noteq> SendRetry to m line" and "round_alive g j s"
    and eq: "boxes t = boxes s" "outbox t = (outbox s)(v := es)" "agg t = agg s"
    and res: "set (results s) \<subseteq> set (results t)" "\<And>x. e = Result x \<Longrightarrow> x \<in> set (results t)"
  shows "round_alive g j t"
proof (rule alive_effect [OF _ eq(3) _ _ assms(3)])
  show "in_flight g (of_nat j) t = in_flight g (of_nat j) s" by (rule flight_skip_eq [OF assms(1,2) eq])
  show "\<And>P. flying P s \<Longrightarrow> flying P t" by (rule flying_other [OF assms(1,2) _ eq(1,2)])
  have "Result x \<in> set (outbox s u) \<Longrightarrow> Result x \<in> set (outbox t u) \<or> x \<in> set (results t)" for x u
    using assms(1) eq(2) res(2) by (auto split: if_splits)
  then show "resulting r s \<Longrightarrow> resulting r t" for r by (rule resulting_mono [OF _ res(1)])
qed

lemma started_unless_coord: "v \<noteq> Coord \<Longrightarrow> started (fed_handle g rt v m s) = started s"
  by (cases v) (simp_all add: started_def fed_handle_def split: prod.split)

lemma live_inv_step:
  assumes "fed_bound g" and "live_inv g s" and "fed_live g s t"
  shows "live_inv g t"
proof -
  have inv: "fed_inv g s" "fed_inv g t"
    using assms fed_inv_step [OF fed_live_step [OF assms(3)]] by (simp_all add: live_inv_def)
  obtain k where k: "actors_ok g k s" "messages_ok g k s" "flight_ok g k s" using inv(1) by (auto simp: fed_inv_def)
  obtain k' where k': "actors_ok g k' t" using inv(2) by (auto simp: fed_inv_def)
  have started: "started s = k" "started t = k'" using started_actors [OF assms(1)] k(1) k' by simp_all
  have alive: "\<forall>j\<in>{1..k}. round_alive g j s" using assms(2) started by (simp add: live_inv_def)
  have same: "started t = started s \<Longrightarrow> j \<in> {1..k'} \<Longrightarrow> round_alive g j s" for j
    using alive started by simp
  have "round_alive g j t" if j: "j \<in> {1..k'}" for j
    using assms(3)
  proof cases
    case (live_take v m ms rt)
    show ?thesis
    proof (cases "v = Coord")
      case True
      then show ?thesis using alive_take_coord [OF assms(1) k k'] live_take alive j by blast
    next
      case False
      then have "round_alive g j s" using started_unless_coord [OF False] by (intro same j) (simp add: live_take(1) started_def)
      then show ?thesis using alive_take_agg [OF assms(1) k(1,2) k'] alive_take_worker [OF k(2)] live_take False
        by (cases v) blast+
    qed
  next
    case (live_sent v to m line es)
    then show ?thesis using j by (intro alive_send [OF k(2) _ same]) (simp_all add: started_def)
  next
    case (live_logged v line es)
    show ?thesis using j by (intro alive_skip [OF live_logged(2) _ same]) (simp_all add: live_logged(1) started_def)
  next
    case (live_result v x es)
    show ?thesis using j by (intro alive_skip [OF live_result(2) _ same]) (auto simp: live_result(1) started_def)
  qed
  then show ?thesis using inv(2) started by (simp add: live_inv_def)
qed

lemma live_inv_start: "live_inv g (fed_start g)"
  by (simp add: live_inv_def fed_inv_start started_def) (simp add: fed_start_def fed_coordinator_def)

interpretation fed_lossless: safe_system "\<lambda>s. s = fed_start g" "fed_live g" "\<lambda>s. fed_bound g \<longrightarrow> live_inv g s" for g
  by unfold_locales (auto simp: live_inv_start intro: live_inv_step)


section \<open>Completion\<close>

lemma full_round_size:
  assumes "\<And>i. i < fc_workers g \<Longrightarrow> \<exists>recs. Load (fc_files g i) (fed_rounds g ! (j - 1) ! i) = Inr recs"
  shows "size (full_round g j) = fc_workers g"
proof -
  have "size (load_counts g i (fed_rounds g ! (j - 1) ! i)) = 1" if "i < fc_workers g" for i
    using assms [OF that] by (auto simp: load_counts_def)
  then have "(\<Sum>i<fc_workers g. size (load_counts g i (fed_rounds g ! (j - 1) ! i))) = (\<Sum>i<fc_workers g. 1)"
    by (intro sum.cong) auto
  then show ?thesis by (simp add: full_round_def size_sum_lessThan)
qed

lemma stuck_completes:
  assumes "fed_bound g" and "reaches (\<lambda>s. s = fed_start g) (fed_live g) s" and "\<nexists>t. fed_live g s t"
    and "1 \<le> j" and "j \<le> length (fed_rounds g)"
    and "\<And>i. i < fc_workers g \<Longrightarrow> \<exists>recs. Load (fc_files g i) (fed_rounds g ! (j - 1) ! i) = Inr recs"
  shows "\<exists>x\<in>set (results s). rr_RoundID x = of_nat j"
proof -
  have live: "live_inv g s" using fed_lossless.reaches_good [OF assms(2)] assms(1) by blast
  then obtain k where k: "actors_ok g k s" by (auto simp: live_inv_def fed_inv_def)
  note empty = fed_live_stuck [OF assms(3)]
  have "drop k (fed_rounds g) = []" using k empty(1) by (simp add: actors_ok_def)
  then have "started s = length (fed_rounds g)" using k started_actors [OF assms(1) k] by (simp add: actors_ok_def)
  then have "round_alive g j s" using live assms(4,5) by (simp add: live_inv_def)
  then have alive: "gathering g j s \<or> finishing j s"
    using full_round_size [of g j] assms(6) unfolding round_alive_def by blast
  have quiet: "\<not> flying P s" for P using empty by (simp add: flying_def)
  have "\<not> gathering g j s"
  proof
    assume gather: "gathering g j s"
    have "in_flight g (of_nat j) s = mset (round_updates (agg s) (of_nat j))"
      by (simp add: in_flight_def empty)
    then have "length (round_updates (agg s) (of_nat j)) = fc_workers g"
      using gather full_round_size [of g j] assms(6) unfolding gathering_def by (metis size_mset)
    then show False using gather quiet by (simp add: gathering_def)
  qed
  then have "resulting (of_nat j) s" using alive quiet by (auto simp: finishing_def)
  then show ?thesis using empty by (simp add: resulting_def)
qed

text \<open>Every run can be continued to one that has come to its end.\<close>

interpretation live_run: terminating_system
  "\<lambda>s. fed_bound g \<and> s = fed_start g" "fed_live g" "\<lambda>s. fed_bound g \<and> live_inv g s" "net_weight g" for g
proof unfold_locales
  show "net_weight g t < net_weight g s" if "fed_bound g \<and> live_inv g s" "fed_live g s t" for s t
    using fed_step_weight [OF _ fed_live_step [OF that(2)]] that(1) by (simp add: live_inv_def)
qed (auto simp: live_inv_start intro: live_inv_step)

lemma fed_maximal:
  assumes "fed_bound g"
  obtains s where "reaches (\<lambda>s. s = fed_start g) (fed_live g) s" and "\<nexists>t. fed_live g s t"
proof -
  have "fed_bound g \<and> live_inv g (fed_start g)" using assms live_inv_start by blast
  from live_run.run_ends [OF this] obtain t where t: "(fed_live g)\<^sup>*\<^sup>* (fed_start g) t" "\<nexists>u. fed_live g t u" by blast
  have "reaches (\<lambda>s. s = fed_start g) (fed_live g) t" by (rule reaches_rtranclp [OF t(1)]) (simp add: reaches_start)
  then show thesis using that t(2) by blast
qed

lemma reaches_live: "reaches S (fed_live g) s \<Longrightarrow> reaches S (fed_step g) s"
  by (induction rule: reaches.induct) (auto intro: reaches.intros fed_live_step)

lemma fed_result_exists:
  assumes "fed_bound g" and "1 \<le> j" and "j \<le> length (fed_rounds g)"
    and "\<And>i. i < fc_workers g \<Longrightarrow> \<exists>recs. Load (fc_files g i) (fed_rounds g ! (j - 1) ! i) = Inr recs"
  obtains s x where "fed_reachable g s" and "x \<in> set (results s)" and "rr_RoundID x = of_nat j"
proof -
  obtain s where s: "reaches (\<lambda>s. s = fed_start g) (fed_live g) s" "\<nexists>t. fed_live g s t" by (rule fed_maximal [OF assms(1)])
  then obtain x where "x \<in> set (results s)" "rr_RoundID x = of_nat j" using stuck_completes [OF assms(1) s assms(2,3,4)] by blast
  then show thesis using that reaches_live [OF s(1)] by blast
qed

section \<open>Properties\<close>

text \<open>C13: Federated training terminates: whatever the actors' files, the interleaving and the losses, a run of
the network takes at most 7 + 8n steps for each training request, with n workers.\<close>

theorem fed_terminates:
  assumes "fed_bound g" and "(fed_step g ^^ m) (fed_start g) s"
  shows "m \<le> length (fc_starts g) * (7 + 8 * fc_workers g)"
  using fed_run.run_weight [of g "fed_start g" m s] assms by (simp add: net_weight_start fed_inv_start)

text \<open>A configuration with two workers and one round, on one small file.\<close>

definition demo_config :: fed_config where
  "demo_config = \<lparr>fc_workers = 2, fc_fpu = exact_fpu, fc_files = (\<lambda>_. snd (Save sample_fs sample_records ''w'')),
     fc_worker_id = itoa, fc_test = sample_records, fc_starts = [[''w'', ''w'']]\<rparr>"

lemma demo_config_facts:
  "fed_bound demo_config" "fed_rounds demo_config = [[''w'', ''w'']]" "fc_workers demo_config = 2"
  "i < 2 \<Longrightarrow> Load (fc_files demo_config i) ([''w'', ''w''] ! i) = Inr sample_records"
proof -
  have "Load (snd (Save sample_fs sample_records ''w'')) ''w'' = Inr sample_records"
    by (rule Load_save_bytes [OF sample_savable]) (simp add: Save_def sample_fs_def)
  moreover have "i < 2 \<Longrightarrow> [''w'', ''w''] ! i = ''w''" by (cases i) (auto simp: less_Suc_eq numeral_2_eq_2)
  ultimately show "i < 2 \<Longrightarrow> Load (fc_files demo_config i) ([''w'', ''w''] ! i) = Inr sample_records"
    by (simp add: demo_config_def)
qed (simp_all add: demo_config_def fed_bound_def fed_rounds_def int64_max_def)

theorem fed_terminates_witness: "\<exists>s. (fed_step demo_config ^^ 1) (fed_start demo_config) s \<and> 1 \<le> length (fc_starts demo_config) * (7 + 8 * fc_workers demo_config)"
proof -
  have "outbox (fed_start demo_config) Coord = []" "boxes (fed_start demo_config) Coord = [StartTraining [''w'', ''w'']]"
    by (simp_all add: fed_start_def demo_config_def)
  then obtain s where s: "(fed_step demo_config ^^ 1) (fed_start demo_config) s"
    using fed_take [of "fed_start demo_config" Coord _ "[]" sorted_runtime] by fastforce
  then show ?thesis using fed_terminates [OF demo_config_facts(1) s] by blast
qed

text \<open>Federated training completes: when no send is lost, a run that cannot go on has reported a result for
every started round whose partitions could all be loaded (the others never report one).\<close>

theorem fed_completes:
  assumes "fed_bound g" and "reaches (\<lambda>s. s = fed_start g) (fed_live g) s" and "\<nexists>t. fed_live g s t"
    and "1 \<le> j" and "j \<le> length (fed_rounds g)"
    and "\<And>i. i < fc_workers g \<Longrightarrow> \<exists>recs. Load (fc_files g i) (fed_rounds g ! (j - 1) ! i) = Inr recs"
  shows "\<exists>x\<in>set (results s). rr_RoundID x = of_nat j"
  using assms by (rule stuck_completes)

theorem fed_completes_witness:
  "\<exists>s. reaches (\<lambda>s. s = fed_start demo_config) (fed_live demo_config) s \<and> (\<nexists>t. fed_live demo_config s t) \<and>
     (\<exists>x\<in>set (results s). rr_RoundID x = of_nat 1)"
proof -
  obtain s where s: "reaches (\<lambda>s. s = fed_start demo_config) (fed_live demo_config) s" "\<nexists>t. fed_live demo_config s t"
    by (rule fed_maximal [OF demo_config_facts(1)])
  have "\<exists>x\<in>set (results s). rr_RoundID x = of_nat 1"
    by (rule fed_completes [OF demo_config_facts(1) s]) (simp_all add: demo_config_facts)
  then show ?thesis using s by blast
qed

text \<open>C1: Every result of a federated round is the centralized one: in any interleaving of coordinator,
aggregator and workers, for any number of started rounds and with any sends lost (none delivered twice), a result the coordinator
reports carries the id of a started round, all its workers could load their partitions, and its metrics are
those of the model trained on all their records at one place.\<close>

theorem fed_result_centralized:
  assumes "fed_bound g" and "fed_reachable g s" and "x \<in> set (results s)"
  shows "\<exists>j recs rt. 1 \<le> j \<and> j \<le> length (fed_rounds g) \<and> rr_RoundID x = of_nat j \<and> length recs = fc_workers g \<and>
    map (\<lambda>i. Load (fc_files g i) (fed_rounds g ! (j - 1) ! i)) [0..<fc_workers g] = map Inr recs \<and> map_runtime rt \<and>
    rr_Metrics x = Evaluate (fc_fpu g) rt (Aggregate (fc_fpu g) sorted_runtime [CountLocal (concat recs)]) (fc_test g)"
  by (rule result_centralized [OF assms])

theorem fed_result_centralized_witness:
  "\<exists>s x j recs rt. fed_reachable demo_config s \<and> x \<in> set (results s) \<and>
    1 \<le> j \<and> j \<le> length (fed_rounds demo_config) \<and> rr_RoundID x = of_nat j \<and> length recs = fc_workers demo_config \<and>
    map (\<lambda>i. Load (fc_files demo_config i) (fed_rounds demo_config ! (j - 1) ! i)) [0..<fc_workers demo_config] = map Inr recs \<and> map_runtime rt \<and>
    rr_Metrics x = Evaluate (fc_fpu demo_config) rt (Aggregate (fc_fpu demo_config) sorted_runtime [CountLocal (concat recs)]) (fc_test demo_config)"
proof -
  obtain s x where s: "fed_reachable demo_config s" "x \<in> set (results s)"
    by (rule fed_result_exists [of demo_config 1]) (use demo_config_facts in \<open>auto simp del: One_nat_def\<close>)
  from fed_result_centralized [OF demo_config_facts(1) s] s show ?thesis by blast
qed

end
