(* ===== verification/FedBounded.thy ===== *)
theory FedBounded
  imports FedLive
begin

text \<open>
  Federated rounds over bounded mailboxes and a bounded channel for the results.  A send to a full mailbox blocks the sender in the middle of
  its handler (\<^verbatim>\<open>enqueue\<close> waits for buffer space), so actors that send to each other in
  a cycle could wait for each other for ever.  The coordinator and the aggregator are such a cycle; what
  keeps it from closing is that no more messages are on their way to the coordinator than there were
  training requests.
\<close>

section \<open>The network\<close>

text \<open>
  \<open>cap\<close> are the sizes of the mailboxes, \<open>slots\<close> that of the channel for the results (1 in both programs).
  Both kinds of send block when there is no room.  Nobody reads the results, the worst case for the coordinator:
  a driver that reads them makes room.
\<close>

inductive fed_bounded :: "fed_config \<Rightarrow> (node \<Rightarrow> nat) \<Rightarrow> nat \<Rightarrow> fed_net \<Rightarrow> fed_net \<Rightarrow> bool" for g cap slots where
  bounded_take: "outbox s v = [] \<Longrightarrow> boxes s v = m # ms \<Longrightarrow> map_runtime rt \<Longrightarrow>
    fed_bounded g cap slots s (fed_handle g rt v m (s\<lparr>boxes := (boxes s)(v := ms)\<rparr>))"
| bounded_sent: "outbox s v = SendRetry to m line # es \<Longrightarrow> length (boxes s to) < cap to \<Longrightarrow>
    fed_bounded g cap slots s (s\<lparr>boxes := (boxes s)(to := boxes s to @ [m]), outbox := (outbox s)(v := es)\<rparr>)"
| bounded_logged: "outbox s v = Log line # es \<Longrightarrow> fed_bounded g cap slots s (s\<lparr>outbox := (outbox s)(v := es)\<rparr>)"
| bounded_result: "outbox s v = Result r # es \<Longrightarrow> length (results s) < slots \<Longrightarrow>
    fed_bounded g cap slots s (s\<lparr>results := results s @ [r], outbox := (outbox s)(v := es)\<rparr>)"

text \<open>A step of the bounded network is one of the unbounded network that waits for no mailbox.\<close>

lemma fed_bounded_live: "fed_bounded g cap slots s t \<Longrightarrow> fed_live g s t"
  by (induction rule: fed_bounded.induct) (auto intro: fed_live.intros)

lemma fed_live_bounded:
  "fed_live g s t \<Longrightarrow> fed_bounded g cap slots s t \<or>
    (\<exists>v to m line es. outbox s v = SendRetry to m line # es \<and> cap to \<le> length (boxes s to)) \<or>
    (\<exists>v r es. outbox s v = Result r # es \<and> slots \<le> length (results s))"
  by (induction rule: fed_live.induct) (metis fed_bounded.intros not_le)+

text \<open>A coordinator whose result finds no room never goes on.\<close>

lemma full_channel_blocks:
  assumes "(fed_bounded g cap slots)\<^sup>*\<^sup>* s t" and "outbox s v = Result r # es" and "slots \<le> length (results s)"
  shows "outbox t v = Result r # es"
proof -
  have "outbox t v = Result r # es \<and> slots \<le> length (results t)" using assms(1)
  proof (induction rule: rtranclp_induct)
    case (step t u)
    from step.hyps(2) show ?case
    proof cases
      case (bounded_take w m ms rt)
      then have "w \<noteq> v" using step.IH by auto
      then show ?thesis using bounded_take step.IH by simp
    qed (use step.IH in auto)
  qed (use assms(2,3) in simp)
  then show ?thesis by simp
qed

section \<open>Who sends to whom\<close>

fun may_send :: "node \<Rightarrow> node \<Rightarrow> bool" where
  "may_send Coord to \<longleftrightarrow> to \<noteq> Coord"
| "may_send Agg to \<longleftrightarrow> to = Coord"
| "may_send (Work i) to \<longleftrightarrow> to = Agg"

definition routed :: "fed_net \<Rightarrow> bool" where
  "routed s \<longleftrightarrow> (\<forall>v to m line. SendRetry to m line \<in> set (outbox s v) \<longrightarrow> may_send v to)"

text \<open>The references the actors hold.\<close>

definition wired :: "fed_config \<Rightarrow> 'z fed_net_scheme \<Rightarrow> bool" where
  "wired g s \<longleftrightarrow> c_Aggregator (coord s) = Agg \<and> Workers (coord s) = map Work [0..<fc_workers g] \<and> a_Coordinator (agg s) = Coord"

lemma actors_wired: "actors_ok g k s \<Longrightarrow> wired g (s\<lparr>boxes := b\<rparr>)"
  by (simp add: actors_ok_def wired_def fed_coordinator_def)

lemma sends_coordinator:
  assumes "SendRetry to m line \<in> set (snd (coordinator_receive fp rt c msg))"
    and "c_Aggregator c = Agg" and "Workers c = map Work [0..<n]"
  shows "to \<noteq> Coord"
  using assms
  by (cases msg) (auto simp: coordinator_receive_def startRound_def train_requests_def evaluate_def Let_def split: if_splits)

lemma sends_aggregator:
  assumes "aggregator_receive fp rt a msg = (a', out)" and "map_runtime rt" and "SendRetry to m line \<in> set out"
  shows "to = a_Coordinator a"
  using assms(2,1,3) by (cases rule: aggregator_receive_cases) auto

lemma sends_worker: "SendRetry to m line \<in> set (worker_receive fs rt w msg) \<Longrightarrow> to = w_Aggregator w"
  by (cases msg) (auto simp: worker_receive_def Let_def split: sum.splits)

lemma handler_routes:
  assumes "wired g s" and "map_runtime rt" and "SendRetry to m' line \<in> set (handler_effects g rt v m s)"
  shows "may_send v to"
proof (cases v)
  case Coord
  then show ?thesis
    using assms sends_coordinator [of to m' line "fc_fpu g" rt "coord s" m "fc_workers g"]
    by (simp add: wired_def handler_effects_def)
next
  case Agg
  then show ?thesis
    using assms sends_aggregator [OF _ assms(2), of "fc_fpu g" "agg s" m] by (simp add: wired_def handler_effects_def) (metis prod.collapse)
next
  case (Work i)
  then show ?thesis using assms(3) sends_worker by (fastforce simp: fed_worker_def handler_effects_def)
qed

lemma routed_step:
  assumes "fed_inv g s" and "routed s" and "fed_live g s t"
  shows "routed t"
  using assms(3)
proof cases
  case (live_take v m ms rt)
  obtain k where "actors_ok g k s" using assms(1) by (auto simp: fed_inv_def)
  then show ?thesis using handler_routes [OF actors_wired live_take(4)] assms(2) by (auto simp: routed_def live_take(1))
qed (use assms(2) in \<open>force simp: routed_def split: if_splits\<close>)+

section \<open>The coordinator's mail\<close>

text \<open>
  What can still become a message for the coordinator or a result: its waiting messages, the triggers on
  their way, the rounds the aggregator is waiting for, the models it is sending, and the results reported.
\<close>

definition mail :: "node \<Rightarrow> fl_msg \<Rightarrow> nat" where
  "mail v m = (if v = Coord then 1 else case m of AggregateTrigger t \<Rightarrow> 1 | _ \<Rightarrow> 0)"

definition effect_mail :: "node effect \<Rightarrow> nat" where
  "effect_mail e = (case e of SendRetry to m _ \<Rightarrow> mail to m | Log _ \<Rightarrow> 0 | Result _ \<Rightarrow> 1)"

definition traffic :: "fed_config \<Rightarrow> fed_net \<Rightarrow> nat" where
  "traffic g s = net_sum g mail effect_mail s + fcard (fmdom (expected (agg s))) + length (results s)"

lemma fcard_insert: "fcard (finsert x A) \<le> Suc (fcard A)"
  by (cases "x |\<in>| A") (simp_all add: finsert_absorb fcard_finsert_disjoint)

lemma mail_coordinator:
  assumes "c_Aggregator c = Agg" and "Workers c = map Work [0..<n]"
  shows "sum_list (map effect_mail (snd (coordinator_receive fp rt c m))) \<le> 1"
proof -
  have "sum_list (map effect_mail (train_requests c r ps)) = 0" for r ps
    using assms by (simp add: train_requests_def effect_mail_def mail_def o_def)
  then show ?thesis using assms(1)
    by (cases m) (simp_all add: coordinator_receive_def startRound_def evaluate_def effect_mail_def mail_def Let_def)
qed

lemma mail_aggregator:
  assumes "aggregator_receive fp rt a m = (a', out)" and "map_runtime rt" and "a_Coordinator a = Coord"
  shows "sum_list (map effect_mail out) + fcard (fmdom (expected a')) \<le> mail Agg m + fcard (fmdom (expected a))"
proof -
  have store: "fcard (fmdom (expected (agg_store a m))) \<le> mail Agg m + fcard (fmdom (expected a))"
    by (cases m) (simp_all add: agg_store_def mail_def fcard_insert)
  show ?thesis using assms(2,1)
  proof (cases rule: aggregator_receive_cases)
    case wait
    then show ?thesis using store by simp
  next
    case (complete r n)
    then have "r |\<in>| fmdom (expected (agg_store a m))" by (simp add: fmdomI)
    moreover have "fmdom (expected a') = fmdom (expected (agg_store a m)) |-| {|r|}" using complete(3) by simp
    ultimately have "Suc (fcard (fmdom (expected a'))) = fcard (fmdom (expected (agg_store a m)))"
      by (simp only: fcard_Suc_fminus1)
    then show ?thesis using store complete(4) assms(3) by (simp add: effect_mail_def mail_def)
  qed
qed

lemma mail_worker: "w_Aggregator w = Agg \<Longrightarrow> sum_list (map effect_mail (worker_receive fs rt w m)) = 0"
  by (cases m) (simp_all add: worker_receive_def effect_mail_def mail_def Let_def split: sum.split)

text \<open>One handler makes no more mail for the coordinator than it consumes.\<close>

lemma handle_mail:
  assumes "wired g s" and "map_runtime rt"
  shows "sum_list (map effect_mail (handler_effects g rt v m s)) + fcard (fmdom (expected (agg (fed_handle g rt v m s)))) \<le>
    mail v m + fcard (fmdom (expected (agg s)))"
proof (cases v)
  case Coord
  then show ?thesis
    using assms(1) mail_coordinator [of "coord s" "fc_workers g" "fc_fpu g" rt m]
    by (simp add: mail_def wired_def handler_effects_def)
next
  case Agg
  then show ?thesis
    using assms(1) mail_aggregator [OF prod.collapse [symmetric] assms(2), of "agg s" "fc_fpu g" m]
    by (simp add: wired_def handler_effects_def)
next
  case (Work i)
  moreover have "w_Aggregator (fed_worker g i) = Agg" by (simp add: fed_worker_def)
  ultimately show ?thesis by (simp add: handler_effects_def mail_worker)
qed

lemma traffic_step:
  assumes "fed_inv g s" and "fed_live g s t"
  shows "traffic g t \<le> traffic g s"
proof -
  obtain k where k: "actors_ok g k s" "messages_ok g k s" using assms(1) by (auto simp: fed_inv_def)
  have skip: "traffic g t \<le> traffic g s"
    if "outbox s v = e # es" "boxes t = boxes s" "outbox t = (outbox s)(v := es)" "agg t = agg s"
      "length (results t) \<le> length (results s) + effect_mail e" for v e es
  proof -
    have "v \<in> nodes g" using k(2) that(1) by (force simp: messages_ok_def)
    then show ?thesis using net_sum_skip [OF _ that(1-3), of g mail effect_mail] that(4,5) by (simp add: traffic_def)
  qed
  show ?thesis using assms(2)
  proof cases
    case (live_take v m ms rt)
    let ?u = "s\<lparr>boxes := (boxes s)(v := ms)\<rparr>"
    note wired = actors_wired [OF k(1), of "(boxes s)(v := ms)"]
    have "net_sum g mail effect_mail t + mail v m = net_sum g mail effect_mail s + sum_list (map effect_mail (handler_effects g rt v m ?u))"
      by (rule net_sum_take [OF take_parts(1) [OF k(2) live_take(3)] live_take(2,3)]) (simp_all add: live_take(1))
    then show ?thesis using handle_mail [OF wired live_take(4), of v m] by (simp add: traffic_def live_take(1) split: if_splits)
  next
    case (live_sent v to m line es)
    then show ?thesis
      using net_sum_send [OF send_target [OF k(2) live_sent(2)] live_sent(2), of t mail effect_mail]
      by (simp add: traffic_def effect_mail_def)
  next
    case (live_result v x es)
    then show ?thesis using skip [OF live_result(2)] by (simp add: effect_mail_def)
  qed (use skip in auto)
qed

section \<open>No deadlock\<close>

definition bounded_inv :: "fed_config \<Rightarrow> fed_net \<Rightarrow> bool" where
  "bounded_inv g s \<longleftrightarrow> live_inv g s \<and> routed s \<and> traffic g s \<le> length (fc_starts g)"

text \<open>There are at most as many results as training requests.\<close>

lemma results_bound: "bounded_inv g s \<Longrightarrow> length (results s) \<le> length (fc_starts g)"
  by (simp add: bounded_inv_def traffic_def)

lemma bounded_inv_start: "bounded_inv g (fed_start g)"
proof -
  have "node_sum mail effect_mail (fed_start g) v = (if v = Coord then length (fc_starts g) else 0)" for v
    by (simp add: node_sum_def fed_start_def mail_def o_def sum_list_triv)
  then have "net_sum g mail effect_mail (fed_start g) = length (fc_starts g)" by (simp add: net_sum_def nodes_def)
  moreover have "fcard (fmdom (expected (agg (fed_start g)))) = 0" by (simp add: fed_start_def NewAggregatorActor_def)
  moreover have "routed (fed_start g)" "results (fed_start g) = []" by (simp_all add: routed_def fed_start_def)
  ultimately show ?thesis by (simp add: bounded_inv_def live_inv_start traffic_def)
qed

lemma bounded_inv_step: "fed_bound g \<Longrightarrow> bounded_inv g s \<Longrightarrow> fed_live g s t \<Longrightarrow> bounded_inv g t"
  using live_inv_step routed_step traffic_step le_trans unfolding bounded_inv_def live_inv_def by meson

interpretation fed_mailboxes: terminating_system
  "\<lambda>s. fed_bound g \<and> s = fed_start g" "fed_bounded g cap slots" "\<lambda>s. fed_bound g \<and> bounded_inv g s" "net_weight g" for g cap slots
proof unfold_locales
  show "net_weight g t < net_weight g s" if "fed_bound g \<and> bounded_inv g s" "fed_bounded g cap slots s t" for s t
    using live_run.step_weight [OF _ fed_bounded_live [OF that(2)]] that(1) by (simp add: bounded_inv_def)
qed (auto simp: bounded_inv_start intro: bounded_inv_step fed_bounded_live)

text \<open>The coordinator's mailbox and the model the aggregator is about to send count towards its mail.\<close>

lemma coordinator_mail:
  assumes "outbox s Agg = SendRetry Coord m line # es"
  shows "length (boxes s Coord) < traffic g s"
proof -
  have "node_sum mail effect_mail s Coord + node_sum mail effect_mail s Agg \<le> net_sum g mail effect_mail s"
    unfolding net_sum_def nodes_def by (subst sum.union_disjoint) auto
  moreover have "length (boxes s Coord) \<le> node_sum mail effect_mail s Coord"
    by (simp add: node_sum_def mail_def [abs_def] sum_list_triv)
  moreover have "1 \<le> node_sum mail effect_mail s Agg" using assms by (simp add: node_sum_def effect_mail_def mail_def)
  ultimately show ?thesis by (simp add: traffic_def)
qed

text \<open>So does a result that is about to be reported.\<close>

lemma result_room:
  assumes "outbox s v = Result r # es" and "v \<in> nodes g"
  shows "length (results s) < traffic g s"
proof -
  have "node_sum mail effect_mail s v \<le> net_sum g mail effect_mail s"
    unfolding net_sum_def by (rule member_le_sum [OF assms(2)]) (simp_all add: nodes_def)
  moreover have "1 \<le> node_sum mail effect_mail s v" using assms(1) by (simp add: node_sum_def effect_mail_def)
  ultimately show ?thesis by (simp add: traffic_def)
qed

lemma result_has_room:
  assumes "bounded_inv g s" and "outbox s v = Result r # es"
  shows "length (results s) < length (fc_starts g)"
proof -
  obtain k where "messages_ok g k s" using assms(1) by (auto simp: bounded_inv_def live_inv_def fed_inv_def)
  then have "v \<in> nodes g" using assms(2) by (force simp: messages_ok_def)
  from result_room [OF assms(2) this] show ?thesis using assms(1) by (simp add: bounded_inv_def)
qed

text \<open>
  Who waits for whom: the workers for the aggregator, the aggregator for the coordinator, the coordinator for
  the others.  As the coordinator's mailbox has room for what the aggregator sends, and the channel for the results,
  nobody waits.
\<close>

lemma bounded_stuck:
  assumes inv: "bounded_inv g s" and cap: "\<And>v. 0 < cap v" "length (fc_starts g) \<le> cap Coord" "length (fc_starts g) \<le> slots"
    and stuck: "\<nexists>t. fed_bounded g cap slots s t"
  shows "boxes s v = []" and "outbox s v = []"
proof -
  have blocked: "\<exists>to m line es. outbox s v = SendRetry to m line # es \<and> may_send v to \<and> cap to \<le> length (boxes s to)"
    if ne: "outbox s v \<noteq> []" for v
  proof -
    obtain e es where e: "outbox s v = e # es" using ne by (cases "outbox s v") auto
    have "e \<noteq> Result r" for r
      using result_has_room [OF inv, of v r es] cap(3) stuck e bounded_result [of s v r es slots g cap] by auto
    then obtain to m line where send: "e = SendRetry to m line" using stuck e by (cases e) (auto intro: fed_bounded.intros)
    then have "\<not> length (boxes s to) < cap to" using e stuck by (auto intro: fed_bounded.intros)
    moreover have "SendRetry to m line \<in> set (outbox s v)" by (simp add: e send)
    then have "may_send v to" using inv unfolding bounded_inv_def routed_def by blast
    ultimately show ?thesis using e send by auto
  qed
  have idle: "boxes s v = []" if "outbox s v = []" for v
  proof (rule ccontr)
    assume "boxes s v \<noteq> []"
    then obtain m ms where "boxes s v = m # ms" by (cases "boxes s v") auto
    then show False using stuck bounded_take [OF that] map_runtime_sorted by blast
  qed
  have free: "outbox s v = []" if "\<And>to. may_send v to \<Longrightarrow> boxes s to = []" for v
  proof (rule ccontr)
    assume "outbox s v \<noteq> []"
    then obtain to where "may_send v to" "cap to \<le> length (boxes s to)" using blocked [of v] by metis
    then show False using that [of to] cap(1) [of to] by simp
  qed
  have agg: "outbox s Agg = []"
  proof (rule ccontr)
    assume "outbox s Agg \<noteq> []"
    then obtain m line es where "outbox s Agg = SendRetry Coord m line # es" "cap Coord \<le> length (boxes s Coord)"
      using blocked [of Agg] by auto
    then show False using coordinator_mail [of s m line es g] cap(2) inv by (simp add: bounded_inv_def)
  qed
  have work: "outbox s (Work i) = []" for i using free [of "Work i"] idle [OF agg] by simp
  have "outbox s Coord = []"
  proof (rule free)
    show "may_send Coord to \<Longrightarrow> boxes s to = []" for to using idle agg work by (cases to) auto
  qed
  then have out: "outbox s v = []" for v using agg work by (cases v) auto
  then show "outbox s v = []" and "boxes s v = []" using idle by auto
qed

lemma bounded_stuck_live: "(\<And>v. boxes s v = [] \<and> outbox s v = []) \<Longrightarrow> \<not> fed_live g s t"
  by (auto elim!: fed_live.cases)

lemma reaches_bounded: "reaches S (fed_bounded g cap slots) s \<Longrightarrow> reaches S (fed_live g) s"
  by (induction rule: reaches.induct) (auto intro: reaches.intros fed_bounded_live)

section \<open>Properties\<close>

text \<open>C5: Bounded mailboxes and a bounded result channel do not deadlock federated training: with mailboxes of any
positive size, the coordinator's and the result channel with room for as many messages as there are training
requests (in both programs one), a run that cannot go on has handled every message and performed every effect, and
has reported a result for every started round whose partitions could all be loaded, though nobody reads the results
before.  With less room in the channel the coordinator can block for ever (\<open>full_channel_blocks\<close>).\<close>

theorem bounded_mailboxes_complete:
  assumes "fed_bound g" and "\<And>v. 0 < cap v" and "length (fc_starts g) \<le> cap Coord" and "length (fc_starts g) \<le> slots"
    and "reaches (\<lambda>s. s = fed_start g) (fed_bounded g cap slots) s" and "\<nexists>t. fed_bounded g cap slots s t"
  shows "(\<forall>v. boxes s v = [] \<and> outbox s v = []) \<and>
    (\<forall>j\<in>{1..length (fed_rounds g)}.
       (\<forall>i<fc_workers g. \<exists>recs. Load (fc_files g i) (fed_rounds g ! (j - 1) ! i) = Inr recs) \<longrightarrow>
       (\<exists>x\<in>set (results s). rr_RoundID x = of_nat j))"
proof -
  have "reaches (\<lambda>s. fed_bound g \<and> s = fed_start g) (fed_bounded g cap slots) s"
    by (rule reaches_mono [OF assms(5)]) (simp add: assms(1))
  then have "bounded_inv g s" using fed_mailboxes.reaches_good by blast
  note stuck = bounded_stuck [OF this assms(2,3,4,6)]
  then have "\<nexists>t. fed_live g s t" using bounded_stuck_live by blast
  then show ?thesis using stuck stuck_completes [OF assms(1) reaches_bounded [OF assms(5)]] by auto
qed

text \<open>Two workers, one training request, the default mailboxes, and a channel for one result.\<close>

theorem bounded_mailboxes_complete_witness:
  "\<exists>s. reaches (\<lambda>s. s = fed_start demo_config) (fed_bounded demo_config (\<lambda>_. 128) 1) s \<and>
    (\<exists>x\<in>set (results s). rr_RoundID x = of_nat 1)"
proof -
  have "fed_bound demo_config \<and> bounded_inv demo_config (fed_start demo_config)"
    using demo_config_facts(1) bounded_inv_start by blast
  from fed_mailboxes.run_ends [OF this] obtain s where
    s: "(fed_bounded demo_config (\<lambda>_. 128) 1)\<^sup>*\<^sup>* (fed_start demo_config) s" "\<nexists>u. fed_bounded demo_config (\<lambda>_. 128) 1 s u" by blast
  have r: "reaches (\<lambda>s. s = fed_start demo_config) (fed_bounded demo_config (\<lambda>_. 128) 1) s"
    by (rule reaches_rtranclp [OF s(1)]) (simp add: reaches_start)
  have "length (fc_starts demo_config) \<le> 128" "length (fc_starts demo_config) \<le> 1" by (simp_all add: demo_config_def)
  from bounded_mailboxes_complete [OF demo_config_facts(1) _ this r s(2)]
  have "\<exists>x\<in>set (results s). rr_RoundID x = of_nat 1" by (auto simp: demo_config_facts)
  then show ?thesis using r by blast
qed

end
