(* ===== verification/ActorRuntime.thy ===== *)
theory ActorRuntime
  imports ActorSystem
begin

text \<open>
  The running system: actors that use their \<^verbatim>\<open>Context\<close> (\<^verbatim>\<open>pkg/actor/context.go\<close>) while they
  handle messages, on top of the actor system (\<^verbatim>\<open>system.go\<close>) and of one cell per actor
  (\<^verbatim>\<open>cell.go\<close>, \<^verbatim>\<open>mailbox.go\<close>).  Every goroutine has a list of what it
  has still to do; a step is one critical section, channel operation or \<^verbatim>\<open>select\<close> of one
  goroutine.  Each cell behaves as \<open>cell_step\<close> says, so what is proved of a single cell
  holds of every cell of the system.
\<close>

section \<open>Contexts\<close>

record ctx =
  ctx_self :: pid
  ctx_cell :: nat

definition context_Self :: "ctx \<Rightarrow> pid" where
  "context_Self ctx = ctx_self ctx"

text \<open>
  The calls of a handler or of another goroutine: to a mailbox (the address of its cell), to the system, and
  the context's shorthands for them.  \<open>Output\<close> is what leaves the actor system without waiting: a log line, or a
  value for a channel of the driver that has room.
\<close>

datatype 'm call =
    Tell nat 'm
  | StopActor pid
  | SpawnSized string nat
  | ShutdownAll
  | Output 'm

definition context_Send :: "ctx \<Rightarrow> pid \<Rightarrow> 'm \<Rightarrow> 'm call" where
  "context_Send ctx to msg = Tell (pid_cell to) msg"

definition context_Spawn :: "ctx \<Rightarrow> string \<Rightarrow> 'm call" where
  "context_Spawn ctx aid = SpawnSized aid (nat DefaultMailboxSize)"

definition context_Stop :: "ctx \<Rightarrow> pid \<Rightarrow> 'm call" where
  "context_Stop ctx p = StopActor p"

text \<open>
  An actor: its initial state, its handler and its hooks, each a state transformer and the calls it
  makes, in their order.  What a handler does next does not depend on the outcome of a call; so it is in all
  actors of this repository, where a send that is refused is at most repeated, and refused again, since a
  closed mailbox stays closed.
\<close>

record ('s, 'm) program =
  initial :: 's
  on_start :: "ctx \<Rightarrow> 's \<Rightarrow> 's \<times> 'm call list"
  on_message :: "ctx \<Rightarrow> 's \<Rightarrow> 'm \<Rightarrow> 's \<times> 'm call list"
  on_stop :: "ctx \<Rightarrow> 's \<Rightarrow> 's \<times> 'm call list"

definition context_of :: "string \<Rightarrow> nat \<Rightarrow> ctx" where
  "context_of aid c = \<lparr>ctx_self = \<lparr>pid_id = aid, pid_cell = c\<rparr>, ctx_cell = c\<rparr>"

text \<open>The actor as its cell sees it.\<close>

definition program_actor :: "('s, 'm) program \<Rightarrow> string \<Rightarrow> nat \<Rightarrow> ('s, 'm) actor" where
  "program_actor p aid c =
     \<lparr>OnStart = (\<lambda>s. fst (on_start p (context_of aid c) s)), Receive = (\<lambda>s m. fst (on_message p (context_of aid c) s m)),
      OnStop = (\<lambda>s. fst (on_stop p (context_of aid c) s))\<rparr>"

section \<open>State and steps\<close>

text \<open>What a goroutine has to do: calls, and the parts of a call that has begun.\<close>

datatype 'm pending =
    Call "'m call"
  | Select nat 'm
  | Close nat
  | Signal nat
  | Await nat
  | GoRun nat

datatype goroutine = Loop nat | Ext nat

text \<open>\<open>begun c\<close>: the handler of cell \<open>c\<close> has been entered for the message the loop has taken.\<close>

record ('s, 'm) running =
  sys :: actor_system
  cell_at :: "nat \<Rightarrow> ('s, 'm) cell option"
  todo :: "goroutine \<Rightarrow> 'm pending list"
  begun :: "nat \<Rightarrow> bool"
  outputs :: "'m list"

type_synonym ('s, 'm) programs = "string \<Rightarrow> ('s, 'm) program"

definition id_of :: "('s, 'm) running \<Rightarrow> nat \<Rightarrow> string" where
  "id_of s c = cell_id (heap (sys s) ! c)"

abbreviation prog_of :: "('s, 'm) programs \<Rightarrow> ('s, 'm) running \<Rightarrow> nat \<Rightarrow> ('s, 'm) program" where
  "prog_of ps s c \<equiv> ps (id_of s c)"

abbreviation actor_of :: "('s, 'm) programs \<Rightarrow> ('s, 'm) running \<Rightarrow> nat \<Rightarrow> ('s, 'm) actor" where
  "actor_of ps s c \<equiv> program_actor (prog_of ps s c) (id_of s c) c"

definition put :: "nat \<Rightarrow> ('s, 'm) cell \<Rightarrow> goroutine \<Rightarrow> 'm pending list \<Rightarrow> ('s, 'm) running \<Rightarrow> ('s, 'm) running" where
  "put c k g qs s = s\<lparr>cell_at := (cell_at s)(c := Some k), todo := (todo s)(g := qs)\<rparr>"

text \<open>The cells a Stop or Shutdown takes out of the table, in the order it stops them.\<close>

definition taken_out :: "actor_system \<Rightarrow> actor_system \<Rightarrow> nat list" where
  "taken_out old new = drop (length (stop_calls old)) (stop_calls new)"

inductive rt_step :: "('s, 'm) programs \<Rightarrow> ('s, 'm) running \<Rightarrow> ('s, 'm) running \<Rightarrow> bool" for ps where
  tell_passed: "todo s g = Call (Tell c m) # qs \<Longrightarrow> cell_at s c = Some k \<Longrightarrow> enqueue_check (mailbox k) = None \<Longrightarrow>
    rt_step ps s (put c (k\<lparr>senders := senders k @ [m]\<rparr>) g (Select c m # qs) s)"
| tell_closed: "todo s g = Call (Tell c m) # qs \<Longrightarrow> cell_at s c = Some k \<Longrightarrow> enqueue_check (mailbox k) = Some e \<Longrightarrow>
    rt_step ps s (put c (k\<lparr>rejected := rejected k @ [m]\<rparr>) g qs s)"
| tell_done: "todo s g = Select c m # qs \<Longrightarrow> cell_at s c = Some k \<Longrightarrow> senders k = xs @ m # ys \<Longrightarrow>
    r \<in> set (enqueue_select m (k\<lparr>senders := xs @ ys\<rparr>)) \<Longrightarrow> rt_step ps s (put c (log_tell m r) g qs s)"
| stop_taken: "todo s g = Call (StopActor p) # qs \<Longrightarrow> Stop p (sys s) = (sys', Return ()) \<Longrightarrow>
    rt_step ps s (s\<lparr>sys := sys', todo := (todo s)(g := map Close (taken_out (sys s) sys') @ qs)\<rparr>)"
| shutdown_taken: "todo s g = Call ShutdownAll # qs \<Longrightarrow> map_order ord \<Longrightarrow> Shutdown ord (sys s) = (sys', Return ()) \<Longrightarrow>
    rt_step ps s (s\<lparr>sys := sys', todo := (todo s)(g := map Close (taken_out (sys s) sys') @ qs)\<rparr>)"
| mailbox_closed: "todo s g = Close c # qs \<Longrightarrow> cell_at s c = Some k \<Longrightarrow>
    rt_step ps s (put c ((stop_close k)\<lparr>self_stopped := self_stopped k \<or> g = Loop c\<rparr>) g (Signal c # qs) s)"
| signal_queued: "todo s g = Signal c # qs \<Longrightarrow> cell_at s c = Some k \<Longrightarrow> send_ready k \<Longrightarrow>
    rt_step ps s (put c (stop_signal k) g (Await c # qs) s)"
| stop_done: "todo s g = Await c # qs \<Longrightarrow> cell_at s c = Some k \<Longrightarrow> runner k = Exited \<Longrightarrow>
    rt_step ps s (put c (stop_return (actor_of ps s c) k) g
      (map Call (snd (on_stop (prog_of ps s c) (context_of (id_of s c) c) (actor_state k))) @ qs) s)"
| spawned: "todo s g = Call (SpawnSized aid n) # qs \<Longrightarrow>
    SpawnWithMailboxSize aid (int n) (sys s) = (sys', Return (Inr p)) \<Longrightarrow>
    start_cell (program_actor (ps aid) aid (pid_cell p)) (initial (ps aid)) (int n) = Some k \<Longrightarrow>
    rt_step ps s (s\<lparr>sys := sys', cell_at := (cell_at s)(pid_cell p := Some k), todo := (todo s)(g :=
      map Call (snd (on_start (ps aid) (context_of aid (pid_cell p)) (initial (ps aid)))) @ GoRun (pid_cell p) # qs)\<rparr>)"
| spawn_refused: "todo s g = Call (SpawnSized aid n) # qs \<Longrightarrow>
    SpawnWithMailboxSize aid (int n) (sys s) = (sys', Return (Inl e)) \<Longrightarrow> rt_step ps s (s\<lparr>todo := (todo s)(g := qs)\<rparr>)"
| loop_started: "todo s g = GoRun c # qs \<Longrightarrow> cell_at s c = Some k \<Longrightarrow> runner k = NotStarted \<Longrightarrow>
    rt_step ps s (put c (k\<lparr>runner := Receiving\<rparr>) g qs s)"
| received: "cell_at s c = Some k \<Longrightarrow> runner k = Receiving \<Longrightarrow> ch (mailbox k) \<noteq> [] \<Longrightarrow>
    rt_step ps s (s\<lparr>cell_at := (cell_at s)(c := Some (receive_next k))\<rparr>)"
| handler_entered: "cell_at s c = Some k \<Longrightarrow> runner k = Handling m \<Longrightarrow> \<not> begun s c \<Longrightarrow>
    rt_step ps s (s\<lparr>begun := (begun s)(c := True), todo := (todo s)(Loop c :=
      map Call (snd (on_message (prog_of ps s c) (context_of (id_of s c) c) (actor_state k) m)))\<rparr>)"
| handler_returned: "cell_at s c = Some k \<Longrightarrow> runner k = Handling m \<Longrightarrow> begun s c \<Longrightarrow> todo s (Loop c) = [] \<Longrightarrow>
    rt_step ps s (s\<lparr>begun := (begun s)(c := False), cell_at := (cell_at s)(c := Some (finish_message (actor_of ps s c) m k))\<rparr>)"
| put_out: "todo s g = Call (Output m) # qs \<Longrightarrow>
    rt_step ps s (s\<lparr>outputs := outputs s @ [m], todo := (todo s)(g := qs)\<rparr>)"
| external: "todo s (Ext i) = [] \<Longrightarrow> rt_step ps s (s\<lparr>todo := (todo s)(Ext i := map Call calls)\<rparr>)"

definition rt_start :: "('s, 'm) running" where
  "rt_start = \<lparr>sys = NewActorSystem, cell_at = (\<lambda>_. None), todo = (\<lambda>_. []), begun = (\<lambda>_. False), outputs = []\<rparr>"

section \<open>Invariant\<close>

text \<open>The cell a pending part of a stop works on, and where that cell's stop then is.\<close>

fun stops :: "'m pending \<Rightarrow> nat option" where
  "stops (Close c) = Some c"
| "stops (Signal c) = Some c"
| "stops (Await c) = Some c"
| "stops _ = None"

fun phase :: "'m pending \<Rightarrow> stopper" where
  "phase (Signal c) = Closing"
| "phase (Await c) = Waiting"
| "phase _ = NotCalled"

definition jobs :: "('s, 'm) running \<Rightarrow> goroutine \<Rightarrow> 'm pending list" where
  "jobs s g = filter (\<lambda>q. stops q \<noteq> None) (todo s g)"

definition stopper_at :: "('s, 'm) running \<Rightarrow> nat \<Rightarrow> stopper option" where
  "stopper_at s c = map_option stopper (cell_at s c)"

text \<open>Every cell is stopped by at most one goroutine, which knows how far it is; a registered cell by none.\<close>

definition stops_ok :: "(goroutine \<Rightarrow> 'm pending list) \<Rightarrow> (nat \<Rightarrow> stopper option) \<Rightarrow> nat list \<Rightarrow> bool" where
  "stops_ok js st called \<longleftrightarrow>
     (\<forall>g. distinct (map stops (js g))) \<and>
     (\<forall>g h. g \<noteq> h \<longrightarrow> set (map stops (js g)) \<inter> set (map stops (js h)) = {}) \<and>
     (\<forall>g. set (map stops (js g)) \<subseteq> Some ` set called) \<and>
     (\<forall>g. \<forall>q\<in>set (js g). st (the (stops q)) = Some (phase q)) \<and>
     (\<forall>c. c \<notin> set called \<longrightarrow> st c = None \<or> st c = Some NotCalled)"

definition loops_ok :: "('s, 'm) running \<Rightarrow> bool" where
  "loops_ok s \<longleftrightarrow> (\<forall>c. (todo s (Loop c) \<noteq> [] \<longrightarrow> begun s c) \<and>
     (begun s c \<longrightarrow> (\<exists>k m. cell_at s c = Some k \<and> runner k = Handling m)) \<and>
     (\<forall>k. cell_at s c = Some k \<longrightarrow> self_stopped k \<longrightarrow> (\<exists>qs. todo s (Loop c) = Signal c # qs \<or> todo s (Loop c) = Await c # qs)))"

definition rt_good :: "('s, 'm) programs \<Rightarrow> ('s, 'm) running \<Rightarrow> bool" where
  "rt_good ps s \<longleftrightarrow> sys_inv (sys s) \<and> \<not> locked (sys s) \<and> (\<forall>c. cell_at s c = None \<longleftrightarrow> length (heap (sys s)) \<le> c) \<and>
     (\<forall>c k. cell_at s c = Some k \<longrightarrow>
        reachable_cell (actor_of ps s c) (initial (prog_of ps s c)) (int (cell_size (heap (sys s) ! c))) k) \<and>
     stops_ok (jobs s) (stopper_at s) (stop_calls (sys s)) \<and> loops_ok s"

lemma put_simps [simp]:
  "sys (put c k g qs s) = sys s" "cell_at (put c k g qs s) = (cell_at s)(c := Some k)"
  "todo (put c k g qs s) = (todo s)(g := qs)" "begun (put c k g qs s) = begun s" "outputs (put c k g qs s) = outputs s"
  by (simp_all add: put_def)

lemma jobs_calls [simp]: "filter (\<lambda>q. stops q \<noteq> None) (map Call cs) = []" "filter (\<lambda>q. stops q \<noteq> None) (map Close xs) = map Close xs"
  by (simp_all add: filter_empty_conv filter_id_conv)

text \<open>What a Stop or Shutdown takes out of the table has not been stopped before.\<close>

lemma stop_takes:
  assumes "sys_inv y" and "Stop p y = (y', Return ())"
  shows "sys_inv y'" and "heap y' = heap y" and "locked y' = locked y"
    and "stop_calls y' = stop_calls y @ taken_out y y'"
  using assms sys_inv_stop [OF assms(1), of p]
  by (auto simp: Stop_def taken_out_def split: if_splits option.splits)

lemma shutdown_takes:
  assumes "sys_inv y" and "map_order ord" and "Shutdown ord y = (y', Return ())"
  shows "sys_inv y'" and "heap y' = heap y" and "locked y' = locked y"
    and "stop_calls y' = stop_calls y @ taken_out y y'"
  using assms sys_inv_shutdown [OF assms(1,2)]
  by (auto simp: Shutdown_def taken_out_def Let_def split: if_splits)

lemma taken_new:
  assumes "sys_inv y'" and "stop_calls y' = stop_calls y @ xs"
  shows "distinct xs" and "set xs \<inter> set (stop_calls y) = {}" and "set xs \<subseteq> {..<length (heap y')}"
  using assms by (auto simp: sys_inv_def)

lemma spawn_takes:
  assumes "sys_inv y" and "SpawnWithMailboxSize aid n y = (y', Return (Inr p))"
  shows "sys_inv y'" and "locked y' = locked y" and "stop_calls y' = stop_calls y"
    and "heap y' = heap y @ [\<lparr>cell_id = aid, cell_size = nat n\<rparr>]" and "pid_cell p = length (heap y)"
  using assms sys_inv_spawn [OF assms(1), of aid n]
  by (auto simp: SpawnWithMailboxSize_def newActorCell_def newMailbox_def split: if_splits option.splits)

text \<open>How the stops in progress change.\<close>

lemma stops_ok_cong:
  assumes "stops_ok (jobs s) (stopper_at s) (stop_calls (sys s))"
    and "\<And>g. jobs t g = jobs s g" and "\<And>c. stopper_at t c = stopper_at s c" and "stop_calls (sys t) = stop_calls (sys s)"
  shows "stops_ok (jobs t) (stopper_at t) (stop_calls (sys t))"
proof -
  have "jobs t = jobs s" "stopper_at t = stopper_at s" using assms(2,3) by auto
  then show ?thesis using assms(1,4) by simp
qed

lemma stops_okI:
  assumes "\<And>g. distinct (map stops (js g))" and "\<And>g h. g \<noteq> h \<Longrightarrow> set (map stops (js g)) \<inter> set (map stops (js h)) = {}"
    and "\<And>g. set (map stops (js g)) \<subseteq> Some ` set called" and "\<And>g q. q \<in> set (js g) \<Longrightarrow> st (the (stops q)) = Some (phase q)"
    and "\<And>c. c \<notin> set called \<Longrightarrow> st c = None \<or> st c = Some NotCalled"
  shows "stops_ok js st called"
  using assms unfolding stops_ok_def by blast

lemma stops_okD:
  assumes "stops_ok js st called"
  shows "distinct (map stops (js g))" and "g \<noteq> h \<Longrightarrow> set (map stops (js g)) \<inter> set (map stops (js h)) = {}"
    and "set (map stops (js g)) \<subseteq> Some ` set called" and "q \<in> set (js g) \<Longrightarrow> st (the (stops q)) = Some (phase q)"
    and "c \<notin> set called \<Longrightarrow> st c = None \<or> st c = Some NotCalled"
  using assms unfolding stops_ok_def by blast+

lemma stops_ok_called: "stops_ok js st called \<Longrightarrow> q \<in> set (js g) \<Longrightarrow> stops q = Some c \<Longrightarrow> c \<in> set called \<and> st c = Some (phase q)"
  using stops_okD(3) [of js st called g] stops_okD(4) [of js st called q g] by (auto dest!: subsetD [where c = "stops q"])

lemma stops_ok_taken:
  assumes ok: "stops_ok js st called" and new: "distinct xs" "set xs \<inter> set called = {}" "\<And>c. c \<in> set xs \<Longrightarrow> st c \<noteq> None"
  shows "stops_ok (js(g := map Close xs @ js g)) st (called @ xs)"
proof (rule stops_okI)
  have sep: "set (map stops (js h)) \<inter> Some ` set xs = {}" for h
    using stops_okD(3) [OF ok, of h] new(2) by fast
  have targets: "map stops ((js(g := map Close xs @ js g)) h) = (if h = g then map Some xs @ map stops (js h) else map stops (js h))" for h
    by simp
  show "distinct (map stops ((js(g := map Close xs @ js g)) h))" for h
    using stops_okD(1) [OF ok, of h] new(1) sep [of h] unfolding targets by (auto simp: distinct_map)
  show "set (map stops ((js(g := map Close xs @ js g)) h)) \<inter> set (map stops ((js(g := map Close xs @ js g)) h')) = {}" if "h \<noteq> h'" for h h'
    using stops_okD(2) [OF ok that] sep [of h] sep [of h'] that unfolding targets
    by (cases "h = g"; cases "h' = g") (simp_all add: Int_Un_distrib Int_Un_distrib2 Int_commute)
  show "set (map stops ((js(g := map Close xs @ js g)) h)) \<subseteq> Some ` set (called @ xs)" for h
    using stops_okD(3) [OF ok, of h] unfolding targets by auto
  have "st c = Some NotCalled" if "c \<in> set xs" for c
    using stops_okD(5) [OF ok, of c] new(2,3) that by blast
  then show "st (the (stops q)) = Some (phase q)" if "q \<in> set ((js(g := map Close xs @ js g)) h)" for h q
    using that stops_okD(4) [OF ok, of q h] by (auto split: if_splits)
  show "c \<notin> set (called @ xs) \<Longrightarrow> st c = None \<or> st c = Some NotCalled" for c
    using stops_okD(5) [OF ok, of c] by simp
qed

text \<open>The other goroutines and the rest of this one work on other cells.\<close>

lemma stops_ok_others:
  assumes ok: "stops_ok js st called" and "js g = q # qs" and "stops q = Some c" and "r \<in> set ((js(g := qs)) h)" and "stops r = Some d"
  shows "d \<noteq> c"
proof (cases "h = g")
  case True
  then have "stops r \<in> set (map stops qs)" using assms(4) by simp
  moreover have "stops q \<notin> set (map stops qs)" using stops_okD(1) [OF ok, of g] assms(2) by simp
  ultimately show ?thesis using assms(3,5) by metis
next
  case False
  then have "set (map stops (js h)) \<inter> set (map stops (js g)) = {}" by (rule stops_okD(2) [OF ok])
  moreover have "stops r \<in> set (map stops (js h))" "stops q \<in> set (map stops (js g))" using assms(2,4) False by simp_all
  ultimately show ?thesis using assms(3,5) by auto
qed

lemma stops_ok_rest:
  assumes ok: "stops_ok js st called" and all: "\<And>g r. r \<in> set (js g) \<Longrightarrow> stops r \<noteq> None"
    and g: "js g = q # qs" "stops q = Some c" and r: "r \<in> set ((js(g := qs)) h)"
  shows "(st(c := x)) (the (stops r)) = Some (phase r)"
proof -
  have "r \<in> set (js h)" using r g by (auto split: if_splits)
  moreover from this obtain d where d: "stops r = Some d" using all by blast
  ultimately have "st d = Some (phase r)" using stops_ok_called [OF ok] by blast
  then show ?thesis using stops_ok_others [OF ok g r d] d by simp
qed

lemma stops_ok_next:
  assumes ok: "stops_ok js st called" and all: "\<And>g r. r \<in> set (js g) \<Longrightarrow> stops r \<noteq> None"
    and g: "js g = q # qs" and q: "stops q' = stops q" "stops q = Some c"
  shows "stops_ok (js(g := q' # qs)) (st(c := Some (phase q'))) called"
proof (rule stops_okI)
  have same: "map stops ((js(g := q' # qs)) h) = map stops (js h)" for h using g q(1) by simp
  show "distinct (map stops ((js(g := q' # qs)) h))" for h unfolding same by (rule stops_okD(1) [OF ok])
  show "h \<noteq> h' \<Longrightarrow> set (map stops ((js(g := q' # qs)) h)) \<inter> set (map stops ((js(g := q' # qs)) h')) = {}" for h h'
    unfolding same by (rule stops_okD(2) [OF ok])
  show "set (map stops ((js(g := q' # qs)) h)) \<subseteq> Some ` set called" for h unfolding same by (rule stops_okD(3) [OF ok])
  show "(st(c := Some (phase q'))) (the (stops r)) = Some (phase r)" if r: "r \<in> set ((js(g := q' # qs)) h)" for h r
  proof (cases "r = q'")
    case False
    then have r': "r \<in> set ((js(g := qs)) h)" using r by (simp split: if_splits)
    show ?thesis by (rule stops_ok_rest [OF ok _ g q(2) r']) (rule all)
  qed (use q in simp)
  have "c \<in> set called" using stops_ok_called [OF ok, of q g] g q(2) by simp
  then show "c' \<notin> set called \<Longrightarrow> (st(c := Some (phase q'))) c' = None \<or> (st(c := Some (phase q'))) c' = Some NotCalled" for c'
    using stops_okD(5) [OF ok, of c'] by (cases "c' = c") simp_all
qed

lemma stops_ok_finish:
  assumes ok: "stops_ok js st called" and all: "\<And>g r. r \<in> set (js g) \<Longrightarrow> stops r \<noteq> None"
    and g: "js g = q # qs" and q: "stops q = Some c"
  shows "stops_ok (js(g := qs)) (st(c := x)) called"
proof (rule stops_okI)
  have sub: "set (map stops ((js(g := qs)) h)) \<subseteq> set (map stops (js h))" for h using g by auto
  show "distinct (map stops ((js(g := qs)) h))" for h using stops_okD(1) [OF ok, of h] g by (cases "h = g") simp_all
  show "h \<noteq> h' \<Longrightarrow> set (map stops ((js(g := qs)) h)) \<inter> set (map stops ((js(g := qs)) h')) = {}" for h h'
    using sub [of h] sub [of h'] stops_okD(2) [OF ok, of h h'] by blast
  show "set (map stops ((js(g := qs)) h)) \<subseteq> Some ` set called" for h using sub [of h] stops_okD(3) [OF ok, of h] by blast
  show "(st(c := x)) (the (stops r)) = Some (phase r)" if "r \<in> set ((js(g := qs)) h)" for h r
    by (rule stops_ok_rest [OF ok _ g q that]) (rule all)
  have "c \<in> set called" using stops_ok_called [OF ok, of q g] g q by simp
  then show "c' \<notin> set called \<Longrightarrow> (st(c := x)) c' = None \<or> (st(c := x)) c' = Some NotCalled" for c'
    using stops_okD(5) [OF ok, of c'] by (cases "c' = c") simp_all
qed

section \<open>Every cell of the system behaves like a single cell\<close>

definition cell_moved :: "('s, 'm) programs \<Rightarrow> ('s, 'm) running \<Rightarrow> ('s, 'm) running \<Rightarrow> nat \<Rightarrow> bool" where
  "cell_moved ps s t c \<longleftrightarrow> cell_at t c = cell_at s c \<or>
     (\<exists>k k'. cell_at s c = Some k \<and> cell_at t c = Some k' \<and> cell_step (actor_of ps s c) k k') \<or>
     (cell_at s c = None \<and> (\<exists>k. cell_at t c = Some k \<and>
        start_cell (actor_of ps t c) (initial (prog_of ps t c)) (int (cell_size (heap (sys t) ! c))) = Some k))"

lemma cell_moved_step:
  "cell_at s c = Some k \<Longrightarrow> cell_at t = (cell_at s)(c := Some k') \<Longrightarrow> cell_step (actor_of ps s c) k k' \<Longrightarrow> cell_moved ps s t d"
  by (simp add: cell_moved_def)

lemma jobs_head: "todo s g = q # qs \<Longrightarrow> stops q \<noteq> None \<Longrightarrow> jobs s g = q # filter (\<lambda>q. stops q \<noteq> None) qs"
  by (simp add: jobs_def)

lemma rt_good_cell:
  assumes "rt_good ps s" and "cell_at s c = Some k"
  shows "c < length (heap (sys s))" and "queue_ok k" and "stop_ok k"
proof -
  show "c < length (heap (sys s))" using assms by (metis linorder_not_le option.distinct(1) rt_good_def)
  have "reachable_cell (actor_of ps s c) (initial (prog_of ps s c)) (int (cell_size (heap (sys s) ! c))) k"
    using assms by (simp add: rt_good_def)
  from cell_sys.reaches_good [OF this] show "queue_ok k" "stop_ok k" by (simp_all add: cell_good_def cell_inv_def)
qed

lemma stopping_phase:
  assumes "rt_good ps s" and "todo s g = q # qs" and "stops q = Some c" and "cell_at s c = Some k"
  shows "stopper k = phase q"
proof -
  have "stops_ok (jobs s) (stopper_at s) (stop_calls (sys s))" using assms(1) by (simp add: rt_good_def)
  from stops_ok_called [OF this, of q g c] jobs_head [OF assms(2)] assms(3,4) show ?thesis by (simp add: stopper_at_def)
qed

lemma close_is_step:
  assumes "rt_good ps s" and "todo s g = Close c # qs" and "cell_at s c = Some k"
  shows "cell_step a k ((stop_close k)\<lparr>self_stopped := self_stopped k \<or> g = Loop c\<rparr>)"
proof -
  have st: "stopper k = NotCalled" using stopping_phase [OF assms(1,2) _ assms(3)] by simp
  then have self: "\<not> self_stopped k" using rt_good_cell(3) [OF assms(1,3)] by (auto simp: stop_ok_def)
  show ?thesis
  proof (cases "g = Loop c")
    case True
    have "loops_ok s" using assms(1) by (simp add: rt_good_def)
    then have "begun s c" using assms(2) True unfolding loops_ok_def by auto
    then obtain m where "runner k = Handling m" using \<open>loops_ok s\<close> assms(3) unfolding loops_ok_def by auto
    then show ?thesis using cell_step.call_stop_self [OF st] True by simp
  next
    case False
    have "(stop_close k)\<lparr>self_stopped := False\<rparr> = stop_close k" using self by (simp add: stop_close_def)
    then show ?thesis using cell_step.call_stop [OF st] self False by simp
  qed
qed

lemma rt_step_cells:
  assumes good: "rt_good ps s" and "rt_step ps s t"
  shows "cell_moved ps s t d"
  using assms(2)
proof cases
  case (spawned g aid n qs sys' p k)
  have si: "sys_inv (sys s)" using good by (simp add: rt_good_def)
  note new = spawn_takes [OF si spawned(3)]
  have "cell_at s (pid_cell p) = None" using good new(5) by (simp add: rt_good_def)
  then show ?thesis using spawned(4) new(4,5) by (simp add: cell_moved_def spawned(1) id_of_def)
next
  case (handler_returned c k m)
  have "\<not> self_stopped k" using good handler_returned unfolding rt_good_def loops_ok_def by fastforce
  then have "cell_step (actor_of ps s c) k (finish_message (actor_of ps s c) m k)"
    by (intro cell_step.run_finished handler_returned(3)) simp
  then show ?thesis by (intro cell_moved_step [OF handler_returned(2)]) (simp_all add: handler_returned(1))
next
  case (mailbox_closed g c qs k)
  then show ?thesis using close_is_step [OF good mailbox_closed(2,3)] by (intro cell_moved_step [OF mailbox_closed(3)]) simp_all
next
  case (signal_queued g c qs k)
  have "stopper k = Closing" using stopping_phase [OF good signal_queued(2) _ signal_queued(3)] by simp
  then have "cell_step (actor_of ps s c) k (stop_signal k)" by (intro cell_step.stop_signalled signal_queued(4))
  then show ?thesis by (intro cell_moved_step [OF signal_queued(3)]) (simp_all add: signal_queued(1))
next
  case (stop_done g c qs k)
  have "stopper k = Waiting" using stopping_phase [OF good stop_done(2) _ stop_done(3)] by simp
  then have "cell_step (actor_of ps s c) k (stop_return (actor_of ps s c) k)" by (intro cell_step.stop_returned stop_done(4))
  then show ?thesis by (intro cell_moved_step [OF stop_done(3)]) (simp_all add: stop_done(1))
next
  case (tell_passed g c m qs k)
  then have "cell_step (actor_of ps s c) k (k\<lparr>senders := senders k @ [m]\<rparr>)" by (intro cell_step.tell_checked tell_passed(4))
  then show ?thesis by (intro cell_moved_step [OF tell_passed(3)]) (simp_all add: tell_passed(1))
next
  case (tell_closed g c m qs k e)
  then have "cell_step (actor_of ps s c) k (k\<lparr>rejected := rejected k @ [m]\<rparr>)" by (intro cell_step.tell_refused tell_closed(4))
  then show ?thesis by (intro cell_moved_step [OF tell_closed(3)]) (simp_all add: tell_closed(1))
next
  case (tell_done g c m qs k xs ys r)
  then show ?thesis by (intro cell_moved_step [OF tell_done(3)]) (auto intro: cell_step.tell_selected)
next
  case (loop_started g c qs k)
  then have "cell_step (actor_of ps s c) k (k\<lparr>runner := Receiving\<rparr>)" by (intro cell_step.run_started)
  then show ?thesis by (intro cell_moved_step [OF loop_started(3)]) (simp_all add: loop_started(1))
next
  case (received c k)
  then have "cell_step (actor_of ps s c) k (receive_next k)" by (intro cell_step.run_received)
  then show ?thesis by (intro cell_moved_step [OF received(2)]) (simp_all add: received(1))
qed (simp_all add: cell_moved_def)

text \<open>The invariant, one part after the other.\<close>

lemma rt_step_sys:
  assumes "rt_good ps s" and "rt_step ps s t"
  shows "sys_inv (sys t) \<and> \<not> locked (sys t) \<and> (\<forall>c. cell_at t c = None \<longleftrightarrow> length (heap (sys t)) \<le> c) \<and>
    (\<exists>hs. heap (sys t) = heap (sys s) @ hs)"
proof -
  have good: "sys_inv (sys s)" "\<not> locked (sys s)" "cell_at s c = None \<longleftrightarrow> length (heap (sys s)) \<le> c" for c
    using assms(1) by (simp_all add: rt_good_def)
  have keep: ?thesis if "sys t = sys s" "dom (cell_at t) = dom (cell_at s)"
  proof -
    have "cell_at t c = None \<longleftrightarrow> cell_at s c = None" for c using that(2) by (metis domIff)
    then show ?thesis using that(1) good by simp
  qed
  show ?thesis using assms(2)
  proof cases
    case (stop_taken g p qs sys')
    then show ?thesis using good stop_takes [OF good(1) stop_taken(3)] by simp
  next
    case (shutdown_taken g qs ord sys')
    then show ?thesis using good shutdown_takes [OF good(1) shutdown_taken(3,4)] by simp
  next
    case (spawned g aid n qs sys' p k)
    note new = spawn_takes [OF good(1) spawned(3)]
    have "cell_at t c = None \<longleftrightarrow> length (heap (sys t)) \<le> c" for c
      using good(3) [of c] by (auto simp: spawned(1) new(4,5))
    then show ?thesis using new(1,2,4) good(2) by (simp add: spawned(1))
  qed (rule keep; auto)+
qed

lemma rt_step_reachable:
  assumes good: "rt_good ps s" and step: "rt_step ps s t" and k: "cell_at t c = Some k"
  shows "reachable_cell (actor_of ps t c) (initial (prog_of ps t c)) (int (cell_size (heap (sys t) ! c))) k"
proof -
  obtain hs where hs: "heap (sys t) = heap (sys s) @ hs" using rt_step_sys [OF good step] by blast
  have old: "reachable_cell (actor_of ps t c) (initial (prog_of ps t c)) (int (cell_size (heap (sys t) ! c))) k'
      \<and> id_of t c = id_of s c" if "cell_at s c = Some k'" for k'
    using good that rt_good_cell(1) [OF good that] by (simp add: rt_good_def id_of_def hs nth_append)
  from rt_step_cells [OF good step, of c, unfolded cell_moved_def] show ?thesis
  proof (elim disjE exE conjE)
    assume "cell_at t c = cell_at s c"
    then show ?thesis using old k by simp
  next
    fix k1 k2 assume k1: "cell_at s c = Some k1" and "cell_at t c = Some k2" and "cell_step (actor_of ps s c) k1 k2"
    have "actor_of ps t c = actor_of ps s c" using conjunct2 [OF old [OF k1]] by simp
    with \<open>cell_step (actor_of ps s c) k1 k2\<close> have "cell_step (actor_of ps t c) k1 k2" by simp
    from reaches_step [OF conjunct1 [OF old [OF k1]] this] show ?thesis using k \<open>cell_at t c = Some k2\<close> by simp
  next
    fix k1 assume "cell_at t c = Some k1"
      and "start_cell (actor_of ps t c) (initial (prog_of ps t c)) (int (cell_size (heap (sys t) ! c))) = Some k1"
    then show ?thesis using k by (intro reaches_start) simp
  qed
qed

lemma jobs_other: "h \<noteq> g \<Longrightarrow> jobs (s\<lparr>todo := (todo s)(g := qs)\<rparr>) h = jobs s h"
  by (simp add: jobs_def)

lemma rt_step_stops:
  assumes good: "rt_good ps s" and "rt_step ps s t"
  shows "stops_ok (jobs t) (stopper_at t) (stop_calls (sys t))"
proof -
  have ok: "stops_ok (jobs s) (stopper_at s) (stop_calls (sys s))" and si: "sys_inv (sys s)" using good by (simp_all add: rt_good_def)
  have all: "r \<in> set (jobs s g) \<Longrightarrow> stops r \<noteq> None" for g r by (simp add: jobs_def)
  note same = stops_ok_cong [OF ok]
  have taken: ?thesis if "sys_inv sys'" "heap sys' = heap (sys s)" "stop_calls sys' = stop_calls (sys s) @ xs"
    "todo s g = Call x # qs" "t = s\<lparr>sys := sys', todo := (todo s)(g := map Close xs @ qs)\<rparr>" for sys' xs g x qs
  proof -
    note new = taken_new [OF that(1,3)]
    have "stopper_at s c \<noteq> None" if "c \<in> set xs" for c
      using good new(3) that \<open>heap sys' = heap (sys s)\<close> by (auto simp: rt_good_def stopper_at_def)
    from stops_ok_taken [OF ok new(1,2) this, of g] have "stops_ok ((jobs s)(g := map Close xs @ jobs s g)) (stopper_at s) (stop_calls sys')"
      using that(3) by simp
    moreover have "jobs t = (jobs s)(g := map Close xs @ jobs s g)" using that(4) by (auto simp: that(5) jobs_def fun_eq_iff)
    moreover have "stopper_at t = stopper_at s" by (simp add: that(5) stopper_at_def fun_eq_iff)
    ultimately show ?thesis by (simp add: that(5))
  qed
  have move: "stops_ok (jobs u) (stopper_at u) (stop_calls (sys s))"
    if "todo s g = q # qs" "stops q = Some c" "stops q' = Some c" "u = put c k' g (q' # qs) s" "stopper k' = phase q'"
    for g q q' c k' qs u
  proof -
    let ?qs = "filter (\<lambda>q. stops q \<noteq> None) qs"
    have q: "jobs s g = q # ?qs" by (rule jobs_head [OF that(1)]) (simp add: that(2))
    have "stops_ok ((jobs s)(g := q' # ?qs)) ((stopper_at s)(c := Some (phase q'))) (stop_calls (sys s))"
      by (rule stops_ok_next [OF ok _ q]) (simp_all add: all that(2,3))
    moreover have "jobs u = (jobs s)(g := q' # ?qs)" using that(3) by (auto simp: that(4) jobs_def fun_eq_iff)
    moreover have "stopper_at u = (stopper_at s)(c := Some (phase q'))" using that(5) by (auto simp: that(4) stopper_at_def fun_eq_iff)
    ultimately show ?thesis by simp
  qed
  show ?thesis using assms(2)
  proof cases
    case (stop_taken g p qs sys')
    note new = stop_takes [OF si stop_taken(3)]
    show ?thesis by (rule taken [OF new(1,2,4) stop_taken(2,1)])
  next
    case (shutdown_taken g qs ord sys')
    note new = shutdown_takes [OF si shutdown_taken(3,4)]
    show ?thesis by (rule taken [OF new(1,2,4) shutdown_taken(2,1)])
  next
    case (mailbox_closed g c qs k)
    show ?thesis
      using move [OF mailbox_closed(2) _ _ mailbox_closed(1)] by (simp add: mailbox_closed(1) stop_close_def)
  next
    case (signal_queued g c qs k)
    show ?thesis
      using move [OF signal_queued(2) _ _ signal_queued(1)] by (simp add: signal_queued(1) stop_signal_def)
  next
    case (stop_done g c qs k)
    let ?qs = "filter (\<lambda>q. stops q \<noteq> None) qs"
    have q: "jobs s g = Await c # ?qs" by (rule jobs_head [OF stop_done(2)]) simp
    have "stops_ok ((jobs s)(g := ?qs)) ((stopper_at s)(c := Some Returned)) (stop_calls (sys s))"
      by (rule stops_ok_finish [OF ok _ q]) (simp_all add: all)
    moreover have "jobs t = (jobs s)(g := ?qs)" by (auto simp: stop_done(1) jobs_def fun_eq_iff)
    moreover have "stopper_at t = (stopper_at s)(c := Some Returned)"
      by (auto simp: stop_done(1) stopper_at_def stop_return_def fun_eq_iff)
    ultimately show ?thesis by (simp add: stop_done(1))
  next
    case (spawned g aid n qs sys' p k)
    note new = spawn_takes [OF si spawned(3)]
    have "stopper k = NotCalled" using spawned(4) by (auto simp: start_cell_def split: option.splits)
    moreover have "pid_cell p \<notin> set (stop_calls (sys s))" using si new(5) by (auto simp: sys_inv_def)
    moreover have "jobs t = jobs s" using spawned(2) by (auto simp: spawned(1) jobs_def fun_eq_iff)
    moreover have "stopper_at s (pid_cell p) = None" using good new(5) by (simp add: rt_good_def stopper_at_def)
    moreover have "stopper_at t = (stopper_at s)(pid_cell p := Some (stopper k))" by (simp add: spawned(1) stopper_at_def fun_eq_iff)
    ultimately show ?thesis using new(3) spawned(1) stops_okD [OF ok] stops_ok_called [OF ok]
      by (intro stops_okI) (auto simp: jobs_def)
  next
    case (handler_returned c k m)
    then show ?thesis by (intro same) (auto simp: jobs_def stopper_at_def finish_message_def)
  next
    case (handler_entered c k m)
    have "todo s (Loop c) = []" using good handler_entered(4) unfolding rt_good_def loops_ok_def by blast
    then show ?thesis by (intro same) (auto simp: jobs_def stopper_at_def handler_entered(1))
  next
    case (tell_done g c m qs k xs ys r)
    then show ?thesis by (intro same) (auto simp: jobs_def stopper_at_def enqueue_select_def log_tell_def split: if_splits)
  next
    case (received c k)
    then show ?thesis by (intro same) (auto simp: jobs_def stopper_at_def receive_next_def split: list.split)
  qed (intro same; auto simp: jobs_def stopper_at_def)+
qed

text \<open>
  A loop has something to do only while its handler runs, and a handler that has stopped its own cell
  stays at that stop.
\<close>

lemma loops_move:
  assumes ok: "loops_ok s" and g: "todo s g = q # qs" and t: "todo t = (todo s)(g := qs')" "begun t = begun s"
    and run: "\<And>d k m. cell_at s d = Some k \<Longrightarrow> runner k = Handling m \<Longrightarrow> \<exists>k'. cell_at t d = Some k' \<and> runner k' = Handling m"
    and self: "\<And>d k'. cell_at t d = Some k' \<Longrightarrow> self_stopped k' \<Longrightarrow>
      (\<exists>k. cell_at s d = Some k \<and> self_stopped k) \<or> g = Loop d \<and> (\<exists>rs. qs' = Signal d # rs)"
    and wait: "\<And>d k. g = Loop d \<Longrightarrow> q = Signal d \<or> q = Await d \<Longrightarrow> cell_at s d = Some k \<Longrightarrow> self_stopped k \<Longrightarrow> \<exists>rs. qs' = Await d # rs"
  shows "loops_ok t"
  unfolding loops_ok_def
proof (intro allI conjI impI)
  fix d
  show "begun t d" if "todo t (Loop d) \<noteq> []"
    using that ok g unfolding loops_ok_def t by (cases "g = Loop d") auto
  show "\<exists>k m. cell_at t d = Some k \<and> runner k = Handling m" if "begun t d"
    using that ok run [of d] unfolding loops_ok_def t(2) by blast
  show "\<exists>rs. todo t (Loop d) = Signal d # rs \<or> todo t (Loop d) = Await d # rs"
    if "cell_at t d = Some k'" "self_stopped k'" for k'
    using self [OF that]
  proof (elim disjE)
    assume "\<exists>k. cell_at s d = Some k \<and> self_stopped k"
    then obtain k where k: "cell_at s d = Some k" "self_stopped k" by blast
    then obtain rs where rs: "todo s (Loop d) = Signal d # rs \<or> todo s (Loop d) = Await d # rs"
      using ok unfolding loops_ok_def by blast
    show ?thesis
    proof (cases "g = Loop d")
      case True
      then have "q = Signal d \<or> q = Await d" using rs g by auto
      from wait [OF True this k] show ?thesis using True by (auto simp: t(1))
    qed (use rs in \<open>auto simp: t(1)\<close>)
  qed (auto simp: t(1))
qed

lemma loops_put:
  assumes "loops_ok s" and "todo s g = q # qs" and "cell_at s c = Some k"
    and "\<And>m. runner k = Handling m \<Longrightarrow> runner k' = Handling m"
    and "self_stopped k' \<Longrightarrow> self_stopped k \<or> g = Loop c \<and> (\<exists>rs. qs' = Signal c # rs)"
    and "\<And>d k. g = Loop d \<Longrightarrow> q = Signal d \<or> q = Await d \<Longrightarrow> cell_at s d = Some k \<Longrightarrow> self_stopped k \<Longrightarrow> \<exists>rs. qs' = Await d # rs"
  shows "loops_ok (put c k' g qs' s)"
  by (rule loops_move [OF assms(1,2)]) (use assms(3-6) in \<open>auto split: if_splits\<close>)

lemma handling_stays:
  "r \<in> set (enqueue_select m (k\<lparr>senders := ss\<rparr>)) \<Longrightarrow> runner k = Handling m' \<Longrightarrow> runner (log_tell m r) = Handling m'"
  "r \<in> set (enqueue_select m (k\<lparr>senders := ss\<rparr>)) \<Longrightarrow> self_stopped (log_tell m r) = self_stopped k"
  "runner k = Handling m' \<Longrightarrow> runner (stop_signal k) = Handling m'" "self_stopped (stop_signal k) = self_stopped k"
  by (auto simp: cell_defs split: if_splits envelope.splits)

lemma rt_step_loops:
  assumes good: "rt_good ps s" and "rt_step ps s t"
  shows "loops_ok t"
  using assms(2)
proof cases
  have ok: "loops_ok s" using good by (simp add: rt_good_def)
  {
    case (tell_passed g c m qs k)
    show ?thesis unfolding tell_passed(1) by (rule loops_put [OF ok tell_passed(2,3)]) simp_all
  next
    case (tell_closed g c m qs k e)
    show ?thesis unfolding tell_closed(1) by (rule loops_put [OF ok tell_closed(2,3)]) simp_all
  next
    case (tell_done g c m qs k xs ys r)
    show ?thesis unfolding tell_done(1)
      by (rule loops_put [OF ok tell_done(2,3)]) (use handling_stays(1,2) [OF tell_done(5)] in simp_all)
  next
    case (stop_taken g p qs sys')
    show ?thesis by (rule loops_move [OF ok stop_taken(2)]) (auto simp: stop_taken(1))
  next
    case (shutdown_taken g qs ord sys')
    show ?thesis by (rule loops_move [OF ok shutdown_taken(2)]) (auto simp: shutdown_taken(1))
  next
    case (mailbox_closed g c qs k)
    show ?thesis unfolding mailbox_closed(1)
      by (rule loops_put [OF ok mailbox_closed(2,3)]) (auto simp: stop_close_def)
  next
    case (signal_queued g c qs k)
    show ?thesis unfolding signal_queued(1)
      by (rule loops_put [OF ok signal_queued(2,3)]) (auto simp: handling_stays(3,4))
  next
    case (stop_done g c qs k)
    have "\<not> self_stopped k" using rt_good_cell(3) [OF good stop_done(3)] stop_done(4) by (auto simp: stop_ok_def)
    then show ?thesis unfolding stop_done(1)
      by (intro loops_put [OF ok stop_done(2,3)]) (use stop_done(3,4) in \<open>auto simp: stop_return_def\<close>)
  next
    case (spawned g aid n qs sys' p k)
    have "cell_at s (pid_cell p) = None"
      using good spawn_takes(5) [OF _ spawned(3)] by (simp add: rt_good_def)
    moreover have "\<not> self_stopped k" using spawned(4) by (auto simp: start_cell_def split: option.splits)
    ultimately show ?thesis by (intro loops_move [OF ok spawned(2)]) (auto simp: spawned(1) split: if_splits)
  next
    case (spawn_refused g aid n qs sys' e)
    show ?thesis by (rule loops_move [OF ok spawn_refused(2)]) (auto simp: spawn_refused(1))
  next
    case (loop_started g c qs k)
    show ?thesis unfolding loop_started(1) by (rule loops_put [OF ok loop_started(2,3)]) (simp_all add: loop_started(4))
  next
    case (received c k)
    have "\<not> self_stopped k" using rt_good_cell(3) [OF good received(2)] received(3) by (auto simp: stop_ok_def)
    then have "\<not> self_stopped (receive_next k)" by (simp add: receive_next_def take_envelope_def split: list.split envelope.split)
    moreover have "\<not> begun s c" using ok received(2,3) unfolding loops_ok_def by fastforce
    ultimately show ?thesis using ok unfolding loops_ok_def by (simp add: received(1))
  next
    case (handler_entered c k m)
    then have "todo s (Loop c) = []" using ok unfolding loops_ok_def by blast
    then have "\<not> self_stopped k" using ok handler_entered(2) unfolding loops_ok_def by fastforce
    then show ?thesis using ok handler_entered(2,3) unfolding loops_ok_def by (simp add: handler_entered(1))
  next
    case (handler_returned c k m)
    have "\<not> self_stopped k" using ok handler_returned(2,5) unfolding loops_ok_def by fastforce
    then have "\<not> self_stopped (finish_message (actor_of ps s c) m k)" by (simp add: finish_message_def)
    then show ?thesis using ok handler_returned(5) unfolding loops_ok_def by (simp add: handler_returned(1))
  next
    case (put_out g m qs)
    show ?thesis by (rule loops_move [OF ok put_out(2)]) (auto simp: put_out(1))
  next
    case (external i calls)
    then show ?thesis using ok unfolding loops_ok_def by simp
  }
qed

lemma rt_start_good: "rt_good ps rt_start"
  by (simp add: rt_good_def rt_start_def sys_inv_def NewActorSystem_def stops_ok_def jobs_def stopper_at_def loops_ok_def)

definition rt_reachable :: "('s, 'm) programs \<Rightarrow> ('s, 'm) running \<Rightarrow> bool" where
  "rt_reachable ps = reaches (\<lambda>s. s = rt_start) (rt_step ps)"

interpretation rt_sys: safe_system "\<lambda>s. s = rt_start" "rt_step ps" "rt_good ps" for ps
proof unfold_locales
  show "rt_good ps t" if "rt_good ps s" and "rt_step ps s t" for s t
    using rt_step_sys [OF that] rt_step_reachable [OF that] rt_step_stops [OF that] rt_step_loops [OF that]
    unfolding rt_good_def by blast
qed (simp add: rt_start_good)

section \<open>Properties\<close>

lemma runtime_good: "rt_reachable ps s \<Longrightarrow> rt_good ps s"
  unfolding rt_reachable_def by (rule rt_sys.reaches_good)

lemma jobs_member: "q \<in> set (todo s g) \<Longrightarrow> stops q = Some c \<Longrightarrow> q \<in> set (jobs s g)"
  by (simp add: jobs_def)

lemma one_stopper:
  assumes "rt_good ps s" and "q \<in> set (todo s g)" "stops q = Some c" and "r \<in> set (todo s h)" "stops r = Some c"
  shows "g = h"
proof (rule ccontr)
  assume "g \<noteq> h"
  moreover have "stops_ok (jobs s) (stopper_at s) (stop_calls (sys s))" using assms(1) by (simp add: rt_good_def)
  ultimately have "set (map stops (jobs s g)) \<inter> set (map stops (jobs s h)) = {}" using stops_okD(2) by blast
  moreover have "Some c \<in> set (map stops (jobs s g))" "Some c \<in> set (map stops (jobs s h))"
    using jobs_member [OF assms(2,3)] jobs_member [OF assms(4,5)] assms(3,5) by (force simp: image_iff)+
  ultimately show False by blast
qed

lemma registered_open:
  assumes "rt_good ps s" and "cell_at s c = Some k" and "c \<in> fmran' (cells (sys s))"
  shows "\<not> mb_closed (mailbox k)"
proof -
  have "c \<notin> set (stop_calls (sys s))" using assms(1,3) by (auto simp: rt_good_def sys_inv_def)
  then have "stopper k = NotCalled"
    using stops_okD(5) [of "jobs s" "stopper_at s" "stop_calls (sys s)" c] assms(1,2) by (simp add: rt_good_def stopper_at_def)
  then show ?thesis using rt_good_cell(3) [OF assms(1,2)] by (simp add: stop_ok_def)
qed

text \<open>C11: The running system refines its parts: in every reachable state of any set of actors, whatever their
handlers and hooks send, spawn and stop, every cell is in a state its own protocol reaches (so the order,
delivery and stop guarantees of a single cell hold of every actor), no cell is being stopped by two
goroutines, and the mailbox of a registered actor is open.\<close>

theorem runtime_refines_cells:
  assumes "rt_reachable ps s" and "cell_at s c = Some k"
  shows "reachable_cell (program_actor (ps (id_of s c)) (id_of s c) c) (initial (ps (id_of s c)))
      (int (cell_size (heap (sys s) ! c))) k \<and>
    (\<forall>g h. \<forall>q\<in>set (todo s g). \<forall>r\<in>set (todo s h). stops q = Some c \<and> stops r = Some c \<longrightarrow> g = h) \<and>
    (c \<in> fmran' (cells (sys s)) \<longrightarrow> \<not> mb_closed (mailbox k))"
proof (intro conjI allI ballI impI)
  note good = runtime_good [OF assms(1)]
  show "reachable_cell (program_actor (ps (id_of s c)) (id_of s c) c) (initial (ps (id_of s c)))
      (int (cell_size (heap (sys s) ! c))) k"
    using good assms(2) by (simp add: rt_good_def)
  show "g = h" if "q \<in> set (todo s g)" "r \<in> set (todo s h)" "stops q = Some c \<and> stops r = Some c" for g h q r
    using one_stopper [OF good] that by blast
  show "\<not> mb_closed (mailbox k)" if "c \<in> fmran' (cells (sys s))" by (rule registered_open [OF good assms(2) that])
qed

fun awaited :: "'m pending list \<Rightarrow> nat option" where
  "awaited (Await c # qs) = Some c"
| "awaited _ = None"

lemma awaited_Some: "awaited qs = Some d \<longleftrightarrow> (\<exists>rs. qs = Await d # rs)"
  by (cases qs rule: awaited.cases) auto

definition cycle_waits :: "nat set \<Rightarrow> ('s, 'm) running \<Rightarrow> bool" where
  "cycle_waits D s \<longleftrightarrow> (\<forall>c\<in>D. \<exists>d\<in>D. awaited (todo s (Loop c)) = Some d)"

lemma waiting_handles:
  assumes "rt_good ps s" and "cycle_waits D s" and "c \<in> D"
  shows "begun s c \<and> (\<exists>k m. cell_at s c = Some k \<and> runner k = Handling m)"
proof -
  obtain d qs where "todo s (Loop c) = Await d # qs" using assms(2,3) unfolding cycle_waits_def awaited_Some by blast
  moreover have "loops_ok s" using assms(1) by (simp add: rt_good_def)
  ultimately show ?thesis unfolding loops_ok_def by (metis list.distinct(1))
qed

lemma cycle_step:
  assumes good: "rt_good ps s" and D: "cycle_waits D s" and step: "rt_step ps s t" and c: "c \<in> D"
  shows "todo t (Loop c) = todo s (Loop c)"
proof -
  obtain d qs where d: "d \<in> D" "todo s (Loop c) = Await d # qs" using D c unfolding cycle_waits_def awaited_Some by blast
  obtain k m where k: "cell_at s d = Some k" "runner k = Handling m" using waiting_handles [OF good D d(1)] by blast
  show ?thesis using step
  proof cases
    case (handler_entered c' k' m')
    then have "c' \<noteq> c" using waiting_handles [OF good D c] by blast
    then show ?thesis by (simp add: handler_entered(1))
  qed (use d k in auto)
qed

text \<open>Actors that stop each other deadlock: when each loop of a set waits, inside its handler, for a cell of
the set to exit, none of them ever moves again in any continuation: no call of Stop returns, no handler ends
and no further message of these actors is handled.  An actor that stops itself is the set of one.\<close>

theorem stop_cycle_deadlocks:
  assumes "rt_reachable ps s" and "cycle_waits D s" and "(rt_step ps)\<^sup>*\<^sup>* s t" and "c \<in> D"
  shows "todo t (Loop c) = todo s (Loop c) \<and> (\<exists>k m. cell_at t c = Some k \<and> runner k = Handling m)"
proof -
  have "rt_good ps t \<and> (\<forall>c\<in>D. todo t (Loop c) = todo s (Loop c))" using assms(3)
  proof (induction rule: rtranclp_induct)
    case base
    then show ?case using runtime_good [OF assms(1)] by simp
  next
    case (step t u)
    then have D: "cycle_waits D t" using assms(2) unfolding cycle_waits_def by simp
    have "todo u (Loop c) = todo t (Loop c)" if "c \<in> D" for c
      by (rule cycle_step [OF conjunct1 [OF step.IH] D step.hyps(2) that])
    then show ?case using step.IH rt_sys.step_good [OF conjunct1 [OF step.IH] step.hyps(2)] by simp
  qed
  moreover from this have "cycle_waits D t" using assms(2) unfolding cycle_waits_def by simp
  ultimately show ?thesis using waiting_handles [of ps t D c] assms(4) by blast
qed

section \<open>Schedules\<close>

text \<open>
  The steps as a function of who moves: a goroutine does the first thing it has to do (of two ready cases of a
  \<^verbatim>\<open>select\<close> the send), a loop goes on, or an external goroutine begins some calls.
\<close>

datatype 'm move = Run goroutine | Go nat | Begin nat "'m call list"

definition on_cell :: "nat \<Rightarrow> ('s, 'm) running \<Rightarrow> (('s, 'm) cell \<Rightarrow> ('s, 'm) running option) \<Rightarrow> ('s, 'm) running option" where
  "on_cell c s f = Option.bind (cell_at s c) f"

fun run_pending :: "('s, 'm) programs \<Rightarrow> goroutine \<Rightarrow> 'm pending \<Rightarrow> 'm pending list \<Rightarrow> ('s, 'm) running \<Rightarrow> ('s, 'm) running option" where
  "run_pending ps g (Call (Tell c m)) qs s = on_cell c s (\<lambda>k. Some (case enqueue_check (mailbox k) of
     None \<Rightarrow> put c (k\<lparr>senders := senders k @ [m]\<rparr>) g (Select c m # qs) s
   | Some e \<Rightarrow> put c (k\<lparr>rejected := rejected k @ [m]\<rparr>) g qs s))"
| "run_pending ps g (Select c m) qs s = on_cell c s (\<lambda>k. case senders k of [] \<Rightarrow> None
   | m' # ms \<Rightarrow> (if m' = m then (case enqueue_select m (k\<lparr>senders := ms\<rparr>) of [] \<Rightarrow> None | r # rs \<Rightarrow> Some (put c (log_tell m r) g qs s))
      else None))"
| "run_pending ps g (Call (StopActor p)) qs s = (case Stop p (sys s) of (sys', out) \<Rightarrow>
     if out = Return () then Some (s\<lparr>sys := sys', todo := (todo s)(g := map Close (taken_out (sys s) sys') @ qs)\<rparr>) else None)"
| "run_pending ps g (Close c) qs s = on_cell c s (\<lambda>k.
     Some (put c ((stop_close k)\<lparr>self_stopped := self_stopped k \<or> g = Loop c\<rparr>) g (Signal c # qs) s))"
| "run_pending ps g (Signal c) qs s = on_cell c s (\<lambda>k. if send_ready k then Some (put c (stop_signal k) g (Await c # qs) s) else None)"
| "run_pending ps g (Call (SpawnSized aid n)) qs s = (case SpawnWithMailboxSize aid (int n) (sys s) of
     (sys', Return (Inr p)) \<Rightarrow> map_option (\<lambda>k. s\<lparr>sys := sys', cell_at := (cell_at s)(pid_cell p := Some k), todo := (todo s)(g :=
        map Call (snd (on_start (ps aid) (context_of aid (pid_cell p)) (initial (ps aid)))) @ GoRun (pid_cell p) # qs)\<rparr>)
        (start_cell (program_actor (ps aid) aid (pid_cell p)) (initial (ps aid)) (int n))
   | _ \<Rightarrow> None)"
| "run_pending ps g (GoRun c) qs s = on_cell c s (\<lambda>k. if runner k = NotStarted then Some (put c (k\<lparr>runner := Receiving\<rparr>) g qs s) else None)"
| "run_pending ps g (Call (Output m)) qs s = Some (s\<lparr>outputs := outputs s @ [m], todo := (todo s)(g := qs)\<rparr>)"
| "run_pending ps g _ qs s = None"

fun run_move :: "('s, 'm) programs \<Rightarrow> 'm move \<Rightarrow> ('s, 'm) running \<Rightarrow> ('s, 'm) running option" where
  "run_move ps (Run g) s = (case todo s g of [] \<Rightarrow> None | q # qs \<Rightarrow> run_pending ps g q qs s)"
| "run_move ps (Go c) s = on_cell c s (\<lambda>k. case runner k of
     Handling m \<Rightarrow> if begun s c then None else Some (s\<lparr>begun := (begun s)(c := True), todo := (todo s)(Loop c :=
        map Call (snd (on_message (prog_of ps s c) (context_of (id_of s c) c) (actor_state k) m)))\<rparr>)
   | _ \<Rightarrow> None)"
| "run_move ps (Begin i calls) s = (if todo s (Ext i) = [] then Some (s\<lparr>todo := (todo s)(Ext i := map Call calls)\<rparr>) else None)"

fun run_moves :: "('s, 'm) programs \<Rightarrow> 'm move list \<Rightarrow> ('s, 'm) running \<Rightarrow> ('s, 'm) running option" where
  "run_moves ps [] s = Some s"
| "run_moves ps (a # as) s = Option.bind (run_move ps a s) (run_moves ps as)"

lemma on_cell_Some: "on_cell c s f = Some t \<longleftrightarrow> (\<exists>k. cell_at s c = Some k \<and> f k = Some t)"
  by (auto simp: on_cell_def bind_eq_Some_conv)

lemma run_pending_step: "todo s g = q # qs \<Longrightarrow> run_pending ps g q qs s = Some t \<Longrightarrow> rt_step ps s t"
proof (induction ps g q qs s rule: run_pending.induct)
  case (1 ps g c m qs s)
  then obtain k where k: "cell_at s c = Some k" "t = (case enqueue_check (mailbox k) of
      None \<Rightarrow> put c (k\<lparr>senders := senders k @ [m]\<rparr>) g (Select c m # qs) s | Some e \<Rightarrow> put c (k\<lparr>rejected := rejected k @ [m]\<rparr>) g qs s)"
    by (auto simp: on_cell_Some)
  show ?case using rt_step.tell_passed [OF 1(1) k(1)] rt_step.tell_closed [OF 1(1) k(1)] k(2)
    by (cases "enqueue_check (mailbox k)") simp_all
next
  case (2 ps g c m qs s)
  then obtain k where k: "cell_at s c = Some k" by (auto simp: on_cell_Some)
  obtain ms where ms: "senders k = [] @ m # ms" using 2(2) k by (auto simp: on_cell_def split: list.splits if_splits)
  obtain r rs where r: "enqueue_select m (k\<lparr>senders := [] @ ms\<rparr>) = r # rs"
    using 2(2) k ms by (cases "enqueue_select m (k\<lparr>senders := ms\<rparr>)") (simp_all add: on_cell_def)
  then show ?case using rt_step.tell_done [OF 2(1) k ms, of r] 2(2) k ms by (simp add: on_cell_def)
next
  case (3 ps g p qs s)
  then show ?case by (auto split: prod.splits if_splits intro: rt_step.stop_taken)
next
  case (4 ps g c qs s)
  then show ?case by (auto simp: on_cell_Some intro: rt_step.mailbox_closed)
next
  case (5 ps g c qs s)
  then show ?case by (auto simp: on_cell_Some split: if_splits intro: rt_step.signal_queued)
next
  case (6 ps g aid n qs s)
  then show ?case by (auto split: prod.splits outcome.splits sum.splits intro: rt_step.spawned)
next
  case (7 ps g c qs s)
  then show ?case by (auto simp: on_cell_Some split: if_splits intro: rt_step.loop_started)
next
  case (8 ps g m qs s)
  then show ?case by (auto intro: rt_step.put_out)
qed simp_all

lemma run_move_step: "run_move ps a s = Some t \<Longrightarrow> rt_step ps s t"
proof (induction ps a s rule: run_move.induct)
  case (1 ps g s)
  then show ?case by (auto split: list.splits intro: run_pending_step)
next
  case (2 ps c s)
  then obtain k where k: "cell_at s c = Some k" by (auto simp: on_cell_Some)
  with 2 obtain m where m: "runner k = Handling m" by (cases "runner k") (simp_all add: on_cell_def)
  show ?case using 2 k m rt_step.handler_entered [OF k m, of ps] by (simp add: on_cell_def split: if_splits)
next
  case (3 ps i calls s)
  then show ?case by (auto split: if_splits intro: rt_step.external)
qed

lemma run_moves_runtime: "run_moves ps as s = Some t \<Longrightarrow> rt_reachable ps s \<Longrightarrow> rt_reachable ps t"
proof (induction as arbitrary: s)
  case (Cons a as)
  then obtain u where u: "run_move ps a s = Some u" "run_moves ps as u = Some t" by (auto simp: bind_eq_Some_conv)
  have "rt_reachable ps u" using Cons.prems(2) reaches_step run_move_step [OF u(1)] unfolding rt_reachable_def by metis
  then show ?case by (rule Cons.IH [OF u(2)])
qed simp

lemma runtime_start: "rt_reachable ps rt_start"
  by (simp add: rt_reachable_def reaches_start)

text \<open>Two actors, each of which stops the other when it gets a message, and how they block each other.\<close>

definition rivals :: "(nat, nat) programs" where
  "rivals aid = \<lparr>initial = 0, on_start = (\<lambda>ctx s. (s, [])),
     on_message = (\<lambda>ctx s m. (s + m, [context_Stop ctx \<lparr>pid_id = (if aid = ''a'' then ''b'' else ''a''), pid_cell = 0\<rparr>])),
     on_stop = (\<lambda>ctx s. (s, []))\<rparr>"

definition rival_moves :: "nat move list" where
  "rival_moves = Begin 0 [SpawnSized ''a'' 1, SpawnSized ''b'' 1, Tell 0 5, Tell 1 7] #
     replicate 8 (Run (Ext 0)) @ [Go 0, Go 1] @ concat (replicate 3 [Run (Loop 0), Run (Loop 1)])"

definition rivals_blocked :: "(nat, nat) running" where
  "rivals_blocked = the (run_moves rivals rival_moves rt_start)"

lemma rivals_run: "run_moves rivals rival_moves rt_start \<noteq> None \<and> cycle_waits {0, 1} rivals_blocked \<and>
    map_option delivered (cell_at rivals_blocked 1) = Some [7]"
  unfolding rivals_blocked_def by code_simp

lemma rivals_blocked: "rt_reachable rivals rivals_blocked" "cycle_waits {0, 1} rivals_blocked"
    "cell_at rivals_blocked 1 = Some (the (cell_at rivals_blocked 1))"
  using rivals_run run_moves_runtime [OF _ runtime_start] unfolding rivals_blocked_def by auto

theorem runtime_refines_cells_witness:
  "reachable_cell (program_actor (rivals (id_of rivals_blocked 1)) (id_of rivals_blocked 1) 1) (initial (rivals (id_of rivals_blocked 1)))
      (int (cell_size (heap (sys rivals_blocked) ! 1))) (the (cell_at rivals_blocked 1)) \<and>
    Await 1 \<notin> set (todo rivals_blocked (Ext 0))"
proof -
  have "Await 1 \<in> set (todo rivals_blocked (Loop 0))" unfolding rivals_blocked_def by code_simp
  then show ?thesis using runtime_refines_cells [OF rivals_blocked(1,3)] by fastforce
qed

theorem stop_cycle_deadlocks_witness:
  "todo rivals_blocked (Loop 1) = todo rivals_blocked (Loop 1) \<and>
   (\<exists>k m. cell_at rivals_blocked 1 = Some k \<and> runner k = Handling m)"
  by (rule stop_cycle_deadlocks [OF rivals_blocked(1,2) rtranclp.rtrancl_refl]) simp

end
