(* ===== verification/ActorProgress.thy ===== *)
theory ActorProgress
  imports ActorRuntime
begin

text \<open>
  When does a system of actors come to a halt?  In a state in which no goroutine can move, every goroutine that
  has something left to do waits for another one with something left to do: at a full mailbox or at a stop, for
  the handler that keeps the run loop busy, or for the spawning goroutine that has not begun the loop.  So a
  system halts with work left only in a cycle of waits.
\<close>

section \<open>Bookkeeping of pending sends and starts\<close>

fun is_select :: "'m pending \<Rightarrow> bool" where
  "is_select (Select c m) \<longleftrightarrow> True"
| "is_select _ \<longleftrightarrow> False"

text \<open>The goroutines between the two selects of a send of \<open>m\<close> to cell \<open>c\<close>; the cell lists the message.\<close>

definition selecting :: "('s, 'm) running \<Rightarrow> nat \<Rightarrow> 'm \<Rightarrow> goroutine set" where
  "selecting s c m = {g. \<exists>qs. todo s g = Select c m # qs}"

definition listed :: "('s, 'm) running \<Rightarrow> nat \<Rightarrow> 'm \<Rightarrow> nat" where
  "listed s c m = (case cell_at s c of None \<Rightarrow> 0 | Some k \<Rightarrow> count_list (senders k) m)"

definition sends_ok :: "('s, 'm) running \<Rightarrow> bool" where
  "sends_ok s \<longleftrightarrow> (\<forall>g. \<forall>q\<in>set (tl (todo s g)). \<not> is_select q) \<and>
     (\<forall>c m. finite (selecting s c m) \<and> card (selecting s c m) = listed s c m)"

definition not_started :: "('s, 'm) running \<Rightarrow> nat \<Rightarrow> bool" where
  "not_started s c \<longleftrightarrow> (\<exists>k. cell_at s c = Some k \<and> runner k = NotStarted)"

abbreviation starts :: "('s, 'm) running \<Rightarrow> goroutine \<Rightarrow> nat \<Rightarrow> nat" where
  "starts s g c \<equiv> count_list (todo s g) (GoRun c)"

text \<open>A cell whose loop has not begun has one goroutine that will begin it, another cell none.\<close>

definition one_start :: "bool \<Rightarrow> (goroutine \<Rightarrow> nat) \<Rightarrow> bool" where
  "one_start b f \<longleftrightarrow> (if b then \<exists>g. f g = 1 \<and> (\<forall>h. h \<noteq> g \<longrightarrow> f h = 0) else \<forall>g. f g = 0)"

definition starts_ok :: "('s, 'm) running \<Rightarrow> bool" where
  "starts_ok s \<longleftrightarrow> (\<forall>c. one_start (not_started s c) (\<lambda>g. starts s g c))"

lemma sends_okI:
  assumes "\<And>g q. q \<in> set (tl (todo s g)) \<Longrightarrow> \<not> is_select q"
    and "\<And>c m. finite (selecting s c m) \<and> card (selecting s c m) = listed s c m"
  shows "sends_ok s"
  using assms by (simp add: sends_ok_def)

lemma sends_keep:
  assumes ok: "sends_ok s" and t: "todo t = (todo s)(g := qs')" and new: "\<forall>q\<in>set qs'. \<not> is_select q"
    and old: "\<not> (\<exists>c m qs. todo s g = Select c m # qs)" and listed: "\<And>c m. listed t c m = listed s c m"
  shows "sends_ok t"
proof (rule sends_okI)
  show "\<not> is_select q" if "q \<in> set (tl (todo t h))" for h q
    using that ok new unfolding sends_ok_def t by (cases "h = g") (auto dest: list.set_sel(2) [rotated], (cases qs'; simp)+)
  have "selecting t c m = selecting s c m" for c m
    using new old by (auto simp: selecting_def t split: if_splits)
  then show "finite (selecting t c m) \<and> card (selecting t c m) = listed t c m" for c m
    using ok listed by (simp add: sends_ok_def)
qed

lemma sends_same:
  assumes "sends_ok s" and "todo t = todo s" and "\<And>c m. listed t c m = listed s c m"
  shows "sends_ok t"
  using assms by (simp add: sends_ok_def selecting_def)

lemma no_selects: "sends_ok s \<Longrightarrow> todo s g = q # qs \<Longrightarrow> r \<in> set qs \<Longrightarrow> \<not> is_select r"
  unfolding sends_ok_def by (metis list.sel(3))

lemma calls_no_selects [simp]: "q \<in> set (map Call cs) \<Longrightarrow> \<not> is_select q" "q \<in> set (map Close xs) \<Longrightarrow> \<not> is_select q"
  by auto

lemma sends_passed:
  assumes ok: "sends_ok s" and g: "todo s g = Call (Tell c m) # qs" and k: "cell_at s c = Some k"
  shows "sends_ok (put c (k\<lparr>senders := senders k @ [m]\<rparr>) g (Select c m # qs) s)" (is "sends_ok ?t")
proof (rule sends_okI)
  show "\<not> is_select q" if "q \<in> set (tl (todo ?t h))" for h q
    using that ok no_selects [OF ok g] by (cases "h = g") (auto simp: sends_ok_def)
  fix c' m'
  have "selecting ?t c' m' = (if c' = c \<and> m' = m then insert g (selecting s c' m') else selecting s c' m')"
    using g by (auto simp: selecting_def split: if_splits)
  moreover have "g \<notin> selecting s c' m'" using g by (simp add: selecting_def)
  moreover have "listed ?t c' m' = (if c' = c \<and> m' = m then Suc (listed s c' m') else listed s c' m')"
    using k by (simp add: listed_def)
  moreover have "finite (selecting s c' m')" "card (selecting s c' m') = listed s c' m'" using ok by (simp_all add: sends_ok_def)
  ultimately show "finite (selecting ?t c' m') \<and> card (selecting ?t c' m') = listed ?t c' m'"
    by (cases "c' = c \<and> m' = m") simp_all
qed

lemma senders_select:
  "r \<in> set (enqueue_select m (k\<lparr>senders := ss\<rparr>)) \<Longrightarrow> senders (log_tell m r) = ss"
  "senders (stop_signal k) = senders k" "senders (receive_next k) = senders k"
  "senders (stop_close k) = senders k" "senders (stop_return a k) = senders k" "senders (finish_message a m k) = senders k"
  by (auto simp: cell_defs split: if_splits envelope.splits list.splits)

lemma sends_done:
  assumes ok: "sends_ok s" and g: "todo s g = Select c m # qs" and k: "cell_at s c = Some k" "senders k = xs @ m # ys"
    and k': "senders k' = xs @ ys"
  shows "sends_ok (put c k' g qs s)" (is "sends_ok ?t")
proof (rule sends_okI)
  show "\<not> is_select q" if "q \<in> set (tl (todo ?t h))" for h q
    using that ok no_selects [OF ok g] by (cases "h = g"; cases qs) (auto simp: sends_ok_def)
  fix c' m'
  have "todo ?t g \<noteq> Select c'' m'' # qs''" for c'' m'' qs'' using no_selects [OF ok g, of "Select c'' m''"] by auto
  then have "selecting ?t c' m' = (if c' = c \<and> m' = m then selecting s c' m' - {g} else selecting s c' m')"
    using g by (auto simp: selecting_def split: if_splits)
  moreover have "c' = c \<and> m' = m \<Longrightarrow> g \<in> selecting s c' m'" using g by (simp add: selecting_def)
  moreover have "listed ?t c' m' = (if c' = c \<and> m' = m then listed s c' m' - 1 else listed s c' m')"
    using k k' by (simp add: listed_def count_list_append)
  moreover have "finite (selecting s c' m')" "card (selecting s c' m') = listed s c' m'" using ok by (simp_all add: sends_ok_def)
  ultimately show "finite (selecting ?t c' m') \<and> card (selecting ?t c' m') = listed ?t c' m'"
    by (cases "c' = c \<and> m' = m") simp_all
qed

lemma listed_put:
  "cell_at s c = Some k \<Longrightarrow> senders k' = senders k \<Longrightarrow> listed (put c k' g qs s) c' m = listed s c' m"
  by (simp add: listed_def)

lemma rt_step_sends:
  assumes good: "rt_good ps s" and ok: "sends_ok s" and "rt_step ps s t"
  shows "sends_ok t"
  using assms(3)
proof cases
  note old = no_selects [OF ok]
  {
    case (tell_passed g c m qs k)
    show ?thesis unfolding tell_passed(1) by (rule sends_passed [OF ok tell_passed(2,3)])
  next
    case (tell_done g c m qs k xs ys r)
    show ?thesis unfolding tell_done(1) by (rule sends_done [OF ok tell_done(2,3,4) senders_select(1) [OF tell_done(5)]])
  next
    case (tell_closed g c m qs k e)
    show ?thesis using tell_closed old [OF tell_closed(2)]
      by (intro sends_keep [OF ok, of t g qs]) (simp_all add: listed_put)
  next
    case (stop_taken g p qs sys')
    show ?thesis using stop_taken old [OF stop_taken(2)]
      by (intro sends_keep [OF ok, of t g "map Close (taken_out (sys s) sys') @ qs"]) (auto simp: listed_def)
  next
    case (shutdown_taken g qs ord sys')
    show ?thesis using shutdown_taken old [OF shutdown_taken(2)]
      by (intro sends_keep [OF ok, of t g "map Close (taken_out (sys s) sys') @ qs"]) (auto simp: listed_def)
  next
    case (mailbox_closed g c qs k)
    show ?thesis using mailbox_closed old [OF mailbox_closed(2)]
      by (intro sends_keep [OF ok, of t g "Signal c # qs"]) (auto simp: listed_put senders_select)
  next
    case (signal_queued g c qs k)
    show ?thesis using signal_queued old [OF signal_queued(2)]
      by (intro sends_keep [OF ok, of t g "Await c # qs"]) (auto simp: listed_put senders_select)
  next
    case (stop_done g c qs k)
    show ?thesis using stop_done old [OF stop_done(2)]
      by (intro sends_keep [OF ok, of t g "map Call (snd (on_stop (prog_of ps s c) (context_of (id_of s c) c) (actor_state k))) @ qs"])
        (auto simp: listed_put senders_select)
  next
    case (spawned g aid n qs sys' p k)
    have "cell_at s (pid_cell p) = None" using good spawn_takes(5) [OF _ spawned(3)] by (simp add: rt_good_def)
    moreover have "senders k = []" using spawned(4) by (auto simp: start_cell_def split: option.splits)
    ultimately show ?thesis using spawned old [OF spawned(2)]
      by (intro sends_keep [OF ok, of t g "map Call (snd (on_start (ps aid) (context_of aid (pid_cell p)) (initial (ps aid)))) @ GoRun (pid_cell p) # qs"])
        (auto simp: listed_def)
  next
    case (spawn_refused g aid n qs sys' e)
    show ?thesis using spawn_refused old [OF spawn_refused(2)]
      by (intro sends_keep [OF ok, of t g qs]) (auto simp: listed_def)
  next
    case (loop_started g c qs k)
    show ?thesis using loop_started old [OF loop_started(2)]
      by (intro sends_keep [OF ok, of t g qs]) (auto simp: listed_put)
  next
    case (received c k)
    then show ?thesis by (intro sends_same [OF ok]) (auto simp: listed_def senders_select)
  next
    case (handler_entered c k m)
    have "todo s (Loop c) = []" using good handler_entered(4) unfolding rt_good_def loops_ok_def by blast
    then show ?thesis using handler_entered
      by (intro sends_keep [OF ok, of t "Loop c" "map Call (snd (on_message (prog_of ps s c) (context_of (id_of s c) c) (actor_state k) m))"])
        (auto simp: listed_def)
  next
    case (handler_returned c k m)
    then show ?thesis by (intro sends_same [OF ok]) (auto simp: listed_def senders_select)
  next
    case (put_out g m qs)
    show ?thesis using put_out old [OF put_out(2)]
      by (intro sends_keep [OF ok, of t g qs]) (auto simp: listed_def)
  next
    case (external i calls)
    then show ?thesis by (intro sends_keep [OF ok, of t "Ext i" "map Call calls"]) (auto simp: listed_def)
  }
qed

text \<open>The same for the loops that have not begun.\<close>

lemma starts_keep:
  assumes ok: "starts_ok s" and "\<And>g c. starts t g c = starts s g c" and "\<And>c. not_started t c = not_started s c"
  shows "starts_ok t"
  using assms by (simp add: starts_ok_def)

lemma starts_upd: "todo s g = q # qs \<Longrightarrow> todo t = (todo s)(g := qs') \<Longrightarrow>
    (\<And>c. count_list qs' (GoRun c) = count_list (q # qs) (GoRun c)) \<Longrightarrow> starts t h c = starts s h c"
  by (cases "h = g") simp_all

lemma count_calls [simp]: "count_list (map Call cs @ qs) (GoRun c) = count_list qs (GoRun c)"
  "count_list (map Close xs @ qs) (GoRun c) = count_list qs (GoRun c)"
  by (auto simp: count_list_append count_list_0_iff)

lemma count_only_calls [simp]: "count_list (map Call cs) (GoRun c) = 0" "count_list (map Close xs) (GoRun c) = 0"
  by (auto simp: count_list_0_iff)

lemma runner_select:
  "r \<in> set (enqueue_select m (k\<lparr>senders := ss\<rparr>)) \<Longrightarrow> (runner (log_tell m r) = NotStarted) = (runner k = NotStarted)"
  "(runner (stop_signal k) = NotStarted) = (runner k = NotStarted)"
  "runner (stop_close k) = runner k" "runner (stop_return a k) = runner k"
  by (auto simp: cell_defs split: if_splits envelope.splits runner.splits)

lemma not_started_put:
  "cell_at s c = Some k \<Longrightarrow> (runner k' = NotStarted) = (runner k = NotStarted) \<Longrightarrow> not_started (put c k' g qs s) d = not_started s d"
  by (auto simp: not_started_def)

lemma starts_put:
  assumes "starts_ok s" and "todo s g = q # qs" and "cell_at s c = Some k" and "(runner k' = NotStarted) = (runner k = NotStarted)"
    and "\<And>c. count_list qs' (GoRun c) = count_list (q # qs) (GoRun c)"
  shows "starts_ok (put c k' g qs' s)"
  by (rule starts_keep [OF assms(1)]) (simp_all add: not_started_put [OF assms(3,4)] assms(2,5))

lemma starts_spawned:
  assumes ok: "starts_ok s" and g: "todo s g = q # qs" "\<And>c. q \<noteq> GoRun c" and new: "cell_at s n = None"
    and k: "runner k = NotStarted" and t: "cell_at t = (cell_at s)(n := Some k)" "todo t = (todo s)(g := map Call cs @ GoRun n # qs)"
  shows "starts_ok t"
  unfolding starts_ok_def
proof (intro allI)
  fix c
  have starts: "starts t h c = (if h = g \<and> c = n then Suc (starts s h c) else starts s h c)" for h using g by (simp add: t(2))
  have ns: "not_started t c = (c = n \<or> not_started s c)" using new k by (auto simp: not_started_def t(1))
  show "one_start (not_started t c) (\<lambda>g. starts t g c)"
  proof (cases "c = n")
    case True
    have "\<not> not_started s n" using new by (simp add: not_started_def)
    then have "starts s h n = 0" for h using ok unfolding starts_ok_def one_start_def by presburger
    then have "starts t h c = (if h = g then 1 else 0)" for h unfolding starts using True by simp
    then show ?thesis using ns True by (simp add: one_start_def)
  next
    case False
    then show ?thesis using ok unfolding starts_ok_def starts ns by simp
  qed
qed

lemma starts_begun:
  assumes ok: "starts_ok s" and g: "todo s g = GoRun c # qs" and k: "cell_at s c = Some k" "runner k' \<noteq> NotStarted"
  shows "starts_ok (put c k' g qs s)" (is "starts_ok ?t")
  unfolding starts_ok_def
proof (intro allI)
  fix d
  have ns: "not_started ?t d = (d \<noteq> c \<and> not_started s d)" using k by (auto simp: not_started_def)
  have starts: "starts ?t h d = (if h = g \<and> d = c then starts s h d - 1 else starts s h d)" for h using g by simp
  show "one_start (not_started ?t d) (\<lambda>g. starts ?t g d)"
  proof (cases "d = c")
    case True
    have pos: "starts s g c \<noteq> 0" using g by simp
    have "one_start (not_started s c) (\<lambda>g. starts s g c)" using ok by (simp add: starts_ok_def)
    then obtain h where h: "starts s h c = 1" "\<And>h'. h' \<noteq> h \<Longrightarrow> starts s h' c = 0"
      using pos unfolding one_start_def by (cases "not_started s c") auto
    have "h = g" using h(2) [of g] pos by auto
    then have "starts ?t h' d = 0" for h' unfolding starts using h True by simp
    then show ?thesis using ns True by (simp add: one_start_def)
  next
    case False
    then show ?thesis using ok unfolding starts_ok_def starts ns by simp
  qed
qed

lemma rt_step_starts:
  assumes good: "rt_good ps s" and ok: "starts_ok s" and "rt_step ps s t"
  shows "starts_ok t"
  using assms(3)
proof cases
  {
    case (tell_passed g c m qs k)
    show ?thesis unfolding tell_passed(1) by (rule starts_put [OF ok tell_passed(2,3)]) simp_all
  next
    case (tell_done g c m qs k xs ys r)
    show ?thesis unfolding tell_done(1)
      by (rule starts_put [OF ok tell_done(2,3)]) (simp_all add: runner_select(1) [OF tell_done(5)])
  next
    case (tell_closed g c m qs k e)
    show ?thesis unfolding tell_closed(1) by (rule starts_put [OF ok tell_closed(2,3)]) simp_all
  next
    case (stop_taken g p qs sys')
    show ?thesis by (rule starts_keep [OF ok]) (simp_all add: stop_taken(1,2) not_started_def)
  next
    case (shutdown_taken g qs ord sys')
    show ?thesis by (rule starts_keep [OF ok]) (simp_all add: shutdown_taken(1,2) not_started_def)
  next
    case (mailbox_closed g c qs k)
    show ?thesis unfolding mailbox_closed(1)
      by (rule starts_put [OF ok mailbox_closed(2,3)]) (simp_all add: runner_select)
  next
    case (signal_queued g c qs k)
    show ?thesis unfolding signal_queued(1)
      by (rule starts_put [OF ok signal_queued(2,3)]) (simp_all add: runner_select)
  next
    case (stop_done g c qs k)
    show ?thesis unfolding stop_done(1)
      by (rule starts_put [OF ok stop_done(2,3)]) (simp_all add: runner_select)
  next
    case (spawned g aid n qs sys' p k)
    have "cell_at s (pid_cell p) = None" using good spawn_takes(5) [OF _ spawned(3)] by (simp add: rt_good_def)
    moreover have "runner k = NotStarted" using spawned(4) by (auto simp: start_cell_def split: option.splits)
    ultimately show ?thesis by (intro starts_spawned [OF ok spawned(2)]) (simp_all add: spawned(1))
  next
    case (spawn_refused g aid n qs sys' e)
    show ?thesis by (rule starts_keep [OF ok]) (simp_all add: spawn_refused(1,2) not_started_def)
  next
    case (loop_started g c qs k)
    show ?thesis unfolding loop_started(1) by (rule starts_begun [OF ok loop_started(2,3)]) simp
  next
    case (received c k)
    then have "runner (receive_next k) \<noteq> NotStarted"
      by (simp add: receive_next_def take_envelope_def split: list.split envelope.split)
    then show ?thesis by (intro starts_keep [OF ok]) (auto simp: received not_started_def)
  next
    case (handler_entered c k m)
    have "todo s (Loop c) = []" using good handler_entered(4) unfolding rt_good_def loops_ok_def by blast
    then show ?thesis by (intro starts_keep [OF ok]) (auto simp: handler_entered(1) not_started_def)
  next
    case (handler_returned c k m)
    then show ?thesis by (intro starts_keep [OF ok]) (auto simp: finish_message_def not_started_def)
  next
    case (put_out g m qs)
    show ?thesis by (rule starts_keep [OF ok]) (simp_all add: put_out(1,2) not_started_def)
  next
    case (external i calls)
    then show ?thesis by (intro starts_keep [OF ok]) (auto simp: not_started_def)
  }
qed

definition rt_pending :: "('s, 'm) programs \<Rightarrow> ('s, 'm) running \<Rightarrow> bool" where
  "rt_pending ps s \<longleftrightarrow> rt_good ps s \<and> sends_ok s \<and> starts_ok s"

interpretation rt_pending: safe_system "\<lambda>s. s = rt_start" "rt_step ps" "rt_pending ps" for ps
proof unfold_locales
  show "rt_pending ps t" if "rt_pending ps s" and "rt_step ps s t" for s t
    using that rt_sys.step_good rt_step_sends rt_step_starts unfolding rt_pending_def by metis
  show "rt_pending ps s" if "s = rt_start" for s
    unfolding that rt_pending_def
    by (simp add: rt_start_good, simp add: rt_start_def sends_ok_def starts_ok_def selecting_def listed_def one_start_def not_started_def)
qed

section \<open>Who waits for whom\<close>

text \<open>The cell whose progress the next thing to do needs, and the goroutine that has to move it.\<close>

fun needs :: "'m pending list \<Rightarrow> nat option" where
  "needs (Select c m # qs) = Some c"
| "needs (Signal c # qs) = Some c"
| "needs (Await c # qs) = Some c"
| "needs _ = None"

text \<open>What it waits for: room in an open mailbox, room for the stop signal, or the end of the loop.\<close>

fun held_by :: "'m pending list \<Rightarrow> ('s, 'm) cell \<Rightarrow> bool" where
  "held_by (Select c m # qs) k \<longleftrightarrow> \<not> mb_closed (mailbox k) \<and> \<not> send_ready k"
| "held_by (Signal c # qs) k \<longleftrightarrow> \<not> send_ready k"
| "held_by (Await c # qs) k \<longleftrightarrow> runner k \<noteq> Exited"
| "held_by _ k \<longleftrightarrow> False"

definition waits_for :: "('s, 'm) running \<Rightarrow> goroutine \<Rightarrow> goroutine \<Rightarrow> bool" where
  "waits_for s g h \<longleftrightarrow> (\<exists>c k. needs (todo s g) = Some c \<and> cell_at s c = Some k \<and> held_by (todo s g) k \<and>
     (if not_started s c then GoRun c \<in> set (todo s h) else h = Loop c \<and> todo s h \<noteq> []))"

text \<open>Nothing that is going on goes on; every message is told to an actor there is (a PID holds a pointer to
its cell).\<close>

definition halted :: "('s, 'm) programs \<Rightarrow> ('s, 'm) running \<Rightarrow> bool" where
  "halted ps s \<longleftrightarrow> (\<forall>t. rt_step ps s t \<longrightarrow>
     cell_at t = cell_at s \<and> begun t = begun s \<and> (\<forall>g. todo s g \<noteq> [] \<longrightarrow> todo t g = todo s g))"

definition pids_ok :: "('s, 'm) running \<Rightarrow> bool" where
  "pids_ok s \<longleftrightarrow> (\<forall>g c m. Call (Tell c m) \<in> set (todo s g) \<longrightarrow> cell_at s c \<noteq> None)"

lemma halted_todo:
  assumes "halted ps s" and "todo s g = q # qs" and "rt_step ps s t" and "length (todo t g) \<noteq> Suc (length qs) \<or> hd (todo t g) \<noteq> q"
  shows False
proof -
  have "todo t g = q # qs" using assms(1-3) unfolding halted_def by (metis list.distinct(1))
  then show False using assms(4) by simp
qed

lemma handling_busy:
  assumes "halted ps s" and "cell_at s c = Some k" and "runner k = Handling m"
  shows "todo s (Loop c) \<noteq> []"
proof
  assume idle: "todo s (Loop c) = []"
  show False
  proof (cases "begun s c")
    case True
    from rt_step.handler_returned [OF assms(2,3) True idle, of ps] assms(1) have "(begun s)(c := False) = begun s"
      unfolding halted_def by fastforce
    then show False using True by (metis fun_upd_same)
  next
    case False
    from rt_step.handler_entered [OF assms(2,3) False, of ps] assms(1) have "(begun s)(c := True) = begun s"
      unfolding halted_def by fastforce
    then show False using False by (metis fun_upd_same)
  qed
qed

lemma receiving_empty:
  assumes "halted ps s" and "cell_at s c = Some k" and "runner k = Receiving"
  shows "ch (mailbox k) = []"
proof (rule ccontr)
  assume "ch (mailbox k) \<noteq> []"
  from rt_step.received [OF assms(2,3) this, of ps] assms(1) have "(cell_at s)(c := Some (receive_next k)) = cell_at s"
    unfolding halted_def by fastforce
  then have "receive_next k = k" using assms(2) by (metis fun_upd_same option.inject)
  moreover have "runner (receive_next k) \<noteq> Receiving" using \<open>ch (mailbox k) \<noteq> []\<close>
    by (simp add: receive_next_def take_envelope_def split: list.split envelope.split)
  ultimately show False using assms(3) by simp
qed

text \<open>A cell that does not wait for a message in front of an empty mailbox and has not exited is held up by a busy
goroutine.\<close>

lemma held_up:
  assumes "rt_pending ps s" and "halted ps s" and "cell_at s c = Some k" and "runner k \<noteq> Exited" and "\<not> receiver_waits k"
  shows "\<exists>h. todo s h \<noteq> [] \<and> (if not_started s c then GoRun c \<in> set (todo s h) else h = Loop c)"
proof (cases "runner k")
  case NotStarted
  then have "not_started s c" using assms(3) by (simp add: not_started_def)
  moreover have "one_start (not_started s c) (\<lambda>g. starts s g c)" using assms(1) by (simp add: rt_pending_def starts_ok_def)
  ultimately obtain h where "starts s h c = 1" by (auto simp: one_start_def)
  then have "GoRun c \<in> set (todo s h)" by (metis count_list_0_iff zero_neq_one)
  then show ?thesis using \<open>not_started s c\<close> by (intro exI [of _ h]) auto
next
  case Receiving
  then show ?thesis using receiving_empty [OF assms(2,3)] assms(5) by (simp add: receiver_waits_def)
next
  case (Handling m)
  then have "\<not> not_started s c" using assms(3) by (simp add: not_started_def)
  then show ?thesis using handling_busy [OF assms(2,3) Handling] by auto
qed (use assms(4) in simp)

lemma stopped_cell:
  assumes "rt_pending ps s" and "todo s g = q # qs" and "stops q = Some c"
  obtains k where "cell_at s c = Some k" and "stopper k = phase q" and "stop_ok k"
proof -
  have good: "rt_good ps s" using assms(1) by (simp add: rt_pending_def)
  then have "stops_ok (jobs s) (stopper_at s) (stop_calls (sys s))" by (simp add: rt_good_def)
  from stops_ok_called [OF this, of q g c] jobs_head [OF assms(2)] assms(3) have "stopper_at s c = Some (phase q)" by simp
  then obtain k where "cell_at s c = Some k" "stopper k = phase q" by (auto simp: stopper_at_def)
  then show thesis using that rt_good_cell(3) [OF good] by blast
qed

lemma waitsI:
  assumes "todo s g = q # qs" and "needs (q # qs) = Some c" and "cell_at s c = Some k" and "held_by (q # qs) k"
    and "\<exists>h. todo s h \<noteq> [] \<and> (if not_started s c then GoRun c \<in> set (todo s h) else h = Loop c)"
  shows "\<exists>h. waits_for s g h \<and> todo s h \<noteq> []"
  using assms unfolding waits_for_def by metis

lemma halted_send:
  assumes pend: "rt_pending ps s" and halt: "halted ps s" and g: "todo s g = Select c m # qs"
  shows "\<exists>h. waits_for s g h \<and> todo s h \<noteq> []"
proof -
  have good: "rt_good ps s" and "sends_ok s" using pend by (simp_all add: rt_pending_def)
  then have sel: "finite (selecting s c m)" "card (selecting s c m) = listed s c m" by (simp_all add: sends_ok_def)
  moreover have "g \<in> selecting s c m" using g by (simp add: selecting_def)
  ultimately have "listed s c m \<noteq> 0" by (metis card_0_eq empty_iff)
  then obtain k where k: "cell_at s c = Some k" "count_list (senders k) m \<noteq> 0"
    by (auto simp: listed_def split: option.splits)
  then have "m \<in> set (senders k)" by (metis count_notin)
  then obtain xs ys where m: "senders k = xs @ m # ys" by (auto simp: in_set_conv_decomp)
  let ?k = "k\<lparr>senders := xs @ ys\<rparr>"
  have none: "enqueue_select m ?k = []"
  proof (rule ccontr)
    assume "enqueue_select m ?k \<noteq> []"
    then obtain r where r: "r \<in> set (enqueue_select m ?k)" by (meson last_in_set)
    show False
      by (rule halted_todo [OF halt g rt_step.tell_done [OF g k(1) m r]]) (use no_selects [OF \<open>sends_ok s\<close> g, of "Select c m"] in \<open>cases qs; auto\<close>)
  qed
  then have "\<not> send_ready k" "\<not> receiver_waits k" "\<not> mb_closed (mailbox k)"
    by (cases "runner k"; auto simp: enqueue_select_def send_ready_def receiver_waits_def split: if_splits)+
  moreover from this have "runner k \<noteq> Exited" using rt_good_cell(3) [OF good k(1)] by (auto simp: stop_ok_def)
  ultimately show ?thesis by (intro waitsI [OF g _ k(1)] held_up [OF pend halt k(1)]) simp_all
qed

lemma halted_stop:
  assumes pend: "rt_pending ps s" and halt: "halted ps s" and g: "todo s g = q # qs" and c: "stops q = Some c"
  shows "\<exists>h. waits_for s g h \<and> todo s h \<noteq> []"
proof -
  obtain k where k: "cell_at s c = Some k" and st: "stopper k = phase q" and stop: "stop_ok k"
    using stopped_cell [OF pend g c] by blast
  show ?thesis
  proof (cases q)
    case (Close d)
    then have g': "todo s g = Close c # qs" using g c by simp
    have False by (rule halted_todo [OF halt g rt_step.mailbox_closed [OF g' k]]) (simp add: Close)
    then show ?thesis by simp
  next
    case (Signal d)
    then have g': "todo s g = Signal c # qs" using g c by simp
    have "\<not> send_ready k"
    proof
      assume ready: "send_ready k"
      show False by (rule halted_todo [OF halt g rt_step.signal_queued [OF g' k ready]]) (simp add: Signal)
    qed
    moreover have "runner k \<noteq> Exited" using stop st Signal by (simp add: stop_ok_def)
    ultimately show ?thesis by (intro waitsI [OF g' _ k] held_up [OF pend halt k]) (simp_all add: send_ready_def)
  next
    case (Await d)
    then have g': "todo s g = Await c # qs" using g c by simp
    have exited: "runner k \<noteq> Exited"
    proof
      assume "runner k = Exited"
      from halted_todo [OF halt g rt_step.stop_done [OF g' k this]] show False using Await
        by (cases "snd (on_stop (prog_of ps s c) (context_of (id_of s c) c) (actor_state k))")
          (auto dest: halted_todo [OF halt])
    qed
    then have "count_list (ch (mailbox k)) StopSignal = 1" using stop st Await by (simp add: stop_ok_def)
    then have "\<not> receiver_waits k" by (auto simp: receiver_waits_def split: runner.splits)
    then show ?thesis using exited by (intro waitsI [OF g' _ k] held_up [OF pend halt k exited]) simp_all
  qed (use c in simp_all)
qed

lemma halted_call:
  assumes pend: "rt_pending ps s" and halt: "halted ps s" and pids: "pids_ok s"
  shows "todo s g \<noteq> Call call # qs"
proof
  assume g: "todo s g = Call call # qs"
  have unlocked: "\<not> locked (sys s)" using pend by (simp add: rt_pending_def rt_good_def)
  show False
  proof (cases call)
    case (Tell c m)
    have "Call (Tell c m) \<in> set (todo s g)" using g Tell by simp
    then obtain k where k: "cell_at s c = Some k" using pids unfolding pids_ok_def by blast
    show False
    proof (cases "enqueue_check (mailbox k)")
      case None
      show False by (rule halted_todo [OF halt g rt_step.tell_passed [OF g [unfolded Tell] k None]]) simp
    next
      case (Some e)
      show False by (rule halted_todo [OF halt g rt_step.tell_closed [OF g [unfolded Tell] k Some]]) simp
    qed
  next
    case (StopActor p)
    obtain y' where "Stop p (sys s) = (y', Return ())" using unlocked by (cases "fmlookup (cells (sys s)) (pid_id p)") (simp_all add: Stop_def)
    from rt_step.stop_taken [OF g [unfolded StopActor] this] show False
      by (rule halted_todo [OF halt g]) (cases "taken_out (sys s) y'"; simp)
  next
    case ShutdownAll
    obtain y' where "Shutdown sorted_order (sys s) = (y', Return ())" using unlocked by (simp add: Shutdown_def Let_def)
    from rt_step.shutdown_taken [OF g [unfolded ShutdownAll] _ this] show False
      by (rule halted_todo [OF halt g]) (cases "taken_out (sys s) y'"; simp add: ShutdownAll)+
  next
    case (SpawnSized aid n)
    show False
    proof (cases "fmlookup (cells (sys s)) aid")
      case None
      then obtain y' p where sp: "SpawnWithMailboxSize aid (int n) (sys s) = (y', Return (Inr p))"
        using unlocked by (simp add: SpawnWithMailboxSize_def newActorCell_def newMailbox_def)
      obtain k where "start_cell (program_actor (ps aid) aid (pid_cell p)) (initial (ps aid)) (int n) = Some k"
        by (simp add: start_cell_def newMailbox_def)
      from rt_step.spawned [where ps = ps, OF g [unfolded SpawnSized] sp this] show False
        by (rule halted_todo [OF halt g]) (cases "snd (on_start (ps aid) (context_of aid (pid_cell p)) (initial (ps aid)))"; simp)
    next
      case (Some d)
      then have "SpawnWithMailboxSize aid (int n) (sys s) = (sys s, Return (Inl (AlreadyRegistered aid)))"
        using unlocked by (simp add: SpawnWithMailboxSize_def)
      from rt_step.spawn_refused [OF g [unfolded SpawnSized] this] show False by (rule halted_todo [OF halt g]) simp
    qed
  next
    case (Output m)
    show False by (rule halted_todo [OF halt g rt_step.put_out [OF g [unfolded Output]]]) simp
  qed
qed

lemma halted_waits:
  assumes pend: "rt_pending ps s" and halt: "halted ps s" and pids: "pids_ok s" and busy: "todo s g \<noteq> []"
  shows "\<exists>h. waits_for s g h \<and> todo s h \<noteq> []"
proof -
  obtain q qs where g: "todo s g = q # qs" using busy by (cases "todo s g") auto
  show ?thesis
  proof (cases q)
    case (Call call)
    then show ?thesis using halted_call [OF pend halt pids, of g call qs] g by simp
  next
    case (Select c m)
    then show ?thesis using halted_send [OF pend halt] g by simp
  next
    case (GoRun c)
    have "one_start (not_started s c) (\<lambda>g. starts s g c)" using pend by (simp add: rt_pending_def starts_ok_def)
    moreover have "starts s g c \<noteq> 0" using g GoRun by simp
    ultimately have "not_started s c" unfolding one_start_def by presburger
    then obtain k where k: "cell_at s c = Some k" "runner k = NotStarted" by (auto simp: not_started_def)
    have False by (rule halted_todo [OF halt g rt_step.loop_started [OF g [unfolded GoRun] k]]) simp
    then show ?thesis by simp
  qed (use halted_stop [OF pend halt g] in simp_all)
qed

section \<open>A cycle of waits\<close>

definition few_busy :: "('s, 'm) running \<Rightarrow> bool" where
  "few_busy s \<longleftrightarrow> finite {g. todo s g \<noteq> []}"

lemma rt_step_todo: "rt_step ps (s :: ('a, 'b) running) t \<Longrightarrow> \<exists>h. \<forall>g. g \<noteq> h \<longrightarrow> todo t g = todo s g"
proof -
  have upd: "\<exists>h. \<forall>g. g \<noteq> h \<longrightarrow> (f(g' := qs)) g = f g" for f :: "goroutine \<Rightarrow> 'b pending list" and g' qs
    by (rule exI [of _ g']) simp
  show "rt_step ps s t \<Longrightarrow> \<exists>h. \<forall>g. g \<noteq> h \<longrightarrow> todo t g = todo s g"
    by (induction rule: rt_step.induct) (simp_all add: upd del: fun_upd_apply)
qed

lemma few_busy_step:
  assumes "rt_step ps s t" and "few_busy s"
  shows "few_busy t"
proof -
  obtain h where "\<forall>g. g \<noteq> h \<longrightarrow> todo t g = todo s g" using rt_step_todo [OF assms(1)] by blast
  then have "{g. todo t g \<noteq> []} \<subseteq> insert h {g. todo s g \<noteq> []}" by auto
  then show ?thesis using assms(2) finite_subset unfolding few_busy_def by blast
qed

lemma serial_cycle:
  assumes "finite A" and "a \<in> A" and "\<And>x. x \<in> A \<Longrightarrow> \<exists>y\<in>A. r x y"
  shows "\<exists>x. r\<^sup>+\<^sup>+ x x"
proof (rule ccontr)
  assume none: "\<nexists>x. r\<^sup>+\<^sup>+ x x"
  let ?R = "{(y, x). x \<in> A \<and> y \<in> A \<and> r x y}"
  have "(y, x) \<in> ?R\<^sup>+ \<Longrightarrow> r\<^sup>+\<^sup>+ x y" for x y
    by (induction rule: trancl_induct) (auto intro: tranclp_trans tranclp.r_into_trancl)
  then have "acyclic ?R" using none unfolding acyclic_def by blast
  moreover have "finite ?R" by (rule finite_subset [of _ "A \<times> A"]) (use assms(1) in auto)
  ultimately have "wf ?R" by (rule finite_acyclic_wf [rotated])
  from wfE_min [OF this assms(2)] obtain x where x: "x \<in> A" "\<And>y. (y, x) \<in> ?R \<Longrightarrow> y \<notin> A" by blast
  obtain y where "y \<in> A" "r x y" using assms(3) [OF x(1)] by blast
  then show False using x(1) x(2) [of y] by blast
qed

section \<open>Properties\<close>

text \<open>C10: A system of actors comes to a halt only when its work is done or in a cycle of waits: in a reachable
state in which nothing that is going on can go on, either every call has been carried out and every actor
has exited or waits in front of an empty mailbox, or there is a cycle of goroutines each of which waits, at
a full mailbox or at a stop, for the next one.\<close>

theorem halt_is_done_or_cycle:
  assumes "rt_reachable ps s" and "halted ps s" and "pids_ok s"
  shows "(\<exists>g. (waits_for s)\<^sup>+\<^sup>+ g g) \<or>
    ((\<forall>g. todo s g = []) \<and>
     (\<forall>c k. cell_at s c = Some k \<longrightarrow> runner k = Exited \<or> (runner k = Receiving \<and> ch (mailbox k) = [])))"
proof -
  have pend: "rt_pending ps s" using assms(1) unfolding rt_reachable_def by (rule rt_pending.reaches_good)
  have few: "few_busy s" using assms(1) unfolding rt_reachable_def
    by (induction rule: reaches.induct) (simp add: few_busy_def rt_start_def, rule few_busy_step)
  show ?thesis
  proof (cases "\<exists>g. todo s g \<noteq> []")
    case True
    then obtain g where g: "g \<in> {g. todo s g \<noteq> []}" by auto
    have "\<exists>h\<in>{g. todo s g \<noteq> []}. waits_for s x h" if "x \<in> {g. todo s g \<noteq> []}" for x
      using halted_waits [OF pend assms(2,3), of x] that by blast
    from serial_cycle [where r = "waits_for s", OF few [unfolded few_busy_def] g this] show ?thesis by blast
  next
    case False
    have "runner k = Exited \<or> (runner k = Receiving \<and> ch (mailbox k) = [])" if k: "cell_at s c = Some k" for c k
    proof (rule ccontr)
      assume no: "\<not> ?thesis"
      then have "\<not> receiver_waits k" by (auto simp: receiver_waits_def split: runner.splits)
      then show False using held_up [OF pend assms(2) k] no False by blast
    qed
    then show ?thesis using False by blast
  qed
qed

text \<open>The two actors that stop each other come to such a halt.\<close>

definition rival_cell :: "nat \<Rightarrow> (nat, nat) cell" where
  "rival_cell m = \<lparr>mailbox = \<lparr>ch = [StopSignal], ch_size = 1, mb_closed = True\<rparr>, actor_state = 0, runner = Handling m,
     stopper = Waiting, self_stopped = False, senders = [], accepted = [m], rejected = [], delivered = [m], mark = 1\<rparr>"

lemmas move_eval = on_cell_def put_def system_eval start_cell_def newMailbox_def program_actor_def rivals_def context_of_def id_of_def
  taken_out_def context_Stop_def cell_defs rt_start_def

lemma rivals_state: "\<exists>y. rivals_blocked = \<lparr>sys = y, cell_at = (\<lambda>_. None)(0 := Some (rival_cell 5), 1 := Some (rival_cell 7)),
    todo = (\<lambda>_. [])(Loop 0 := [Await 1], Loop 1 := [Await 0]), begun = (\<lambda>_. False)(0 := True, 1 := True), outputs = []\<rparr>"
  unfolding rivals_blocked_def
  by (simp add: rival_moves_def move_eval rival_cell_def numeral_eq_Suc fun_upd_twist)
    (simp add: fun_eq_iff)

lemma rivals_halted: "halted rivals rivals_blocked" "pids_ok rivals_blocked"
proof -
  obtain y where s: "rivals_blocked = \<lparr>sys = y, cell_at = (\<lambda>_. None)(0 := Some (rival_cell 5), 1 := Some (rival_cell 7)),
    todo = (\<lambda>_. [])(Loop 0 := [Await 1], Loop 1 := [Await 0]), begun = (\<lambda>_. False)(0 := True, 1 := True), outputs = []\<rparr>"
    using rivals_state by blast
  show "pids_ok rivals_blocked" by (auto simp: s pids_ok_def)
  have "cell_at t = cell_at rivals_blocked \<and> begun t = begun rivals_blocked \<and>
    (\<forall>g. todo rivals_blocked g \<noteq> [] \<longrightarrow> todo t g = todo rivals_blocked g)" if "rt_step rivals rivals_blocked t" for t
    using that by cases (auto simp: s rival_cell_def split: if_splits)
  then show "halted rivals rivals_blocked" by (simp add: halted_def)
qed

theorem halt_is_done_or_cycle_witness:
  "\<exists>g. (waits_for rivals_blocked)\<^sup>+\<^sup>+ g g"
proof -
  have "todo rivals_blocked = (\<lambda>_. [])(Loop 0 := [Await 1], Loop 1 := [Await 0])" using rivals_state by (metis running.select_convs(3))
  then have "todo rivals_blocked (Loop 0) = [Await 1]" by (simp only: fun_upd_apply) simp
  then have "todo rivals_blocked (Loop 0) \<noteq> []" by (metis list.distinct(1))
  then show ?thesis using halt_is_done_or_cycle [OF rivals_blocked(1) rivals_halted] by blast
qed

end
