(* ===== verification/FedRuntime.thy ===== *)
theory FedRuntime
  imports FedBounded ActorProgress
begin

text \<open>
  Federated training on the actor runtime: the coordinator, the aggregator and the workers as actors of
  \<^theory_text>\<open>ActorRuntime\<close>, with cells, bounded mailboxes and the two selects of a send.  Every run after
  the set-up is a run of the network of \<^theory_text>\<open>FedBounded\<close> in which a node's mail is what its cell has
  accepted and not begun to handle, and a node's outbox what its handler has still to do.  So what is proved of
  the network holds of the running system: results are the centralized ones, runs end, and a run that cannot
  go on has reported its round.
\<close>

section \<open>The actors as programs\<close>

text \<open>The cells in the order of the demo's spawns; a reference to a node is the PID of its cell.\<close>

fun cell_of :: "node \<Rightarrow> nat" where
  "cell_of Coord = 0"
| "cell_of Agg = 1"
| "cell_of (Work i) = Suc (Suc i)"

fun node_at :: "nat \<Rightarrow> node" where
  "node_at 0 = Coord"
| "node_at (Suc 0) = Agg"
| "node_at (Suc (Suc i)) = Work i"

lemma node_at_cell_of [simp]: "node_at (cell_of v) = v"
  by (cases v) simp_all

lemma cell_of_node_at [simp]: "cell_of (node_at c) = c"
  by (cases c rule: node_at.cases) simp_all

lemma node_at_eq [simp]: "node_at c = node_at d \<longleftrightarrow> c = d"
  by (metis cell_of_node_at)

lemma node_at_nodes [simp]: "node_at c \<in> nodes g \<longleftrightarrow> c < fc_workers g + 2"
  by (cases c rule: node_at.cases) (auto simp: nodes_def)

lemma cell_of_less [simp]: "cell_of v < fc_workers g + 2 \<longleftrightarrow> v \<in> nodes g"
  using node_at_nodes [of "cell_of v" g] by simp

text \<open>What the actors send and put out, and their states.\<close>

datatype fed_io = Mail fl_msg | LogLine "node fl_log" | ResultOut round_result

datatype fed_actor = CoordS "node coordinator_actor" | AggS "node aggregator_actor" | WorkS nat

fun fed_react :: "fed_config \<Rightarrow> runtime \<Rightarrow> fed_actor \<Rightarrow> fl_msg \<Rightarrow> fed_actor \<times> node effect list" where
  "fed_react g rt (CoordS c) m = apfst CoordS (coordinator_receive (fc_fpu g) rt c m)"
| "fed_react g rt (AggS a) m = apfst AggS (aggregator_receive (fc_fpu g) rt a m)"
| "fed_react g rt (WorkS i) m = (WorkS i, worker_receive (fc_files g i) rt (fed_worker g i) m)"

text \<open>
  A send with retries is one Tell: only a closed mailbox refuses it, and none is closed before the driver shuts
  the system down.
\<close>

fun call_of :: "node effect \<Rightarrow> fed_io call" where
  "call_of (SendRetry to m line) = Tell (cell_of to) (Mail m)"
| "call_of (Log line) = Output (LogLine line)"
| "call_of (Result r) = Output (ResultOut r)"

text \<open>\<open>pick c k\<close> are the iteration orders the Go runtime picks when the actor of cell \<open>c\<close> handles its \<open>k\<close>-th message.\<close>

definition fed_message ::
    "fed_config \<Rightarrow> (nat \<Rightarrow> nat \<Rightarrow> runtime) \<Rightarrow> nat \<Rightarrow> nat \<times> fed_actor \<Rightarrow> fed_io \<Rightarrow> (nat \<times> fed_actor) \<times> fed_io call list" where
  "fed_message g pick c st io =
     (case io of
        Mail m \<Rightarrow> (let (a, out) = fed_react g (pick c (fst st)) (snd st) m in ((Suc (fst st), a), map call_of out))
      | _ \<Rightarrow> (st, []))"

definition fed_initial :: "fed_config \<Rightarrow> string \<Rightarrow> fed_actor" where
  "fed_initial g aid =
     (if aid = ''coordinator'' then CoordS (fed_coordinator g)
      else if aid = ''aggregator'' then AggS (NewAggregatorActor ''aggregator'' Coord)
      else WorkS (length (takeWhile (\<lambda>i. fc_worker_id g i \<noteq> aid) [0..<fc_workers g])))"

definition fed_programs :: "fed_config \<Rightarrow> (nat \<Rightarrow> nat \<Rightarrow> runtime) \<Rightarrow> (nat \<times> fed_actor, fed_io) programs" where
  "fed_programs g pick aid =
     \<lparr>initial = (0, fed_initial g aid), on_start = (\<lambda>_ st. (st, [])),
      on_message = (\<lambda>ctx. fed_message g pick (ctx_cell ctx)), on_stop = (\<lambda>_ st. (st, []))\<rparr>"

type_synonym fed_running = "(nat \<times> fed_actor, fed_io) running"

text \<open>The steps of a driven system: nobody outside begins anything more.\<close>

definition driven_step :: "('s, 'm) programs \<Rightarrow> ('s, 'm) running \<Rightarrow> ('s, 'm) running \<Rightarrow> bool" where
  "driven_step ps s t \<longleftrightarrow> rt_step ps s t \<and> t \<noteq> s \<and> (\<forall>i. todo s (Ext i) = [] \<longrightarrow> todo t (Ext i) = [])"

section \<open>The network a running system shows\<close>

text \<open>A cell's actor with what the running handler has done, and the mail the handler has not begun.\<close>

definition seen_actor :: "fed_config \<Rightarrow> (nat \<Rightarrow> nat \<Rightarrow> runtime) \<Rightarrow> nat \<Rightarrow> bool \<Rightarrow> (nat \<times> fed_actor, fed_io) cell \<Rightarrow> fed_actor" where
  "seen_actor g pick c b k =
     snd (case runner k of Handling io \<Rightarrow> (if b then fst (fed_message g pick c (actor_state k) io) else actor_state k) | _ \<Rightarrow> actor_state k)"

definition seen_box :: "bool \<Rightarrow> ('s, 'm) cell \<Rightarrow> 'm list" where
  "seen_box b k = (case runner k of Handling m \<Rightarrow> (if b then [] else [m]) | _ \<Rightarrow> []) @ messages (ch (mailbox k))"

fun node_actor :: "fed_net \<Rightarrow> node \<Rightarrow> fed_actor" where
  "node_actor a Coord = CoordS (coord a)"
| "node_actor a Agg = AggS (agg a)"
| "node_actor a (Work i) = WorkS i"

fun plain :: "'m pending \<Rightarrow> 'm call option" where
  "plain (Call (Tell c m)) = Some (Tell c m)"
| "plain (Select c m) = Some (Tell c m)"
| "plain (Call (Output m)) = Some (Output m)"
| "plain _ = None"

fun result_of :: "fed_io \<Rightarrow> round_result option" where
  "result_of (ResultOut r) = Some r"
| "result_of _ = None"

definition cell_view :: "fed_config \<Rightarrow> (nat \<Rightarrow> nat \<Rightarrow> runtime) \<Rightarrow> fed_net \<Rightarrow> nat \<Rightarrow> bool \<Rightarrow> (nat \<times> fed_actor, fed_io) cell \<Rightarrow> bool" where
  "cell_view g pick a c b k \<longleftrightarrow>
     seen_actor g pick c b k = node_actor a (node_at c) \<and> seen_box b k = map Mail (boxes a (node_at c))"

definition todo_view :: "fed_net \<Rightarrow> nat \<Rightarrow> fed_io pending list \<Rightarrow> bool" where
  "todo_view a c qs \<longleftrightarrow> map plain qs = map (\<lambda>e. Some (call_of e)) (outbox a (node_at c))"

definition fed_view :: "fed_config \<Rightarrow> (nat \<Rightarrow> nat \<Rightarrow> runtime) \<Rightarrow> fed_running \<Rightarrow> fed_net \<Rightarrow> bool" where
  "fed_view g pick s a \<longleftrightarrow>
     (\<forall>c k. cell_at s c = Some k \<longrightarrow> cell_view g pick a c (begun s c) k) \<and>
     (\<forall>c. todo_view a c (todo s (Loop c))) \<and> results a = List.map_filter result_of (outputs s)"

text \<open>After the set-up: all cells of the round run, with mailboxes of size \<open>N\<close>, and nothing is being stopped.\<close>

definition calm :: "fed_config \<Rightarrow> nat \<Rightarrow> fed_running \<Rightarrow> bool" where
  "calm g N s \<longleftrightarrow> (\<forall>i. todo s (Ext i) = []) \<and> stop_calls (sys s) = [] \<and> length (heap (sys s)) = fc_workers g + 2 \<and>
     (\<forall>c k. cell_at s c = Some k \<longrightarrow> runner k \<noteq> NotStarted \<and> ch_size (mailbox k) = N)"

section \<open>Cells after the set-up\<close>

lemma calm_cell:
  assumes good: "rt_good ps s" and calm: "calm g N s" and k: "cell_at s c = Some k"
  shows "c < fc_workers g + 2" and "stopper k = NotCalled" and "\<not> mb_closed (mailbox k)" and "runner k \<noteq> Exited"
    and "runner k \<noteq> NotStarted" and "ch_size (mailbox k) = N" and "StopSignal \<notin> set (ch (mailbox k))"
    and "length (ch (mailbox k)) \<le> N"
proof -
  have "stops_ok (jobs s) (stopper_at s) []" using good calm by (simp add: rt_good_def calm_def)
  from stops_okD(5) [OF this, of c] k show st: "stopper k = NotCalled" by (simp add: stopper_at_def)
  with rt_good_cell(3) [OF good k] show "\<not> mb_closed (mailbox k)" "runner k \<noteq> Exited" "StopSignal \<notin> set (ch (mailbox k))"
    by (simp_all add: stop_ok_def)
  show "c < fc_workers g + 2" using rt_good_cell(1) [OF good k] calm by (simp add: calm_def)
  show "runner k \<noteq> NotStarted" "ch_size (mailbox k) = N" using calm k by (auto simp: calm_def)
  then show "length (ch (mailbox k)) \<le> N" using rt_good_cell(2) [OF good k] by (simp add: queue_ok_def)
qed

lemma not_begun:
  assumes "rt_good ps s" and "cell_at s c = Some k" and "\<And>m. runner k \<noteq> Handling m"
  shows "\<not> begun s c" and "todo s (Loop c) = []"
  using assms by (auto simp: rt_good_def loops_ok_def)

lemma seen_fields [simp]:
  "seen_actor g pick c b (k\<lparr>senders := x\<rparr>) = seen_actor g pick c b k" "seen_box b (k\<lparr>senders := x\<rparr>) = seen_box b k"
  "cell_view g pick a c b (k\<lparr>senders := x\<rparr>) = cell_view g pick a c b k"
  by (simp_all add: seen_actor_def seen_box_def cell_view_def split: runner.split)

text \<open>An accepted message is at the end of what the handler has not begun.\<close>

lemma seen_accept:
  assumes "runner k = Receiving \<Longrightarrow> \<not> b" and "r = (send_envelope (Msg m) k, None)"
  shows "seen_box b (log_tell m r) = seen_box b k @ [m]" and "seen_actor g pick c b (log_tell m r) = seen_actor g pick c b k"
  using assms
  by (auto simp: seen_box_def seen_actor_def log_tell_def send_envelope_def take_envelope_def receiver_waits_def split: runner.splits)

lemma seen_receive:
  assumes "runner k = Receiving" and "ch (mailbox k) = Msg m # es" and "\<not> b"
  shows "seen_box b (receive_next k) = seen_box b k" and "seen_actor g pick c b (receive_next k) = seen_actor g pick c b k"
  using assms by (simp_all add: receive_next_def take_envelope_def seen_box_def seen_actor_def)

lemma seen_begin:
  assumes "runner k = Handling io"
  shows "seen_box False k = io # seen_box True k" and "seen_actor g pick c False k = snd (actor_state k)"
    and "seen_actor g pick c True k = snd (fst (fed_message g pick c (actor_state k) io))"
  using assms by (simp_all add: seen_box_def seen_actor_def)

lemma seen_finish:
  assumes "runner k = Handling io"
  shows "seen_box False (finish_message (program_actor (fed_programs g pick aid) aid c) io k) = seen_box True k"
    and "seen_actor g pick c False (finish_message (program_actor (fed_programs g pick aid') aid' c) io k) = seen_actor g pick c True k"
  using assms by (simp_all add: seen_box_def seen_actor_def finish_message_def program_actor_def fed_programs_def context_of_def)

text \<open>A node's handler in the network is its actor's.\<close>

lemma handler_effects_react: "handler_effects g rt v m a = snd (fed_react g rt (node_actor a v) m)"
  by (cases v) (simp_all add: handler_effects_def)

lemma node_actor_handle:
  "node_actor (fed_handle g rt v m a) u = (if u = v then fst (fed_react g rt (node_actor a v) m) else node_actor a u)"
  by (cases v; cases u) simp_all

lemma node_actor_fields [simp]:
  "node_actor (a\<lparr>boxes := x\<rparr>) u = node_actor a u" "node_actor (a\<lparr>outbox := y\<rparr>) u = node_actor a u"
  "node_actor (a\<lparr>results := z\<rparr>) u = node_actor a u"
  "node_actor (a\<lparr>boxes := x, outbox := y\<rparr>) u = node_actor a u" "node_actor (a\<lparr>results := z, outbox := y\<rparr>) u = node_actor a u"
  by (cases u; simp)+

lemma plain_calls [simp]: "map plain (map Call (map call_of es)) = map (\<lambda>e. Some (call_of e)) es"
proof -
  have "plain (Call (call_of e)) = Some (call_of e)" for e by (cases e) simp_all
  then show ?thesis by simp
qed

text \<open>The next thing a handler does is the next effect.\<close>

lemma todo_viewD:
  assumes "todo_view a c (q # qs)"
  obtains e es where "outbox a (node_at c) = e # es" and "plain q = Some (call_of e)" and "map plain qs = map (\<lambda>e. Some (call_of e)) es"
  using assms by (auto simp: todo_view_def)

lemma call_of_Tell: "call_of e = Tell c io \<longleftrightarrow> (\<exists>m line. e = SendRetry (node_at c) m line \<and> io = Mail m)"
  by (cases e) auto

lemma call_of_Output: "call_of e = Output io \<longleftrightarrow> (\<exists>l. e = Log l \<and> io = LogLine l) \<or> (\<exists>r. e = Result r \<and> io = ResultOut r)"
  by (cases e) auto

section \<open>Simulation\<close>

lemma fed_viewI:
  assumes "\<And>c k. cell_at s c = Some k \<Longrightarrow> cell_view g pick a c (begun s c) k" and "\<And>c. todo_view a c (todo s (Loop c))"
    and "results a = List.map_filter result_of (outputs s)"
  shows "fed_view g pick s a"
  using assms by (simp add: fed_view_def)

lemma fed_viewD:
  assumes "fed_view g pick s a"
  shows "cell_at s c = Some k \<Longrightarrow> cell_view g pick a c (begun s c) k" and "todo_view a c (todo s (Loop c))"
    and "results a = List.map_filter result_of (outputs s)"
  using assms by (simp_all add: fed_view_def)

lemma sim_passed:
  assumes view: "fed_view g pick s a" and q: "todo s (Loop c) = Call (Tell d io) # qs" and k: "cell_at s d = Some k"
  shows "fed_view g pick (put d (k\<lparr>senders := senders k @ [io]\<rparr>) (Loop c) (Select d io # qs) s) a"
proof (rule fed_viewI)
  show "cell_view g pick a c' (begun (put d (k\<lparr>senders := senders k @ [io]\<rparr>) (Loop c) (Select d io # qs) s) c') k'"
    if "cell_at (put d (k\<lparr>senders := senders k @ [io]\<rparr>) (Loop c) (Select d io # qs) s) c' = Some k'" for c' k'
    using that fed_viewD(1) [OF view k] fed_viewD(1) [OF view, of c'] by (auto split: if_splits)
  show "todo_view a c' (todo (put d (k\<lparr>senders := senders k @ [io]\<rparr>) (Loop c) (Select d io # qs) s) (Loop c'))" for c'
    using fed_viewD(2) [OF view, of c'] q by (auto simp: todo_view_def)
qed (use fed_viewD(3) [OF view] in simp)

lemma sim_done:
  assumes good: "rt_good ps s" and view: "fed_view g pick s a" and q: "todo s (Loop c) = Select d (Mail m) # qs" and k: "cell_at s d = Some k"
    and r: "r = (send_envelope (Msg (Mail m)) (k\<lparr>senders := ss\<rparr>), None)"
    and out: "outbox a (node_at c) = SendRetry (node_at d) m line # es"
  shows "fed_view g pick (put d (log_tell (Mail m) r) (Loop c) qs s)
    (a\<lparr>boxes := (boxes a)(node_at d := boxes a (node_at d) @ [m]), outbox := (outbox a)(node_at c := es)\<rparr>)" (is "fed_view g pick ?t ?b")
proof (rule fed_viewI)
  show "cell_view g pick ?b c' (begun ?t c') k'" if k': "cell_at ?t c' = Some k'" for c' k'
  proof (cases "c' = d")
    case True
    have "runner (k\<lparr>senders := ss\<rparr>) = Receiving \<Longrightarrow> \<not> begun s d" using not_begun(1) [OF good k] by simp
    note acc = seen_accept [OF this r]
    have "k' = log_tell (Mail m) r" using k' True by simp
    then show ?thesis using acc fed_viewD(1) [OF view k] True by (simp add: cell_view_def)
  next
    case False
    then show ?thesis using k' fed_viewD(1) [OF view, of c' k'] by (simp add: cell_view_def)
  qed
  show "todo_view ?b c' (todo ?t (Loop c'))" for c'
    using fed_viewD(2) [OF view, of c'] q out by (cases "c' = c") (auto simp: todo_view_def)
qed (use fed_viewD(3) [OF view] in simp)

lemma sim_out:
  assumes view: "fed_view g pick s a" and q: "todo s (Loop c) = Call (Output io) # qs" and out: "outbox a (node_at c) = e # es"
    and e: "call_of e = Output io"
  shows "fed_view g pick (s\<lparr>outputs := outputs s @ [io], todo := (todo s)(Loop c := qs)\<rparr>)
    (a\<lparr>results := results a @ (case result_of io of None \<Rightarrow> [] | Some x \<Rightarrow> [x]), outbox := (outbox a)(node_at c := es)\<rparr>)" (is "fed_view g pick ?t ?b")
proof (rule fed_viewI)
  show "cell_view g pick ?b c' (begun ?t c') k'" if "cell_at ?t c' = Some k'" for c' k'
    using that fed_viewD(1) [OF view, of c' k'] by (simp add: cell_view_def)
  show "todo_view ?b c' (todo ?t (Loop c'))" for c'
    using fed_viewD(2) [OF view, of c'] q out by (cases "c' = c") (auto simp: todo_view_def)
  show "results ?b = List.map_filter result_of (outputs ?t)"
    using fed_viewD(3) [OF view] by (simp add: List.map_filter_def split: option.split)
qed

lemma sim_received:
  assumes view: "fed_view g pick s a" and k: "cell_at s c = Some k" "runner k = Receiving" "ch (mailbox k) = Msg io # es"
    and b: "\<not> begun s c"
  shows "fed_view g pick (s\<lparr>cell_at := (cell_at s)(c := Some (receive_next k))\<rparr>) a"
proof (rule fed_viewI)
  show "cell_view g pick a c' (begun (s\<lparr>cell_at := (cell_at s)(c := Some (receive_next k))\<rparr>) c') k'"
    if "cell_at (s\<lparr>cell_at := (cell_at s)(c := Some (receive_next k))\<rparr>) c' = Some k'" for c' k'
    using that fed_viewD(1) [OF view k(1)] fed_viewD(1) [OF view, of c'] seen_receive [OF k(2,3) b]
    by (auto simp: cell_view_def split: if_splits)
qed (use fed_viewD(2,3) [OF view] in simp_all)

lemma sim_returned:
  assumes view: "fed_view g pick s a" and k: "cell_at s c = Some k" "runner k = Handling io" and b: "begun s c"
  shows "fed_view g pick (s\<lparr>begun := (begun s)(c := False),
    cell_at := (cell_at s)(c := Some (finish_message (program_actor (fed_programs g pick aid) aid c) io k))\<rparr>) a" (is "fed_view g pick ?t a")
proof (rule fed_viewI)
  show "cell_view g pick a c' (begun ?t c') k'" if "cell_at ?t c' = Some k'" for c' k'
    using that fed_viewD(1) [OF view k(1)] fed_viewD(1) [OF view, of c'] seen_finish [OF k(2)] b
    by (auto simp: cell_view_def split: if_splits)
qed (use fed_viewD(2,3) [OF view] in simp_all)

lemma on_message_fed [simp]: "on_message (fed_programs g pick aid) (context_of aid' c) = fed_message g pick c"
  by (simp add: fed_programs_def context_of_def)

lemma sim_entered:
  assumes view: "fed_view g pick s a" and k: "cell_at s c = Some k" "runner k = Handling io" and b: "\<not> begun s c"
    and idle: "todo s (Loop c) = []"
  obtains m ms where "io = Mail m" and "outbox a (node_at c) = []" and "boxes a (node_at c) = m # ms"
    and "fed_view g pick (s\<lparr>begun := (begun s)(c := True), todo := (todo s)(Loop c := map Call (snd (fed_message g pick c (actor_state k) io)))\<rparr>)
      (fed_handle g (pick c (fst (actor_state k))) (node_at c) m (a\<lparr>boxes := (boxes a)(node_at c := ms)\<rparr>))"
proof -
  let ?v = "node_at c" and ?rt = "pick c (fst (actor_state k))"
  have cv: "seen_actor g pick c False k = node_actor a ?v" "seen_box False k = map Mail (boxes a ?v)"
    using fed_viewD(1) [OF view k(1)] b by (simp_all add: cell_view_def)
  then have "io # seen_box True k = map Mail (boxes a ?v)" by (simp add: seen_begin [OF k(2)])
  then obtain m ms where m: "io = Mail m" "boxes a ?v = m # ms" "seen_box True k = map Mail ms" by (cases "boxes a ?v") auto
  let ?b = "fed_handle g ?rt ?v m (a\<lparr>boxes := (boxes a)(?v := ms)\<rparr>)"
  have act: "snd (actor_state k) = node_actor a ?v" using cv(1) by (simp add: seen_begin [OF k(2)])
  have react: "fed_message g pick c (actor_state k) io =
      ((Suc (fst (actor_state k)), fst (fed_react g ?rt (node_actor a ?v) m)), map call_of (snd (fed_react g ?rt (node_actor a ?v) m)))"
    by (simp add: fed_message_def m(1) act case_prod_unfold Let_def)
  have out: "outbox a ?v = []" using fed_viewD(2) [OF view, of c] idle by (simp add: todo_view_def)
  show thesis
  proof (rule that [OF m(1) out m(2)], rule fed_viewI, goal_cases)
    case (1 c' k')
    then show ?case
      using fed_viewD(1) [OF view, of c'] k(1) m(3) seen_begin(3) [OF k(2), of g pick c] react
      by (cases "c' = c") (auto simp: cell_view_def node_actor_handle)
  next
    case (2 c')
    then show ?case using fed_viewD(2) [OF view, of c'] react
      by (cases "c' = c") (auto simp: todo_view_def handler_effects_react simp del: map_map)
  next
    case 3
    then show ?case using fed_viewD(3) [OF view] by simp
  qed
qed

section \<open>Steps left\<close>

text \<open>
  Beside the weights of the network's messages and effects (a send is worth three steps, a message two), each
  cell counts a message in its mailbox, a running handler, and a send it has not begun.
\<close>

definition cell_weight :: "('s, 'm) running \<Rightarrow> nat \<Rightarrow> nat" where
  "cell_weight s c = (case todo s (Loop c) of q # qs \<Rightarrow> (if is_select q then 0 else 1) | [] \<Rightarrow> 1) + (if begun s c then 1 else 0) +
     (case cell_at s c of None \<Rightarrow> 0 | Some k \<Rightarrow> length (ch (mailbox k)))"

abbreviation fed_weight :: "fed_config \<Rightarrow> fed_net \<Rightarrow> nat" where
  "fed_weight g \<equiv> net_sum g (\<lambda>_. msg_weight 1 2 (fc_workers g)) (effect_weight 1 2 (fc_workers g))"

definition run_weight :: "fed_config \<Rightarrow> ('s, 'm) running \<Rightarrow> fed_net \<Rightarrow> nat" where
  "run_weight g s a = 2 * fed_weight g a + (\<Sum>c<fc_workers g + 2. cell_weight s c)"

lemma sum_lowered:
  fixes f :: "nat \<Rightarrow> nat"
  assumes "c < n" and "f' c < f c" and "\<And>x. x \<noteq> c \<Longrightarrow> f' x \<le> f x"
  shows "(\<Sum>x<n. f' x) < (\<Sum>x<n. f x)"
proof (rule sum_strict_mono_ex1)
  show "\<forall>x\<in>{..<n}. f' x \<le> f x" using assms(2,3) by (metis less_imp_le)
qed (use assms in auto)

lemma sum_raised:
  fixes f :: "nat \<Rightarrow> nat"
  assumes "\<And>x. f' x \<le> f x + (if x = c then 1 else 0) + (if x = d then 1 else 0)"
  shows "(\<Sum>x<n. f' x) \<le> (\<Sum>x<n. f x) + 2"
proof -
  have "(\<Sum>x<n. f' x) \<le> (\<Sum>x<n. f x + (if x = c then 1 else 0) + (if x = d then 1 else 0))" by (rule sum_mono) (rule assms)
  also have "\<dots> \<le> (\<Sum>x<n. f x) + 2" by (simp add: sum.distrib)
  finally show ?thesis .
qed

text \<open>A step that the network does not see.\<close>

lemma weight_hidden:
  assumes "c < fc_workers g + 2" and "cell_weight t c < cell_weight s c" and "\<And>x. x \<noteq> c \<Longrightarrow> cell_weight t x \<le> cell_weight s x"
  shows "run_weight g t a < run_weight g s a"
  unfolding run_weight_def using sum_lowered [where f' = "cell_weight t" and f = "cell_weight s", OF assms] by simp

text \<open>A step of the network too: it loses two for each point of weight.\<close>

lemma weight_seen:
  assumes "fed_weight g b + e \<le> fed_weight g a" and "0 < e"
    and "\<And>x. cell_weight t x \<le> cell_weight s x + (if x = c then 1 else 0)"
  shows "run_weight g t b < run_weight g s a"
proof -
  have "(\<Sum>x<fc_workers g + 2. cell_weight t x) \<le> (\<Sum>x<fc_workers g + 2. cell_weight s x + (if x = c then 1 else 0))"
    by (rule sum_mono) (rule assms(3))
  also have "\<dots> \<le> (\<Sum>x<fc_workers g + 2. cell_weight s x) + 1" by (simp add: sum.distrib)
  finally show ?thesis using assms(1,2) by (simp add: run_weight_def)
qed

lemma weight_sent:
  assumes "fed_weight g b + 2 \<le> fed_weight g a"
    and "\<And>x. cell_weight t x \<le> cell_weight s x + (if x = c then 1 else 0) + (if x = d then 1 else 0)"
  shows "run_weight g t b < run_weight g s a"
  using sum_raised [where f' = "cell_weight t" and f = "cell_weight s" and n = "fc_workers g + 2", OF assms(2)] assms(1)
  by (simp add: run_weight_def)

lemma listed_length:
  "r = (send_envelope e (k\<lparr>senders := ss\<rparr>), None) \<Longrightarrow> length (ch (mailbox (log_tell m r))) \<le> Suc (length (ch (mailbox k)))"
  by (auto simp: log_tell_def send_envelope_def take_envelope_def split: envelope.split)

text \<open>The cells, one kind of step after the other.\<close>

lemma weight_passed:
  assumes "rt_good ps s" and "todo s (Loop c) = Call (Tell d io) # qs" and "cell_at s d = Some k" and "c < fc_workers g + 2"
  shows "run_weight g (put d (k\<lparr>senders := senders k @ [io]\<rparr>) (Loop c) (Select d io # qs) s) a < run_weight g s a"
  by (rule weight_hidden [OF assms(4)]) (use assms(2,3) in \<open>auto simp: cell_weight_def\<close>)

lemma weight_received:
  assumes "cell_at s c = Some k" and "ch (mailbox k) = Msg io # es" and "c < fc_workers g + 2"
  shows "run_weight g (s\<lparr>cell_at := (cell_at s)(c := Some (receive_next k))\<rparr>) a < run_weight g s a"
  by (rule weight_hidden [OF assms(3)]) (use assms(1,2) in \<open>auto simp: cell_weight_def receive_next_def take_envelope_def\<close>)

lemma weight_returned:
  assumes "cell_at s c = Some k" and "begun s c" and "c < fc_workers g + 2"
  shows "run_weight g (s\<lparr>begun := (begun s)(c := False), cell_at := (cell_at s)(c := Some (finish_message ac io k))\<rparr>) a < run_weight g s a"
  by (rule weight_hidden [OF assms(3)]) (use assms(1,2) in \<open>auto simp: cell_weight_def finish_message_def split: list.split\<close>)

lemma weight_entered:
  assumes "fed_weight g b < fed_weight g a" and "todo s (Loop c) = []"
  shows "run_weight g (s\<lparr>begun := (begun s)(c := True), todo := (todo s)(Loop c := map Call cs)\<rparr>) b < run_weight g s a"
  by (rule weight_seen [of g b 1 a _ _ c]) (use assms in \<open>auto simp: cell_weight_def split: list.split\<close>)

lemma weight_out:
  assumes "fed_weight g b < fed_weight g a" and "todo s (Loop c) = Call (Output io) # qs"
  shows "run_weight g (s\<lparr>outputs := x, todo := (todo s)(Loop c := qs)\<rparr>) b < run_weight g s a"
  by (rule weight_seen [of g b 1 a _ _ c]) (use assms in \<open>auto simp: cell_weight_def split: list.split\<close>)

lemma weight_done:
  assumes "fed_weight g b + 2 \<le> fed_weight g a" and "cell_at s d = Some k"
    and "length (ch (mailbox k')) \<le> Suc (length (ch (mailbox k)))"
  shows "run_weight g (put d k' (Loop c) qs s) b < run_weight g s a"
  by (rule weight_sent [OF assms(1), of _ _ c d]) (use assms(2,3) in \<open>auto simp: cell_weight_def split: list.split\<close>)

section \<open>Every step after the set-up is a step of the network or none\<close>

text \<open>What a settled state and the network it shows have in common.\<close>

definition settled :: "fed_config \<Rightarrow> nat \<Rightarrow> (nat \<Rightarrow> nat \<Rightarrow> runtime) \<Rightarrow> fed_running \<Rightarrow> fed_net \<Rightarrow> bool" where
  "settled g N pick s a \<longleftrightarrow> rt_pending (fed_programs g pick) s \<and> calm g N s \<and> fed_view g pick s a \<and> bounded_inv g a"

lemma settled_good: "settled g N pick s a \<Longrightarrow> rt_good (fed_programs g pick) s"
  by (simp add: settled_def rt_pending_def)

lemma loop_head:
  assumes st: "settled g N pick s a" and q: "todo s h = q # qs"
  obtains c e es where "h = Loop c" and "c < fc_workers g + 2" and "outbox a (node_at c) = e # es" and "plain q = Some (call_of e)"
proof (cases h)
  case (Ext i)
  then show ?thesis using st q by (simp add: settled_def calm_def)
next
  case (Loop c)
  have "todo_view a c (q # qs)" using st q Loop fed_viewD(2) [of g pick s a c] by (simp add: settled_def)
  then obtain e es where e: "outbox a (node_at c) = e # es" "plain q = Some (call_of e)" by (rule todo_viewD)
  have "loops_ok s" using settled_good [OF st] by (simp add: rt_good_def)
  then have "begun s c" using q Loop unfolding loops_ok_def by (metis list.distinct(1))
  then obtain k where "cell_at s c = Some k" using \<open>loops_ok s\<close> unfolding loops_ok_def by blast
  then have "c < fc_workers g + 2" using calm_cell(1) [OF settled_good [OF st]] st by (auto simp: settled_def)
  then show ?thesis using that Loop e by blast
qed

lemma settled_weight:
  assumes "bounded_inv g a"
  shows "outbox a v = e # es \<Longrightarrow> boxes b = boxes a \<Longrightarrow> outbox b = (outbox a)(v := es) \<Longrightarrow>
      fed_weight g b < fed_weight g a"
    and "outbox a v = SendRetry to m line # es \<Longrightarrow> boxes b = (boxes a)(to := boxes a to @ [m]) \<Longrightarrow> outbox b = (outbox a)(v := es) \<Longrightarrow>
      fed_weight g b + 2 \<le> fed_weight g a"
    and "outbox a v = [] \<Longrightarrow> boxes a v = m # ms \<Longrightarrow> map_runtime rt \<Longrightarrow> fed_weight g (fed_handle g rt v m (a\<lparr>boxes := (boxes a)(v := ms)\<rparr>)) < fed_weight g a"
proof -
  let ?mw = "\<lambda>_. msg_weight 1 2 (fc_workers g)" and ?ew = "effect_weight 1 2 (fc_workers g)"
  obtain k where k: "actors_ok g k a" "messages_ok g k a" using assms by (auto simp: bounded_inv_def live_inv_def fed_inv_def)
  show "fed_weight g b < fed_weight g a" if "outbox a v = e # es" "boxes b = boxes a" "outbox b = (outbox a)(v := es)"
  proof -
    have "v \<in> nodes g" using k(2) that(1) by (force simp: messages_ok_def)
    then show ?thesis using net_sum_skip [OF _ that, of g ?mw ?ew] effect_weight_pos [of 1 2 "fc_workers g" e] by simp
  qed
  show "fed_weight g b + 2 \<le> fed_weight g a"
    if "outbox a v = SendRetry to m line # es" "boxes b = (boxes a)(to := boxes a to @ [m])" "outbox b = (outbox a)(v := es)"
    using net_sum_send [OF send_target [OF k(2) that(1)] that, of ?mw ?ew] by simp
  show "fed_weight g (fed_handle g rt v m (a\<lparr>boxes := (boxes a)(v := ms)\<rparr>)) < fed_weight g a"
    if "outbox a v = []" "boxes a v = m # ms" "map_runtime rt"
  proof -
    let ?u = "a\<lparr>boxes := (boxes a)(v := ms)\<rparr>"
    have "length (Workers (coord ?u)) = fc_workers g" using k(1) by (simp add: actors_ok_def fed_coordinator_def)
    from handle_weight [OF this that(3), of 1 2 v m] show ?thesis
      using net_sum_take [OF take_parts(1) [OF k(2) that(2)] that(1,2), of "fed_handle g rt v m ?u" "handler_effects g rt v m ?u" ?mw ?ew]
      by simp
  qed
qed

lemma calm_keep:
  assumes "calm g N s" and "sys t = sys s" and "\<And>i. todo t (Ext i) = todo s (Ext i)"
    and "\<And>c k'. cell_at t c = Some k' \<Longrightarrow> \<exists>k. cell_at s c = Some k \<and> (runner k \<noteq> NotStarted \<longrightarrow> runner k' \<noteq> NotStarted) \<and>
      ch_size (mailbox k') = ch_size (mailbox k)"
  shows "calm g N t"
  using assms unfolding calm_def by metis

lemma calm_put:
  assumes "calm g N s" and "cell_at s d = Some k" and "runner k \<noteq> NotStarted \<Longrightarrow> runner k' \<noteq> NotStarted"
    and "ch_size (mailbox k') = ch_size (mailbox k)"
  shows "calm g N (put d k' (Loop c) qs s)"
  by (rule calm_keep [OF assms(1)]) (use assms(2-4) in \<open>auto split: if_splits\<close>)

lemma cap_tell: "r \<in> set (enqueue_select m (k\<lparr>senders := ss\<rparr>)) \<Longrightarrow> ch_size (mailbox (log_tell m r)) = ch_size (mailbox k)"
  by (auto simp: cell_defs split: if_splits envelope.splits)

definition shown_by :: "fed_config \<Rightarrow> nat \<Rightarrow> (nat \<Rightarrow> nat \<Rightarrow> runtime) \<Rightarrow> fed_running \<Rightarrow> fed_net \<Rightarrow> fed_running \<Rightarrow> fed_net \<Rightarrow> bool" where
  "shown_by g N pick s a t b \<longleftrightarrow> (b = a \<or> fed_bounded g (\<lambda>_. Suc N) (length (fc_starts g)) a b) \<and> fed_view g pick t b \<and> calm g N t \<and>
     run_weight g t b < run_weight g s a"

lemma messages_length: "length (messages es) \<le> length es"
  by (induction es) (simp_all split: envelope.split)

text \<open>A cell that takes a send shows at most as many messages as its mailbox has places.\<close>

lemma seen_room:
  assumes "send_ready (k\<lparr>senders := ss\<rparr>)"
  shows "length (seen_box b k) < Suc (ch_size (mailbox k))"
proof (cases "runner k")
  case Receiving
  then have "length (ch (mailbox k)) \<le> ch_size (mailbox k)" using assms by (auto simp: send_ready_def receiver_waits_def)
  then show ?thesis using messages_length [of "ch (mailbox k)"] Receiving by (simp add: seen_box_def)
next
  case (Handling m)
  then have "length (ch (mailbox k)) < ch_size (mailbox k)" using assms by (simp add: send_ready_def receiver_waits_def)
  then show ?thesis using messages_length [of "ch (mailbox k)"] Handling by (simp add: seen_box_def)
qed (use assms messages_length [of "ch (mailbox k)"] in \<open>simp_all add: seen_box_def send_ready_def receiver_waits_def\<close>)

lemma sent_shown:
  assumes st: "settled g N pick s a" and q: "todo s (Loop c) = Select d io # qs" and k: "cell_at s d = Some k" "senders k = xs @ io # ys"
    and r: "r \<in> set (enqueue_select io (k\<lparr>senders := xs @ ys\<rparr>))"
  shows "\<exists>b. shown_by g N pick s a (put d (log_tell io r) (Loop c) qs s) b"
proof -
  have view: "fed_view g pick s a" and calm: "calm g N s" and inv: "bounded_inv g a" using st by (simp_all add: settled_def)
  note good = settled_good [OF st] and cell = calm_cell [OF settled_good [OF st] calm k(1)]
  obtain e es where out: "outbox a (node_at c) = e # es" "Some (Tell d io) = Some (call_of e)"
    using fed_viewD(2) [OF view, of c] q by (auto simp: todo_view_def)
  then obtain m line where e: "e = SendRetry (node_at d) m line" and io: "io = Mail m" using call_of_Tell by (metis option.inject)
  have r': "r = (send_envelope (Msg io) (k\<lparr>senders := xs @ ys\<rparr>), None)" and ready: "send_ready (k\<lparr>senders := xs @ ys\<rparr>)"
    using r cell(3) by (auto simp: enqueue_select_def split: if_splits)
  let ?b = "a\<lparr>boxes := (boxes a)(node_at d := boxes a (node_at d) @ [m]), outbox := (outbox a)(node_at c := es)\<rparr>"
  have "map Mail (boxes a (node_at d)) = seen_box (begun s d) k"
    using fed_viewD(1) [OF view k(1)] by (simp add: cell_view_def)
  then have "length (boxes a (node_at d)) = length (seen_box (begun s d) k)" by (metis length_map)
  moreover have "length (seen_box (begun s d) k) < Suc N" using seen_room [OF ready, of "begun s d"] cell(6) by simp
  ultimately have "fed_bounded g (\<lambda>_. Suc N) (length (fc_starts g)) a ?b" using bounded_sent [OF out(1) [unfolded e], of "\<lambda>_. Suc N" g "length (fc_starts g)"] by simp
  moreover have "fed_view g pick (put d (log_tell io r) (Loop c) qs s) ?b"
    using sim_done [OF good view q [unfolded io] k(1) r' [unfolded io] out(1) [unfolded e]] by (simp add: io)
  moreover have "calm g N (put d (log_tell io r) (Loop c) qs s)"
    by (rule calm_put [OF calm k(1)]) (use runner_select(1) [OF r] cap_tell [OF r] in auto)
  moreover have "run_weight g (put d (log_tell io r) (Loop c) qs s) ?b < run_weight g s a"
    by (rule weight_done [OF settled_weight(2) [OF inv out(1) [unfolded e]] k(1) listed_length [OF r']]) simp_all
  ultimately show ?thesis unfolding shown_by_def by blast
qed

lemma out_shown:
  assumes st: "settled g N pick s a" and q: "todo s (Loop c) = Call (Output io) # qs"
  shows "\<exists>b. shown_by g N pick s a (s\<lparr>outputs := outputs s @ [io], todo := (todo s)(Loop c := qs)\<rparr>) b" (is "\<exists>b. shown_by g N pick s a ?t b")
proof -
  have view: "fed_view g pick s a" and calm: "calm g N s" and inv: "bounded_inv g a" using st by (simp_all add: settled_def)
  obtain e es where out: "outbox a (node_at c) = e # es" and e: "call_of e = Output io"
    using fed_viewD(2) [OF view, of c] q by (auto simp: todo_view_def)
  let ?b = "a\<lparr>results := results a @ (case result_of io of None \<Rightarrow> [] | Some x \<Rightarrow> [x]), outbox := (outbox a)(node_at c := es)\<rparr>"
  have "fed_bounded g (\<lambda>_. Suc N) (length (fc_starts g)) a ?b"
    using e call_of_Output [of e io] bounded_logged [of a "node_at c" _ es g] bounded_result [of a "node_at c" _ es _ g]
      result_has_room [OF inv, of "node_at c" _ es] out by auto
  moreover have "fed_view g pick ?t ?b" by (rule sim_out [OF view q out e])
  moreover have "calm g N ?t" by (rule calm_keep [OF calm]) auto
  moreover have "run_weight g ?t ?b < run_weight g s a" by (rule weight_out [OF settled_weight(1) [OF inv out] q]) simp_all
  ultimately show ?thesis unfolding shown_by_def by blast
qed

lemma entered_shown:
  assumes st: "settled g N pick s a" and pick: "\<And>c k. map_runtime (pick c k)"
    and k: "cell_at s c = Some k" "runner k = Handling io" and b: "\<not> begun s c"
  shows "\<exists>b. shown_by g N pick s a
    (s\<lparr>begun := (begun s)(c := True), todo := (todo s)(Loop c := map Call (snd (fed_message g pick c (actor_state k) io)))\<rparr>) b"
    (is "\<exists>b. shown_by g N pick s a ?t b")
proof -
  have view: "fed_view g pick s a" and calm: "calm g N s" and inv: "bounded_inv g a" using st by (simp_all add: settled_def)
  have idle: "todo s (Loop c) = []" using settled_good [OF st] b by (auto simp: rt_good_def loops_ok_def)
  from sim_entered [OF view k b idle] obtain m ms where m: "outbox a (node_at c) = []" "boxes a (node_at c) = m # ms"
    "fed_view g pick ?t (fed_handle g (pick c (fst (actor_state k))) (node_at c) m (a\<lparr>boxes := (boxes a)(node_at c := ms)\<rparr>))" (is "fed_view g pick ?t ?b")
    by metis
  have "fed_bounded g (\<lambda>_. Suc N) (length (fc_starts g)) a ?b" by (rule bounded_take [OF m(1,2) pick])
  moreover have "calm g N ?t" by (rule calm_keep [OF calm]) auto
  moreover have "run_weight g ?t ?b < run_weight g s a"
    by (rule weight_entered [OF settled_weight(3) [OF inv m(1,2) pick] idle])
  ultimately show ?thesis using m(3) unfolding shown_by_def by blast
qed

lemma received_shown:
  assumes st: "settled g N pick s a" and k: "cell_at s c = Some k" "runner k = Receiving" "ch (mailbox k) \<noteq> []"
  shows "shown_by g N pick s a (s\<lparr>cell_at := (cell_at s)(c := Some (receive_next k))\<rparr>) a" (is "shown_by g N pick s a ?t a")
proof -
  have view: "fed_view g pick s a" and calm: "calm g N s" using st by (simp_all add: settled_def)
  note cell = calm_cell [OF settled_good [OF st] calm k(1)]
  obtain e es where "ch (mailbox k) = e # es" using k(3) by (cases "ch (mailbox k)") auto
  then obtain io where io: "ch (mailbox k) = Msg io # es" using cell(7) by (cases e) auto
  have "\<not> begun s c" using not_begun(1) [OF settled_good [OF st] k(1)] k(2) by simp
  then have "fed_view g pick ?t a" by (rule sim_received [OF view k(1,2) io])
  moreover have "calm g N ?t"
    by (rule calm_keep [OF calm]) (use k(1) io in \<open>auto simp: receive_next_def take_envelope_def split: if_splits\<close>)
  ultimately show ?thesis using weight_received [OF k(1) io cell(1)] unfolding shown_by_def by blast
qed

lemma returned_shown:
  assumes st: "settled g N pick s a" and k: "cell_at s c = Some k" "runner k = Handling io" and b: "begun s c"
  shows "shown_by g N pick s a (s\<lparr>begun := (begun s)(c := False),
    cell_at := (cell_at s)(c := Some (finish_message (program_actor (fed_programs g pick aid) aid c) io k))\<rparr>) a" (is "shown_by g N pick s a ?t a")
proof -
  have view: "fed_view g pick s a" and calm: "calm g N s" using st by (simp_all add: settled_def)
  have "calm g N ?t" by (rule calm_keep [OF calm]) (use k(1) in \<open>auto simp: finish_message_def split: if_splits\<close>)
  then show ?thesis
    using sim_returned [OF view k b] weight_returned [OF k(1) b calm_cell(1) [OF settled_good [OF st] calm k(1)]] unfolding shown_by_def by blast
qed

lemma passed_shown:
  assumes st: "settled g N pick s a" and q: "todo s (Loop c) = Call (Tell d io) # qs" and k: "cell_at s d = Some k"
    and c: "c < fc_workers g + 2"
  shows "shown_by g N pick s a (put d (k\<lparr>senders := senders k @ [io]\<rparr>) (Loop c) (Select d io # qs) s) a" (is "shown_by g N pick s a ?t a")
proof -
  have view: "fed_view g pick s a" and calm: "calm g N s" using st by (simp_all add: settled_def)
  have "calm g N ?t" by (rule calm_put [OF calm k]) simp_all
  then show ?thesis
    using sim_passed [OF view q k] weight_passed [OF settled_good [OF st] q k c] unfolding shown_by_def by blast
qed

lemma settled_shown:
  assumes st: "settled g N pick s a" and pick: "\<And>c k. map_runtime (pick c k)" and step: "driven_step (fed_programs g pick) s t"
  shows "\<exists>b. shown_by g N pick s a t b"
proof -
  have rt: "rt_step (fed_programs g pick) s t" "t \<noteq> s" "\<And>i. todo s (Ext i) = [] \<Longrightarrow> todo t (Ext i) = []"
    using step by (simp_all add: driven_step_def)
  have calm: "calm g N s" using st by (simp add: settled_def)
  note good = settled_good [OF st]
  have none: False if "todo s h = q # qs" "plain q = None" for h q qs
    by (rule loop_head [OF st that(1)]) (use that(2) in simp)
  show ?thesis using rt(1)
  proof cases
    case (tell_passed h d io qs k)
    then obtain c where "h = Loop c" "c < fc_workers g + 2" using loop_head [OF st tell_passed(2)] by blast
    then show ?thesis using passed_shown [OF st _ tell_passed(3), where c = c] tell_passed(1,2) by blast
  next
    case (tell_closed h d io qs k e)
    then show ?thesis using calm_cell(3) [OF good calm tell_closed(3)] by (simp add: enqueue_check_def)
  next
    case (tell_done h d io qs k xs ys r)
    then obtain c where "h = Loop c" using loop_head [OF st tell_done(2)] by metis
    then show ?thesis using sent_shown [OF st _ tell_done(3-5), where c = c] tell_done(1,2) by simp
  next
    case (received c k)
    then show ?thesis using received_shown [OF st received(2-4)] by blast
  next
    case (handler_entered c k io)
    then show ?thesis using entered_shown [OF st pick handler_entered(2-4)] by simp
  next
    case (handler_returned c k io)
    then show ?thesis using returned_shown [OF st handler_returned(2-4)] by blast
  next
    case (put_out h io qs)
    then obtain c where "h = Loop c" using loop_head [OF st put_out(2)] by metis
    then show ?thesis using out_shown [OF st, where c = c] put_out(1,2) by simp
  next
    case (external i calls)
    then have "map Call calls = todo s (Ext i)" using rt(3) [of i] by simp
    then have "(todo s)(Ext i := map Call calls) = todo s" by (simp only: fun_upd_triv)
    then show ?thesis using external(1) rt(2) by simp
  qed (use none in fastforce)+
qed

lemma settled_sim:
  assumes "fed_bound g" and "\<And>c k. map_runtime (pick c k)" and st: "settled g N pick s a"
    and step: "driven_step (fed_programs g pick) s t"
  obtains b where "b = a \<or> fed_bounded g (\<lambda>_. Suc N) (length (fc_starts g)) a b" and "settled g N pick t b" and "run_weight g t b < run_weight g s a"
proof -
  obtain b where b: "shown_by g N pick s a t b" using settled_shown [OF st assms(2) step] by blast
  have "rt_pending (fed_programs g pick) t"
    using rt_pending.step_good st step unfolding settled_def driven_step_def by blast
  moreover have "bounded_inv g b"
    using b st bounded_inv_step [OF assms(1) _ fed_bounded_live] unfolding shown_by_def settled_def by blast
  ultimately show thesis using that b unfolding settled_def shown_by_def by blast
qed

end
