(* ===== verification/FedDeploy.thy ===== *)
theory FedDeploy
  imports FedRuntime
begin

text \<open>
  The federated round as the demo runs it, on the actor runtime from the empty actor system on: the driver
  spawns the coordinator, the aggregator and the workers, tells the coordinator to start, and waits for the
  result.  The set-up ends in a settled state of \<^theory_text>\<open>FedRuntime\<close> that shows the start of the
  network, so results, completion and the length of the whole run follow.
\<close>

section \<open>The driver\<close>

definition fed_ids :: "fed_config \<Rightarrow> string list" where
  "fed_ids g = ''coordinator'' # ''aggregator'' # map (fc_worker_id g) [0..<fc_workers g]"

definition fed_driver :: "fed_config \<Rightarrow> nat \<Rightarrow> string list \<Rightarrow> fed_io call list" where
  "fed_driver g N paths = map (\<lambda>aid. SpawnSized aid N) (fed_ids g) @ [Tell 0 (Mail (StartTraining paths))]"

definition fed_launch :: "fed_config \<Rightarrow> nat \<Rightarrow> string list \<Rightarrow> fed_running" where
  "fed_launch g N paths = rt_start\<lparr>todo := (\<lambda>_. [])(Ext 0 := map Call (fed_driver g N paths))\<rparr>"

lemma fed_ids_length [simp]: "length (fed_ids g) = fc_workers g + 2"
  by (simp add: fed_ids_def)

lemma fed_initial_id:
  assumes "distinct (fed_ids g)" and "c < fc_workers g + 2"
  shows "fed_initial g (fed_ids g ! c) = node_actor (fed_start g) (node_at c)"
proof (cases c rule: node_at.cases)
  case (3 i)
  let ?f = "fc_worker_id g"
  have i: "i < fc_workers g" using assms(2) 3 by simp
  have "takeWhile (\<lambda>j. ?f j \<noteq> ?f i) [0..<fc_workers g] = [0..<i]"
  proof (rule takeWhile_eq_take_P_nth [where n = i and xs = "[0..<fc_workers g]", THEN trans])
    have "inj_on ?f {0..<fc_workers g}" using assms(1) by (simp add: fed_ids_def distinct_map)
    then show "?f ([0..<fc_workers g] ! j) \<noteq> ?f i" if "j < i" "j < length [0..<fc_workers g]" for j
      using that i by (auto dest: inj_onD)
    show "i < length [0..<fc_workers g] \<Longrightarrow> \<not> ?f ([0..<fc_workers g] ! i) \<noteq> ?f i" using i by simp
  qed (use i in \<open>simp add: take_upt\<close>)
  moreover have "?f i \<in> set (map ?f [0..<fc_workers g])" using i by simp
  then have "?f i \<noteq> ''coordinator''" "?f i \<noteq> ''aggregator''" using assms(1) by (auto simp: fed_ids_def)
  ultimately show ?thesis using i 3 by (simp add: fed_ids_def fed_initial_def)
qed (simp_all add: fed_ids_def fed_initial_def fed_start_def)

section \<open>States of the set-up\<close>

definition fresh :: "fed_config \<Rightarrow> nat \<Rightarrow> nat \<Rightarrow> fed_io runner \<Rightarrow> fed_io list \<Rightarrow> (nat \<times> fed_actor, fed_io) cell" where
  "fresh g N c r ss = \<lparr>mailbox = \<lparr>ch = [], ch_size = N, mb_closed = False\<rparr>, actor_state = (0, fed_initial g (fed_ids g ! c)),
     runner = r, stopper = NotCalled, self_stopped = False, senders = ss, accepted = [], rejected = [], delivered = [], mark = 0\<rparr>"

text \<open>\<open>k\<close> actors are spawned, the last one's loop is at \<open>r\<close>, and the coordinator's mailbox has been asked to take \<open>ss\<close>.\<close>

definition deploying ::
    "fed_config \<Rightarrow> nat \<Rightarrow> (nat \<Rightarrow> nat \<Rightarrow> runtime) \<Rightarrow> nat \<Rightarrow> fed_io pending list \<Rightarrow> fed_io runner \<Rightarrow> fed_io list \<Rightarrow> fed_running \<Rightarrow> bool" where
  "deploying g N pick k rest r ss s \<longleftrightarrow> rt_pending (fed_programs g pick) s \<and> map cell_id (heap (sys s)) = take k (fed_ids g) \<and>
     stop_calls (sys s) = [] \<and> outputs s = [] \<and> (\<forall>c. \<not> begun s c) \<and> todo s = (\<lambda>_. [])(Ext 0 := rest) \<and>
     cell_at s = (\<lambda>c. if c < k then Some (fresh g N c (if Suc c = k then r else Receiving) (if c = 0 then ss else [])) else None)"

lemma driven_external: "driven_step ps s t \<Longrightarrow> t = s\<lparr>todo := (todo s)(Ext i := map Call calls)\<rparr> \<Longrightarrow> todo s (Ext i) = [] \<Longrightarrow> False"
proof -
  assume d: "driven_step ps s t" and t: "t = s\<lparr>todo := (todo s)(Ext i := map Call calls)\<rparr>" and e: "todo s (Ext i) = []"
  then have "todo t (Ext i) = []" unfolding driven_step_def by blast
  then have "map Call calls = todo s (Ext i)" using t e by simp
  then have "(todo s)(Ext i := map Call calls) = todo s" by (simp only: fun_upd_triv)
  then show False using t d by (simp add: driven_step_def)
qed

lemma driven_pending: "rt_pending ps s \<Longrightarrow> driven_step ps s t \<Longrightarrow> rt_pending ps t"
  unfolding driven_step_def using rt_pending.step_good by blast

text \<open>Only the driver moves during the set-up.\<close>

lemma deploy_cell:
  assumes "deploying g N pick k rest r ss s" and "r = NotStarted \<or> r = Receiving" and "cell_at s c = Some x"
  shows "ch (mailbox x) = []" and "runner x \<noteq> Handling m"
  using assms by (auto simp: deploying_def fresh_def split: if_splits)

lemma deploy_idle:
  assumes "deploying g N pick k rest r ss s" and "r = NotStarted \<or> r = Receiving"
  shows "cell_at s c = Some x \<Longrightarrow> runner x = Receiving \<Longrightarrow> ch (mailbox x) \<noteq> [] \<Longrightarrow> False"
    and "cell_at s c = Some x \<Longrightarrow> runner x = Handling m \<Longrightarrow> False"
    and "todo s h = q # qs \<Longrightarrow> h = Ext 0 \<and> q # qs = rest"
  using deploy_cell [OF assms] assms by (auto simp: deploying_def split: if_splits)

fun drives :: "'m pending list \<Rightarrow> bool" where
  "drives (Call (Tell d m) # qs) \<longleftrightarrow> True"
| "drives (Select d m # qs) \<longleftrightarrow> True"
| "drives (Call (SpawnSized aid n) # qs) \<longleftrightarrow> True"
| "drives (GoRun c # qs) \<longleftrightarrow> True"
| "drives _ \<longleftrightarrow> False"

lemma deploy_cases:
  assumes dep: "deploying g N pick k rest r ss s" "r = NotStarted \<or> r = Receiving" "drives rest" and step: "driven_step (fed_programs g pick) s t"
  obtains (pass) d io qs x where "rest = Call (Tell d io) # qs" "cell_at s d = Some x"
      "t = put d (x\<lparr>senders := senders x @ [io]\<rparr>) (Ext 0) (Select d io # qs) s"
  | (hand) d io qs x xs ys r' where "rest = Select d io # qs" "cell_at s d = Some x" "senders x = xs @ io # ys"
      "r' \<in> set (enqueue_select io (x\<lparr>senders := xs @ ys\<rparr>))" "t = put d (log_tell io r') (Ext 0) qs s"
  | (spawn) aid n qs y p x where "rest = Call (SpawnSized aid n) # qs" "SpawnWithMailboxSize aid (int n) (sys s) = (y, Return (Inr p))"
      "start_cell (program_actor (fed_programs g pick aid) aid (pid_cell p)) (initial (fed_programs g pick aid)) (int n) = Some x"
      "t = s\<lparr>sys := y, cell_at := (cell_at s)(pid_cell p := Some x), todo := (todo s)(Ext 0 := GoRun (pid_cell p) # qs)\<rparr>"
  | (refuse) aid n qs y e where "rest = Call (SpawnSized aid n) # qs" "SpawnWithMailboxSize aid (int n) (sys s) = (y, Return (Inl e))"
  | (loop) c qs x where "rest = GoRun c # qs" "cell_at s c = Some x" "t = put c (x\<lparr>runner := Receiving\<rparr>) (Ext 0) qs s"
proof -
  note idle = deploy_idle [OF dep(1,2)]
  have none: False if "todo s h = q # qs" "\<not> drives (q # qs)" for h q qs using idle(3) [OF that(1)] that(2) dep(3) by metis
  have "rt_step (fed_programs g pick) s t" using step by (simp add: driven_step_def)
  then show thesis
  proof cases
    case (tell_passed h d io qs x)
    note h = idle(3) [OF tell_passed(2)]
    show ?thesis by (rule pass [OF conjunct2 [OF h, symmetric] tell_passed(3)]) (use tell_passed(1) h in simp)
  next
    case (tell_closed h d io qs x e)
    then show ?thesis using dep(1) by (auto simp: deploying_def fresh_def enqueue_check_def split: if_splits)
  next
    case (tell_done h d io qs x xs ys r')
    note h = idle(3) [OF tell_done(2)]
    show ?thesis by (rule hand [OF conjunct2 [OF h, symmetric] tell_done(3-5)]) (use tell_done(1) h in simp)
  next
    case (spawned h aid n qs y p x)
    note h = idle(3) [OF spawned(2)]
    show ?thesis by (rule spawn [OF conjunct2 [OF h, symmetric] spawned(3,4)]) (use spawned(1) h in \<open>simp add: fed_programs_def\<close>)
  next
    case (spawn_refused h aid n qs y e)
    show ?thesis by (rule refuse [OF conjunct2 [OF idle(3) [OF spawn_refused(2)], symmetric] spawn_refused(3)])
  next
    case (loop_started h c qs x)
    note h = idle(3) [OF loop_started(2)]
    show ?thesis by (rule loop [OF conjunct2 [OF h, symmetric] loop_started(3)]) (use loop_started(1) h in simp)
  qed ((erule none [THEN FalseE], simp; fail) | erule (2) idle(1) [THEN FalseE] | erule (1) idle(2) [THEN FalseE] |
    erule (1) driven_external [OF step, THEN FalseE])+
qed

text \<open>Its next step: a spawn, the start of the loop, and the two selects of the first send.\<close>

lemma spawn_id:
  assumes dep: "deploying g N pick k rest r ss s" and ids: "distinct (fed_ids g)" "k < fc_workers g + 2"
    and sp: "SpawnWithMailboxSize (fed_ids g ! k) n (sys s) = (y, out)"
  shows "out \<noteq> Return (Inl e)"
proof
  assume "out = Return (Inl e)"
  then obtain c where c: "fmlookup (cells (sys s)) (fed_ids g ! k) = Some c"
    using sp by (auto simp: SpawnWithMailboxSize_def split: if_splits option.splits)
  have "sys_inv (sys s)" using dep by (simp add: deploying_def rt_pending_def rt_good_def)
  then have "c < length (heap (sys s))" "cell_id (heap (sys s) ! c) = fed_ids g ! k" using c by (auto simp: sys_inv_def)
  moreover have heap: "map cell_id (heap (sys s)) = take k (fed_ids g)" using dep by (simp add: deploying_def)
  moreover from heap have "length (heap (sys s)) = k" using ids(2) by (metis fed_ids_length length_map length_take min.absorb4)
  ultimately have "c < k" "fed_ids g ! c = fed_ids g ! k" by (metis nth_map nth_take)+
  then show False using ids by (simp add: nth_eq_iff_index_eq)
qed

lemma deploy_spawns:
  assumes dep: "deploying g N pick k (Call (SpawnSized (fed_ids g ! k) N) # qs) Receiving [] s"
    and ids: "distinct (fed_ids g)" "k < fc_workers g + 2" and step: "driven_step (fed_programs g pick) s t"
  shows "deploying g N pick (Suc k) (GoRun k # qs) NotStarted [] t"
proof -
  note pend = driven_pending [OF _ step]
  have dep': "rt_pending (fed_programs g pick) s" "sys_inv (sys s)"
    using dep unfolding deploying_def rt_pending_def rt_good_def by blast+
  have st: "map cell_id (heap (sys s)) = take k (fed_ids g)" "stop_calls (sys s) = []"
    "outputs s = []" "\<And>c. \<not> begun s c" "todo s = (\<lambda>_. [])(Ext 0 := Call (SpawnSized (fed_ids g ! k) N) # qs)"
    "cell_at s = (\<lambda>c. if c < k then Some (fresh g N c Receiving []) else None)"
    using dep by (simp_all add: deploying_def cong: if_cong)
  have len: "length (heap (sys s)) = k" using st(1) ids(2) by (metis fed_ids_length length_map length_take min.absorb4)
  have "drives (Call (SpawnSized (fed_ids g ! k) N) # qs)" by simp
  with dep disjI2 [OF refl] show ?thesis using step
  proof (cases rule: deploy_cases)
    case (spawn aid n rs y p x)
    then have h: "aid = fed_ids g ! k" "n = N" "rs = qs" by simp_all
    note y = spawn_takes [OF dep'(2) spawn(2)]
    have p: "pid_cell p = k" using y(5) len by simp
    have x: "x = fresh g N k NotStarted []"
      using spawn(3) by (simp add: h p start_cell_def newMailbox_def program_actor_def fed_programs_def fresh_def)
    have "map cell_id (heap y) = take (Suc k) (fed_ids g)" using y(4) st(1) ids(2) by (simp add: h take_Suc_conv_app_nth)
    moreover have "todo t = (\<lambda>_. [])(Ext 0 := GoRun k # qs)" by (simp add: spawn(4) h p st(5))
    moreover have "cell_at t = (\<lambda>c. if c < Suc k then Some (fresh g N c (if Suc c = Suc k then NotStarted else Receiving) (if c = 0 then [] else [])) else None)"
      by (simp add: spawn(4) p x st(6) fun_eq_iff less_Suc_eq)
    ultimately show ?thesis using pend [OF dep'(1)] y(3) st(2-4) unfolding deploying_def by (simp add: spawn(4))
  next
    case (refuse aid n rs y e)
    then show ?thesis using spawn_id [OF dep ids, of "int N" y "Return (Inl e)" e] by simp
  qed simp_all
qed

lemma deploy_begins:
  assumes dep: "deploying g N pick (Suc k) (GoRun k # qs) NotStarted [] s" and step: "driven_step (fed_programs g pick) s t"
  shows "deploying g N pick (Suc k) qs Receiving [] t"
  using dep disjI1 [OF refl] drives.simps(4) [THEN iffD2, OF TrueI] step
proof (cases rule: deploy_cases)
  case (loop c rs x)
  then have c: "c = k" "rs = qs" by simp_all
  have st: "todo s = (\<lambda>_. [])(Ext 0 := GoRun k # qs)"
    "cell_at s = (\<lambda>c. if c < Suc k then Some (fresh g N c (if Suc c = Suc k then NotStarted else Receiving) []) else None)"
    using dep by (simp_all add: deploying_def cong: if_cong)
  have x: "x\<lparr>runner := Receiving\<rparr> = fresh g N k Receiving []" using loop(2) by (auto simp: c st(2) fresh_def)
  have "todo t = (\<lambda>_. [])(Ext 0 := qs)" by (simp add: loop(3) c st(1))
  moreover have "cell_at t = (\<lambda>c. if c < Suc k then Some (fresh g N c (if Suc c = Suc k then Receiving else Receiving) (if c = 0 then [] else [])) else None)"
    by (simp add: loop(3) c x st(2) fun_eq_iff less_Suc_eq)
  ultimately show ?thesis using driven_pending [OF _ step] dep unfolding deploying_def by (simp add: loop(3))
qed simp_all

lemma deploy_tells:
  assumes dep: "deploying g N pick k [Call (Tell 0 io)] Receiving [] s" and step: "driven_step (fed_programs g pick) s t"
  shows "deploying g N pick k [Select 0 io] Receiving [io] t"
  using dep disjI2 [OF refl] drives.simps(1) [THEN iffD2, OF TrueI] step
proof (cases rule: deploy_cases)
  case (pass d io' rs x)
  then have d: "d = 0" "io' = io" "rs = []" by simp_all
  have st: "todo s = (\<lambda>_. [])(Ext 0 := [Call (Tell 0 io)])"
    "cell_at s = (\<lambda>c. if c < k then Some (fresh g N c Receiving []) else None)"
    using dep by (simp_all add: deploying_def cong: if_cong)
  have x: "x\<lparr>senders := senders x @ [io]\<rparr> = fresh g N 0 Receiving [io]" "0 < k"
    using pass(2) by (auto simp: d st(2) fresh_def split: if_splits)
  have "todo t = (\<lambda>_. [])(Ext 0 := [Select 0 io])" by (simp add: pass(3) d st(1))
  moreover have "cell_at t = (\<lambda>c. if c < k then Some (fresh g N c (if Suc c = k then Receiving else Receiving) (if c = 0 then [io] else [])) else None)"
    using x by (auto simp: pass(3) d st(2) fun_eq_iff)
  ultimately show ?thesis using driven_pending [OF _ step] dep unfolding deploying_def by (simp add: pass(3))
qed simp_all

text \<open>The coordinator takes the first message over: the network of the round starts.\<close>

lemma handed_over:
  assumes "x = fresh g N 0 Receiving [io]" and "senders x = xs @ io # ys" and "r' \<in> set (enqueue_select io (x\<lparr>senders := xs @ ys\<rparr>))"
  shows "log_tell io r' = (fresh g N 0 (Handling io) [])\<lparr>accepted := [io], delivered := [io]\<rparr>"
proof -
  have "xs = []" "ys = []" using assms(1,2) by (cases xs; simp add: fresh_def)+
  then show ?thesis using assms(1,3)
    by (simp add: fresh_def enqueue_select_def send_ready_def receiver_waits_def send_envelope_def take_envelope_def log_tell_def)
qed

definition start_weight :: "nat \<Rightarrow> nat" where
  "start_weight n = 2 * msg_weight 1 2 n (StartTraining []) + n + 2"

lemma fed_weight_start: "fc_starts g = [paths] \<Longrightarrow> fed_weight g (fed_start g) = msg_weight 1 2 (fc_workers g) (StartTraining [])"
proof -
  assume "fc_starts g = [paths]"
  then have "node_sum (\<lambda>_. msg_weight 1 2 n) (effect_weight 1 2 n) (fed_start g) v =
      (if v = Coord then msg_weight 1 2 n (StartTraining []) else 0)" for n v
    by (simp add: node_sum_def fed_start_def)
  then show ?thesis by (simp add: net_sum_def nodes_def)
qed

lemma deploy_settles:
  assumes dep: "deploying g N pick (fc_workers g + 2) [Select 0 io] Receiving [io] s" and io: "io = Mail (StartTraining paths)"
    and g: "fc_starts g = [paths]" "distinct (fed_ids g)" and step: "driven_step (fed_programs g pick) s t"
  shows "settled g N pick t (fed_start g)" and "run_weight g t (fed_start g) = start_weight (fc_workers g)"
proof -
  let ?k = "\<lambda>c. if c = 0 then (fresh g N 0 (Handling io) [])\<lparr>accepted := [io], delivered := [io]\<rparr> else fresh g N c Receiving []"
  have st: "todo s = (\<lambda>_. [])(Ext 0 := [Select 0 io])"
    "cell_at s = (\<lambda>c. if c < fc_workers g + 2 then Some (fresh g N c Receiving (if c = 0 then [io] else [])) else None)"
    "stop_calls (sys s) = []" "outputs s = []" "\<And>c. \<not> begun s c" "rt_pending (fed_programs g pick) s"
    using dep by (simp_all add: deploying_def cong: if_cong)
  have "map cell_id (heap (sys s)) = fed_ids g" using dep by (simp add: deploying_def)
  from arg_cong [where f = length, OF this] have len: "length (heap (sys s)) = fc_workers g + 2" by simp
  have t: "sys t = sys s \<and> begun t = begun s \<and> outputs t = outputs s \<and> todo t = (\<lambda>_. []) \<and>
      cell_at t = (\<lambda>c. if c < fc_workers g + 2 then Some (?k c) else None)"
    using dep disjI2 [OF refl] drives.simps(2) [THEN iffD2, OF TrueI] step
  proof (cases rule: deploy_cases)
    case (hand d io' rs x xs ys r')
    then have d: "d = 0" "io' = io" "rs = []" by simp_all
    have "x = fresh g N 0 Receiving [io]" using hand(2) by (simp add: d st(2))
    from handed_over [OF this hand(3,4) [unfolded d]] show ?thesis by (auto simp: hand(5) d st(1,2) fun_eq_iff)
  qed simp_all
  have cell: "c < fc_workers g + 2 \<and> k = ?k c" if "cell_at t c = Some k" for c k using that t by (simp split: if_splits)
  have "calm g N t" using t st(3) len by (auto simp: calm_def fresh_def dest!: cell)
  moreover have "fed_view g pick t (fed_start g)"
  proof (rule fed_viewI)
    show "cell_view g pick (fed_start g) c (begun t c) k" if "cell_at t c = Some k" for c k
    proof -
      have c: "c < fc_workers g + 2" "k = ?k c" using cell [OF that] by auto
      have "node_at c = Coord \<longleftrightarrow> c = 0" by (cases c rule: node_at.cases) simp_all
      then have "boxes (fed_start g) (node_at c) = (if c = 0 then [StartTraining paths] else [])" by (simp add: fed_start_def g(1))
      moreover have "snd (actor_state k) = node_actor (fed_start g) (node_at c)"
        using fed_initial_id [OF g(2) c(1)] by (cases "c = 0") (simp_all add: c(2) fresh_def)
      ultimately show ?thesis using t st(5)
        by (cases "c = 0") (simp_all add: cell_view_def seen_actor_def seen_box_def c(2) fresh_def io)
    qed
  qed (use t st(4) in \<open>simp_all add: todo_view_def fed_start_def map_filter_simps\<close>)
  ultimately show "settled g N pick t (fed_start g)"
    using driven_pending [OF st(6) step] bounded_inv_start by (simp add: settled_def)
  have "cell_weight t c = 1" if "c < fc_workers g + 2" for c
    using that t st(5) by (simp add: cell_weight_def fresh_def)
  then show "run_weight g t (fed_start g) = start_weight (fc_workers g)"
    unfolding run_weight_def start_weight_def fed_weight_start [OF g(1)] by simp
qed

section \<open>The whole run\<close>

text \<open>The \<open>j\<close>-th state of the set-up, and what holds of every state of a run.\<close>

definition launching :: "fed_config \<Rightarrow> nat \<Rightarrow> (nat \<Rightarrow> nat \<Rightarrow> runtime) \<Rightarrow> string list \<Rightarrow> nat \<Rightarrow> fed_running \<Rightarrow> bool" where
  "launching g N pick paths j s \<longleftrightarrow>
     (let n = fc_workers g + 2; rest = (\<lambda>k. map Call (drop k (fed_driver g N paths))); io = Mail (StartTraining paths) in
      if j = 2 * n + 1 then deploying g N pick n [Select 0 io] Receiving [io] s
      else if even j then deploying g N pick (j div 2) (rest (j div 2)) Receiving [] s
      else deploying g N pick (Suc (j div 2)) (GoRun (j div 2) # rest (Suc (j div 2))) NotStarted [] s)"

lemma fed_driver_drop: "k < fc_workers g + 2 \<Longrightarrow>
    map Call (drop k (fed_driver g N paths)) = Call (SpawnSized (fed_ids g ! k) N) # map Call (drop (Suc k) (fed_driver g N paths))"
  "map Call (drop (fc_workers g + 2) (fed_driver g N paths)) = [Call (Tell 0 (Mail (StartTraining paths)))]"
  by (simp_all add: fed_driver_def Cons_nth_drop_Suc [symmetric] nth_append del: drop_append)

lemma launch_step:
  assumes ids: "distinct (fed_ids g)" "fc_starts g = [paths]" and s: "launching g N pick paths j s" "j < 2 * (fc_workers g + 2) + 1"
    and step: "driven_step (fed_programs g pick) s t"
  shows "launching g N pick paths (Suc j) t"
proof (cases "even j")
  case True
  then obtain k where j: "j = 2 * k" by (elim evenE)
  show ?thesis
  proof (cases "k < fc_workers g + 2")
    case True
    have "deploying g N pick k (map Call (drop k (fed_driver g N paths))) Receiving [] s"
      using s j by (simp add: launching_def)
    then show ?thesis using deploy_spawns [OF _ ids(1) True step, where qs = "map Call (drop (Suc k) (fed_driver g N paths))"] True
      by (simp add: fed_driver_drop launching_def j)
  next
    case False
    then have "k = fc_workers g + 2" using s(2) j by simp
    moreover from this have "deploying g N pick k (map Call (drop k (fed_driver g N paths))) Receiving [] s"
      using s j by (simp add: launching_def)
    ultimately have "deploying g N pick (fc_workers g + 2) [Call (Tell 0 (Mail (StartTraining paths)))] Receiving [] s"
      using fed_driver_drop(2) by metis
    from deploy_tells [OF this step] show ?thesis using \<open>k = fc_workers g + 2\<close> by (simp add: launching_def j)
  qed
next
  case False
  then obtain k where j: "j = 2 * k + 1" by (elim oddE)
  have "deploying g N pick (Suc k) (GoRun k # map Call (drop (Suc k) (fed_driver g N paths))) NotStarted [] s"
    using s j by (simp add: launching_def)
  moreover have "2 * k \<noteq> Suc (Suc (Suc (2 * fc_workers g)))" by presburger
  ultimately show ?thesis using deploy_begins [OF _ step] by (simp add: launching_def j Let_def)
qed

lemma launch_start: "launching g N pick paths 0 (fed_launch g N paths)"
proof -
  have "rt_pending (fed_programs g pick) rt_start" using rt_pending.start_good by blast
  from rt_pending.step_good [OF this rt_step.external [where i = 0 and calls = "fed_driver g N paths"]]
  have "rt_pending (fed_programs g pick) (fed_launch g N paths)" by (simp add: fed_launch_def rt_start_def fun_upd_def)
  then show ?thesis by (simp add: launching_def deploying_def fed_launch_def rt_start_def NewActorSystem_def)
qed

text \<open>The set-up does not get stuck.\<close>

lemma driven_ext:
  assumes "rt_step ps s t" and "todo s (Ext 0) \<noteq> []" and "todo t = (todo s)(Ext 0 := qs)" and "qs \<noteq> todo s (Ext 0)"
  shows "driven_step ps s t"
proof -
  have "t \<noteq> s" using assms(3,4) by (metis fun_upd_same)
  then show ?thesis using assms(1-3) by (simp add: driven_step_def)
qed

lemma deploying_fields:
  assumes "deploying g N pick k rest r ss s"
  shows "todo s (Ext 0) = rest" and "c < k \<Longrightarrow> cell_at s c = Some (fresh g N c (if Suc c = k then r else Receiving) (if c = 0 then ss else []))"
    and "\<not> locked (sys s)"
  using assms by (simp_all add: deploying_def rt_pending_def) (simp add: rt_good_def)

lemma spawns_go_on:
  assumes dep: "deploying g N pick k (Call (SpawnSized (fed_ids g ! k) N) # qs) Receiving [] s"
    and ids: "distinct (fed_ids g)" "k < fc_workers g + 2"
  shows "\<exists>t. driven_step (fed_programs g pick) s t"
proof -
  let ?aid = "fed_ids g ! k" and ?ps = "fed_programs g pick"
  note todo = deploying_fields(1) [OF dep]
  obtain y out where sp: "SpawnWithMailboxSize ?aid (int N) (sys s) = (y, out)" by (cases "SpawnWithMailboxSize ?aid (int N) (sys s)") auto
  obtain p where out: "out = Return (Inr p)"
    using spawn_id [OF dep ids sp] sp deploying_fields(3) [OF dep]
    by (auto simp: SpawnWithMailboxSize_def newActorCell_def newMailbox_def split: option.splits)
  obtain x where "start_cell (program_actor (?ps ?aid) ?aid (pid_cell p)) (initial (?ps ?aid)) (int N) = Some x"
    by (simp add: start_cell_def newMailbox_def)
  note step = rt_step.spawned [where ps = ?ps, OF todo sp [unfolded out] this]
  show ?thesis by (rule exI, rule driven_ext [OF step, of "GoRun (pid_cell p) # qs"]) (simp_all add: todo fed_programs_def)
qed

lemma launch_goes_on:
  assumes ids: "distinct (fed_ids g)" and s: "launching g N pick paths j s" "j \<le> 2 * (fc_workers g + 2) + 1"
  shows "\<exists>t. driven_step (fed_programs g pick) s t"
proof -
  let ?n = "fc_workers g + 2" and ?io = "Mail (StartTraining paths)"
  consider "j = 2 * ?n + 1" | "j = 2 * ?n" | k where "j = 2 * k" "k < ?n" | k where "j = 2 * k + 1" "k < ?n"
    using s(2) by (cases "even j") (auto elim!: evenE oddE, linarith+)
  then show ?thesis
  proof cases
    case 1
    then have dep: "deploying g N pick ?n [Select 0 ?io] Receiving [?io] s" using s(1) by (simp add: launching_def Let_def)
    note f = deploying_fields(1) [OF dep] deploying_fields(2) [OF dep, of 0]
    let ?x = "fresh g N 0 Receiving [?io]"
    have "(send_envelope (Msg ?io) (?x\<lparr>senders := [] @ []\<rparr>), None) \<in> set (enqueue_select ?io (?x\<lparr>senders := [] @ []\<rparr>))"
      by (simp add: enqueue_select_def send_ready_def receiver_waits_def fresh_def)
    moreover have "cell_at s 0 = Some ?x" "senders ?x = [] @ ?io # []" using f(2) by (simp_all add: fresh_def)
    ultimately show ?thesis using driven_ext [OF rt_step.tell_done [OF f(1)]] f(1) by fastforce
  next
    case 2
    then have "deploying g N pick ?n (map Call (drop ?n (fed_driver g N paths))) Receiving [] s" using s(1) by (simp add: launching_def Let_def)
    then have dep: "deploying g N pick ?n [Call (Tell 0 ?io)] Receiving [] s" using fed_driver_drop(2) by metis
    note f = deploying_fields(1) [OF dep] deploying_fields(2) [OF dep, of 0]
    have "enqueue_check (mailbox (fresh g N 0 Receiving [])) = None" by (simp add: enqueue_check_def fresh_def)
    then show ?thesis using driven_ext [OF rt_step.tell_passed [OF f(1)]] f by fastforce
  next
    case (3 k)
    have "deploying g N pick k (map Call (drop k (fed_driver g N paths))) Receiving [] s"
      using s(1) 3 by (simp add: launching_def Let_def)
    then show ?thesis using spawns_go_on [OF _ ids 3(2)] by (simp add: fed_driver_drop(1) [OF 3(2)])
  next
    case (4 k)
    then have "2 * k + 1 \<noteq> 2 * ?n + 1" by simp
    then have dep: "deploying g N pick (Suc k) (GoRun k # map Call (drop (Suc k) (fed_driver g N paths))) NotStarted [] s"
      using s(1) by (simp add: launching_def Let_def 4(1))
    note f = deploying_fields(1) [OF dep] deploying_fields(2) [OF dep, of k]
    have "runner (fresh g N k NotStarted []) = NotStarted" by (simp add: fresh_def)
    then show ?thesis using driven_ext [OF rt_step.loop_started [OF f(1)]] f by fastforce
  qed
qed

text \<open>A run is in its set-up, or has settled and shows a run of the network; a measure of what is left of it.\<close>

definition run_shows :: "fed_config \<Rightarrow> nat \<Rightarrow> (nat \<Rightarrow> nat \<Rightarrow> runtime) \<Rightarrow> string list \<Rightarrow> nat \<Rightarrow> fed_running \<Rightarrow> bool" where
  "run_shows g N pick paths w s \<longleftrightarrow>
     (\<exists>j \<le> 2 * (fc_workers g + 2) + 1. launching g N pick paths j s \<and>
        w + j = 2 * (fc_workers g + 2) + 2 + start_weight (fc_workers g)) \<or>
     (\<exists>a. settled g N pick s a \<and> reaches (\<lambda>x. x = fed_start g) (fed_bounded g (\<lambda>_. Suc N) (length (fc_starts g))) a \<and> w = run_weight g s a)"

definition run_ready :: "fed_config \<Rightarrow> (nat \<Rightarrow> nat \<Rightarrow> runtime) \<Rightarrow> string list \<Rightarrow> bool" where
  "run_ready g pick paths \<longleftrightarrow> fed_bound g \<and> fc_starts g = [paths] \<and> distinct (fed_ids g) \<and> (\<forall>c k. map_runtime (pick c k))"

lemma run_shows_step:
  assumes ready: "run_ready g pick paths" and s: "run_shows g N pick paths w s" and step: "driven_step (fed_programs g pick) s t"
  shows "\<exists>w'<w. run_shows g N pick paths w' t"
proof -
  have g: "fed_bound g" "fc_starts g = [paths]" "distinct (fed_ids g)" "\<And>c k. map_runtime (pick c k)"
    using ready by (simp_all add: run_ready_def)
  from s consider j where "j < 2 * (fc_workers g + 2) + 1" "launching g N pick paths j s"
      "w + j = 2 * (fc_workers g + 2) + 2 + start_weight (fc_workers g)"
    | "launching g N pick paths (2 * (fc_workers g + 2) + 1) s" "w = Suc (start_weight (fc_workers g))"
    | a where "settled g N pick s a" "reaches (\<lambda>x. x = fed_start g) (fed_bounded g (\<lambda>_. Suc N) (length (fc_starts g))) a" "w = run_weight g s a"
    unfolding run_shows_def using nat_less_le by fastforce
  then show ?thesis
  proof cases
    case (1 j)
    have "launching g N pick paths (Suc j) t" by (rule launch_step [OF g(3,2) 1(2,1) step])
    then have "run_shows g N pick paths (w - 1) t" using 1(1,3) unfolding run_shows_def by (intro disjI1 exI [of _ "Suc j"]) simp
    moreover have "w - 1 < w" using 1(1,3) by simp
    ultimately show ?thesis by blast
  next
    case 2
    then have "deploying g N pick (fc_workers g + 2) [Select 0 (Mail (StartTraining paths))] Receiving [Mail (StartTraining paths)] s"
      by (simp add: launching_def Let_def)
    note settles = deploy_settles [OF this refl g(2,3) step]
    have "run_shows g N pick paths (start_weight (fc_workers g)) t"
      unfolding run_shows_def using settles reaches_start [of "\<lambda>x. x = fed_start g"] by metis
    then show ?thesis using 2(2) by blast
  next
    case (3 a)
    obtain b where b: "b = a \<or> fed_bounded g (\<lambda>_. Suc N) (length (fc_starts g)) a b" "settled g N pick t b" "run_weight g t b < run_weight g s a"
      by (rule settled_sim [OF g(1,4) 3(1) step])
    have "reaches (\<lambda>x. x = fed_start g) (fed_bounded g (\<lambda>_. Suc N) (length (fc_starts g))) b" using b(1) 3(2) reaches_step by metis
    then have "run_shows g N pick paths (run_weight g t b) t" using b(2) unfolding run_shows_def by blast
    then show ?thesis using b(3) 3(3) by blast
  qed
qed

lemma run_shows_run:
  assumes ready: "run_ready g pick paths" and run: "(driven_step (fed_programs g pick) ^^ m) (fed_launch g N paths) s"
  shows "\<exists>w. run_shows g N pick paths w s \<and> w + m \<le> 2 * (fc_workers g + 2) + 2 + start_weight (fc_workers g)"
  using run
proof (induction m arbitrary: s)
  case 0
  then have "s = fed_launch g N paths" by simp
  then have "run_shows g N pick paths (2 * (fc_workers g + 2) + 2 + start_weight (fc_workers g)) s"
    unfolding run_shows_def using launch_start [of g N pick paths] by (intro disjI1 exI [of _ 0]) simp
  then show ?case by (metis add_0_right order_refl)
next
  case (Suc m)
  then obtain u where u: "(driven_step (fed_programs g pick) ^^ m) (fed_launch g N paths) u" "driven_step (fed_programs g pick) u s" by auto
  obtain w where w: "run_shows g N pick paths w u" "w + m \<le> 2 * (fc_workers g + 2) + 2 + start_weight (fc_workers g)"
    using Suc.IH [OF u(1)] by blast
  obtain w' where "w' < w" "run_shows g N pick paths w' s" using run_shows_step [OF ready w(1) u(2)] by blast
  then show ?case using w(2) by (intro exI [of _ w']) simp
qed

section \<open>A run that has come to a halt\<close>

lemma settled_pids: "settled g N pick s a \<Longrightarrow> pids_ok s"
proof (unfold pids_ok_def, intro allI impI)
  fix h c io assume st: "settled g N pick s a" and mem: "Call (Tell c io) \<in> set (todo s h)"
  have view: "fed_view g pick s a" and calm: "calm g N s" and inv: "bounded_inv g a" using st by (simp_all add: settled_def)
  obtain k where ok: "messages_ok g k a" using inv by (auto simp: bounded_inv_def live_inv_def fed_inv_def)
  obtain d where h: "h = Loop d" using mem calm by (cases h) (auto simp: calm_def)
  have "Some (Tell c io) \<in> plain ` set (todo s (Loop d))" using mem h by (force simp: image_iff)
  then have "Some (Tell c io) \<in> (\<lambda>e. Some (call_of e)) ` set (outbox a (node_at d))"
    using fed_viewD(2) [OF view, of d] unfolding todo_view_def by (metis list.set_map)
  then obtain e where "e \<in> set (outbox a (node_at d))" "call_of e = Tell c io" by auto
  then obtain m line where "SendRetry (node_at c) m line \<in> set (outbox a (node_at d))" using call_of_Tell by metis
  then have "node_at c \<in> nodes g" using ok by (force simp: messages_ok_def effect_ok_def list_all_iff)
  then have "c < fc_workers g + 2" by simp
  then show "cell_at s c \<noteq> None" using settled_good [OF st] calm by (simp add: rt_good_def calm_def)
qed

lemma messages_all: "StopSignal \<notin> set es \<Longrightarrow> length (messages es) = length es"
  by (induction es) (auto split: envelope.split)

lemma settled_wait:
  assumes st: "settled g N pick s a" and wait: "waits_for s h h'"
  obtains c d m line es k where "h = Loop c" and "h' = Loop d" and "outbox a (node_at c) = SendRetry (node_at d) m line # es"
    and "cell_at s d = Some k" and "\<not> send_ready k"
proof -
  from wait obtain d k where d: "needs (todo s h) = Some d" "cell_at s d = Some k" "held_by (todo s h) k"
      "if not_started s d then GoRun d \<in> set (todo s h') else h' = Loop d \<and> todo s h' \<noteq> []"
    unfolding waits_for_def by blast
  then obtain q qs where q: "todo s h = q # qs" by (cases "todo s h") auto
  obtain c e es where e: "h = Loop c" "outbox a (node_at c) = e # es" "plain q = Some (call_of e)" by (rule loop_head [OF st q])
  then obtain io where io: "q = Select d io" "call_of e = Tell d io"
    using d(1) q by (cases q; simp)
  then obtain m line where "e = SendRetry (node_at d) m line" using call_of_Tell by metis
  moreover have "\<not> not_started s d" using st d(2) by (auto simp: settled_def calm_def not_started_def)
  ultimately show thesis using that [OF e(1) _ _ d(2)] e(2) d(3,4) q io(1) by simp
qed

lemma stuck_halted:
  assumes "\<nexists>t. driven_step ps s t"
  shows "halted ps s"
proof (unfold halted_def, intro allI impI)
  fix t assume step: "rt_step ps s t"
  show "cell_at t = cell_at s \<and> begun t = begun s \<and> (\<forall>g. todo s g \<noteq> [] \<longrightarrow> todo t g = todo s g)"
  proof (cases "t = s")
    case False
    then obtain i where i: "todo s (Ext i) = []" "todo t (Ext i) \<noteq> []" using assms step by (auto simp: driven_step_def)
    show ?thesis using step
    proof cases
      case (external j calls)
      then show ?thesis by auto
    qed (use i in \<open>auto split: if_splits\<close>)
  qed simp
qed

text \<open>The workers wait for the aggregator only, the coordinator for them and the aggregator, and the
aggregator, whose message the coordinator's mailbox has room for, for nobody.\<close>

lemma halted_idle:
  assumes st: "settled g N pick s a" and N: "0 < N" "length (fc_starts g) \<le> N" and halt: "halted (fed_programs g pick) s"
  shows "todo s h = []"
proof -
  have view: "fed_view g pick s a" and calm: "calm g N s" and inv: "bounded_inv g a" and pend: "rt_pending (fed_programs g pick) s"
    using st by (simp_all add: settled_def)
  have waits: "\<exists>d. todo s (Loop d) \<noteq> [] \<and> may_send (node_at c) (node_at d) \<and> node_at c \<noteq> Agg" if busy: "todo s (Loop c) \<noteq> []" for c
  proof -
    obtain h' where h': "waits_for s (Loop c) h'" "todo s h' \<noteq> []" using halted_waits [OF pend halt settled_pids [OF st] busy] by blast
    obtain c' d m line es k where w: "Loop c = Loop c'" "h' = Loop d" "outbox a (node_at c') = SendRetry (node_at d) m line # es"
      "cell_at s d = Some k" "\<not> send_ready k" by (rule settled_wait [OF st h'(1)])
    have "routed a" using inv by (simp add: bounded_inv_def)
    then have may: "may_send (node_at c) (node_at d)" using w(1,3) unfolding routed_def by (metis goroutine.inject(1) list.set_intros(1))
    have "node_at c \<noteq> Agg"
    proof
      assume agg: "node_at c = Agg"
      then have d: "node_at d = Coord" using may by simp
      have "length (boxes a Coord) < traffic g a" using coordinator_mail [of a] w(1,3) agg d by simp
      then have "length (boxes a Coord) < N" using inv N(2) by (simp add: bounded_inv_def)
      moreover have "seen_box (begun s d) k = map Mail (boxes a Coord)"
        using fed_viewD(1) [OF view w(4)] d by (simp add: cell_view_def)
      then have "length (seen_box (begun s d) k) = length (boxes a Coord)" by simp
      moreover have "length (ch (mailbox k)) \<le> length (seen_box (begun s d) k)"
        using calm_cell(7) [OF settled_good [OF st] calm w(4)] by (simp add: seen_box_def messages_all)
      ultimately show False using w(5) calm_cell(6) [OF settled_good [OF st] calm w(4)] by (simp add: send_ready_def)
    qed
    then show ?thesis using may h'(2) w(2) by blast
  qed
  have agg: "todo s (Loop c) = []" if "node_at c = Agg" for c using waits [of c] that by blast
  have work: "todo s (Loop c) = []" if "node_at c = Work i" for c i using waits [of c] that agg by auto
  have "todo s (Loop c) = []" for c
  proof (cases "node_at c")
    case Coord
    show ?thesis
    proof (rule ccontr)
      assume "todo s (Loop c) \<noteq> []"
      then obtain d where d: "todo s (Loop d) \<noteq> []" "node_at d \<noteq> Coord" using waits [of c] Coord by auto
      then show False using agg [of d] work [of d] by (cases "node_at d") auto
    qed
  qed (use agg work in auto)
  then show ?thesis using calm by (cases h) (simp_all add: calm_def)
qed

lemma halted_network:
  assumes st: "settled g N pick s a" and N: "0 < N" "length (fc_starts g) \<le> N" and halt: "halted (fed_programs g pick) s"
  shows "boxes a v = []" and "outbox a v = []" and "cell_at s c = Some k \<Longrightarrow> runner k = Receiving \<and> ch (mailbox k) = []"
proof -
  have view: "fed_view g pick s a" and calm: "calm g N s" and inv: "bounded_inv g a" and pend: "rt_pending (fed_programs g pick) s"
    using st by (simp_all add: settled_def)
  note idle = halted_idle [OF st N halt]
  have wait: "runner k = Receiving \<and> ch (mailbox k) = []" if k: "cell_at s c = Some k" for c k
  proof -
    have "receiver_waits k" using held_up [OF pend halt k] calm_cell(4) [OF settled_good [OF st] calm k] idle by blast
    then show ?thesis by (auto simp: receiver_waits_def split: runner.splits)
  qed
  then show "cell_at s c = Some k \<Longrightarrow> runner k = Receiving \<and> ch (mailbox k) = []" .
  show "outbox a v = []" using fed_viewD(2) [OF view, of "cell_of v"] idle by (simp add: todo_view_def)
  show "boxes a v = []"
  proof (cases "v \<in> nodes g")
    case True
    then have "cell_of v < fc_workers g + 2" unfolding cell_of_less .
    then obtain k where k: "cell_at s (cell_of v) = Some k"
      using settled_good [OF st] calm unfolding rt_good_def calm_def by (metis leD option.exhaust)
    have "seen_box (begun s (cell_of v)) k = map Mail (boxes a v)" using fed_viewD(1) [OF view k] by (simp add: cell_view_def)
    then show ?thesis using wait [OF k] by (simp add: seen_box_def)
  next
    case False
    obtain k where "messages_ok g k a" using inv by (auto simp: bounded_inv_def live_inv_def fed_inv_def)
    then show ?thesis using False by (simp add: messages_ok_def)
  qed
qed

section \<open>Properties\<close>

lemma run_cases:
  assumes "run_ready g pick paths" and "(driven_step (fed_programs g pick))\<^sup>*\<^sup>* (fed_launch g N paths) s"
  obtains (launch) j where "launching g N pick paths j s" "j \<le> 2 * (fc_workers g + 2) + 1"
  | (settled) a where "settled g N pick s a" "reaches (\<lambda>x. x = fed_start g) (fed_bounded g (\<lambda>_. Suc N) (length (fc_starts g))) a"
proof -
  obtain m where "(driven_step (fed_programs g pick) ^^ m) (fed_launch g N paths) s" using assms(2) rtranclp_imp_relpowp by metis
  then show thesis using run_shows_run [OF assms(1)] launch settled unfolding run_shows_def by metis
qed

lemma launching_todo: "launching g N pick paths j s \<Longrightarrow> todo s (Ext 0) \<noteq> [] \<and> outputs s = []" if "j \<le> 2 * (fc_workers g + 2) + 1"
proof -
  assume s: "launching g N pick paths j s"
  have "drop k (fed_driver g N paths) \<noteq> []" if "k < fc_workers g + 3" for k using that by (simp add: fed_driver_def)
  moreover have "j \<noteq> 2 * (fc_workers g + 2) + 1 \<Longrightarrow> j div 2 < fc_workers g + 3" using that by simp
  ultimately show ?thesis using s by (auto simp: launching_def deploying_def Let_def split: if_splits)
qed

lemma settled_results:
  assumes "settled g N pick s a"
  shows "ResultOut x \<in> set (outputs s) \<longleftrightarrow> x \<in> set (results a)"
proof -
  have "results a = List.map_filter result_of (outputs s)" using assms fed_viewD(3) [of g pick s a] by (simp add: settled_def)
  moreover have "result_of y = Some x \<longleftrightarrow> y = ResultOut x" for y by (cases y) auto
  ultimately show ?thesis by (force simp: List.map_filter_def image_iff)
qed

lemma run_completes:
  assumes "run_ready g pick paths" and "(driven_step (fed_programs g pick))\<^sup>*\<^sup>* (fed_launch g N paths) s"
    and "0 < N" and "\<nexists>t. driven_step (fed_programs g pick) s t"
  shows "(\<forall>h. todo s h = []) \<and> (\<forall>c k. cell_at s c = Some k \<longrightarrow> runner k = Receiving \<and> ch (mailbox k) = []) \<and>
    (length paths = fc_workers g \<and> (\<forall>i<fc_workers g. \<exists>recs. Load (fc_files g i) (paths ! i) = Inr recs) \<longrightarrow>
     (\<exists>x. ResultOut x \<in> set (outputs s)))"
  using assms(1,2)
proof (cases rule: run_cases)
  case (launch j)
  moreover have "distinct (fed_ids g)" using assms(1) by (simp add: run_ready_def)
  ultimately show ?thesis using launch_goes_on assms(4) by blast
next
  case (settled a)
  note halt = stuck_halted [OF assms(4)]
  have g: "fed_bound g" "fc_starts g = [paths]" using assms(1) by (simp_all add: run_ready_def)
  then have N: "length (fc_starts g) \<le> N" using assms(3) by simp
  note net = halted_network [OF settled(1) assms(3) N halt]
  have stuck: "\<nexists>b. fed_live g a b" using net(1,2) bounded_stuck_live by blast
  have "\<exists>x. ResultOut x \<in> set (outputs s)"
    if "length paths = fc_workers g" "\<forall>i<fc_workers g. \<exists>recs. Load (fc_files g i) (paths ! i) = Inr recs"
  proof -
    have "fed_rounds g = [paths]" using g(2) that(1) by (simp add: fed_rounds_def)
    then have "\<exists>x\<in>set (results a). rr_RoundID x = of_nat 1"
      using stuck_completes [OF g(1) reaches_bounded [OF settled(2)] stuck, of 1] that(2) by simp
    then show ?thesis using settled_results [OF settled(1)] by blast
  qed
  then show ?thesis using halted_idle [OF settled(1) assms(3) N halt] net(3) by blast
qed

lemma run_stops:
  assumes ready: "run_ready g pick paths" and "run_shows g N pick paths w s"
  shows "\<exists>t. (driven_step (fed_programs g pick))\<^sup>*\<^sup>* s t \<and> (\<nexists>u. driven_step (fed_programs g pick) t u)"
  using assms(2)
proof (induction w arbitrary: s rule: less_induct)
  case (less w)
  show ?case
  proof (cases "\<exists>u. driven_step (fed_programs g pick) s u")
    case True
    then obtain u where u: "driven_step (fed_programs g pick) s u" by blast
    then obtain w' where "w' < w" "run_shows g N pick paths w' u" using run_shows_step [OF ready less.prems] by blast
    then obtain t where "(driven_step (fed_programs g pick))\<^sup>*\<^sup>* u t" "\<nexists>u. driven_step (fed_programs g pick) t u" using less.IH by blast
    then show ?thesis using converse_rtranclp_into_rtranclp [of "driven_step (fed_programs g pick)", OF u] by blast
  qed (use rtranclp.rtrancl_refl in blast)
qed

text \<open>The two workers and the one round of the network's example, on mailboxes of the default size.\<close>

abbreviation demo_steps :: "fed_running \<Rightarrow> fed_running \<Rightarrow> bool" where
  "demo_steps \<equiv> driven_step (fed_programs demo_config (\<lambda>_ _. sorted_runtime))"

abbreviation demo_launch :: fed_running where
  "demo_launch \<equiv> fed_launch demo_config 128 [''w'', ''w'']"

lemma demo_ready: "run_ready demo_config (\<lambda>_ _. sorted_runtime) [''w'', ''w'']"
proof -
  have "fed_ids demo_config = [''coordinator'', ''aggregator'', itoa 0, itoa 1]"
    by (simp add: fed_ids_def demo_config_def upt_rec)
  moreover have "distinct [''coordinator'', ''aggregator'', itoa 0, itoa 1]" by code_simp
  ultimately have "distinct (fed_ids demo_config)" by (simp only:)
  then show ?thesis using demo_config_facts(1) by (simp add: run_ready_def) (simp add: demo_config_def)
qed

lemma demo_halts:
  obtains s x where "demo_steps\<^sup>*\<^sup>* demo_launch s" and "\<nexists>t. demo_steps s t" and "\<And>h. todo s h = []" and "ResultOut x \<in> set (outputs s)"
proof -
  have "(demo_steps ^^ 0) demo_launch demo_launch" by simp
  from run_shows_run [OF demo_ready this] obtain w where "run_shows demo_config 128 (\<lambda>_ _. sorted_runtime) [''w'', ''w''] w demo_launch" by blast
  from run_stops [OF demo_ready this] obtain s where s: "demo_steps\<^sup>*\<^sup>* demo_launch s" "\<nexists>t. demo_steps s t" by blast
  have "length [''w'', ''w''] = fc_workers demo_config \<and>
      (\<forall>i<fc_workers demo_config. \<exists>recs. Load (fc_files demo_config i) ([''w'', ''w''] ! i) = Inr recs)"
    using demo_config_facts(3,4) by (metis One_nat_def Suc_1 length_Cons list.size(3))
  then show thesis using that [OF s] run_completes [OF demo_ready s(1) _ s(2)] by auto
qed

text \<open>C12: The federated round on the running actor system refines the network of nodes: after the set-up, every state
that any interleaving of the driver, the run loops, the mailboxes and the blocked senders reaches shows a
reachable state of the network, with mailboxes of the same size and the message a handler has taken, and a channel
for one result that always has room when the coordinator reports: each
actor's state and unhandled mail, the rest of each handler, and the results.\<close>

theorem runtime_refines_network:
  assumes "run_ready g pick paths" and "(driven_step (fed_programs g pick))\<^sup>*\<^sup>* (fed_launch g N paths) s" and "todo s (Ext 0) = []"
  shows "\<exists>a. reaches (\<lambda>x. x = fed_start g) (fed_bounded g (\<lambda>_. Suc N) 1) a \<and> fed_view g pick s a"
  using assms(1,2)
proof (cases rule: run_cases)
  case (launch j)
  then show ?thesis using launching_todo assms(3) by blast
next
  case (settled a)
  moreover have "length (fc_starts g) = 1" using assms(1) by (simp add: run_ready_def)
  ultimately show ?thesis unfolding settled_def by metis
qed

theorem runtime_refines_network_witness:
  "\<exists>s a x. demo_steps\<^sup>*\<^sup>* demo_launch s \<and> ResultOut x \<in> set (outputs s) \<and>
     reaches (\<lambda>x. x = fed_start demo_config) (fed_bounded demo_config (\<lambda>_. Suc 128) 1) a \<and> fed_view demo_config (\<lambda>_ _. sorted_runtime) s a"
proof -
  obtain s x where s: "demo_steps\<^sup>*\<^sup>* demo_launch s" "\<nexists>t. demo_steps s t" "\<And>h. todo s h = []" "ResultOut x \<in> set (outputs s)"
    by (rule demo_halts) (rule that)
  then show ?thesis using runtime_refines_network [OF demo_ready s(1,3)] by blast
qed

lemma only_member: "length zs \<le> 1 \<Longrightarrow> z \<in> set zs \<Longrightarrow> zs = [z]"
  by (cases zs) auto

text \<open>C4: What the running system reports is the centralized result: whatever the interleaving of its goroutines, a
result that the coordinator puts into the driver's channel is that of round 1, every worker could load its
partition, and its metrics are those of the model trained on all their records at one place; and it is the only
one, so the channel, which holds one result, always has room for it.\<close>

theorem runtime_result_centralized:
  assumes "run_ready g pick paths" and "(driven_step (fed_programs g pick))\<^sup>*\<^sup>* (fed_launch g N paths) s"
    and "ResultOut x \<in> set (outputs s)"
  shows "filter (\<lambda>m. result_of m \<noteq> None) (outputs s) = [ResultOut x] \<and>
    (\<exists>recs rt. rr_RoundID x = 1 \<and> map (\<lambda>i. Load (fc_files g i) (paths ! i)) [0..<fc_workers g] = map Inr recs \<and> map_runtime rt \<and>
    rr_Metrics x = Evaluate (fc_fpu g) rt (Aggregate (fc_fpu g) sorted_runtime [CountLocal (concat recs)]) (fc_test g))"
  using assms(1,2)
proof (cases rule: run_cases)
  case (launch j)
  then show ?thesis using launching_todo assms(3) by force
next
  case (settled a)
  have g: "fed_bound g" "fed_rounds g = (if length paths = fc_workers g then [paths] else [])"
    using assms(1) by (simp_all add: run_ready_def fed_rounds_def)
  have "fed_reachable g a" by (rule reaches_live [OF reaches_bounded [OF settled(2)]])
  moreover have "x \<in> set (results a)" using settled_results [OF settled(1)] assms(3) by simp
  ultimately obtain j recs rt where x: "1 \<le> j" "j \<le> length (fed_rounds g)" "rr_RoundID x = of_nat j"
    "map (\<lambda>i. Load (fc_files g i) (fed_rounds g ! (j - 1) ! i)) [0..<fc_workers g] = map Inr recs" "map_runtime rt"
    "rr_Metrics x = Evaluate (fc_fpu g) rt (Aggregate (fc_fpu g) sorted_runtime [CountLocal (concat recs)]) (fc_test g)"
    using result_centralized [OF g(1)] by blast
  have "j = 1" "fed_rounds g = [paths]" using x(1,2) g(2) by (auto split: if_splits)
  moreover have "length (filter (\<lambda>m. result_of m \<noteq> None) (outputs s)) \<le> 1"
    using results_bound [of g a] settled(1) assms(1) fed_viewD(3) [of g pick s a]
    by (simp add: settled_def run_ready_def List.map_filter_def)
  then have "filter (\<lambda>m. result_of m \<noteq> None) (outputs s) = [ResultOut x]"
    by (rule only_member) (use assms(3) in simp)
  ultimately show ?thesis using x(3-6) by (intro conjI exI [of _ recs] exI [of _ rt]) simp_all
qed

theorem runtime_result_centralized_witness:
  "\<exists>s x recs rt. demo_steps\<^sup>*\<^sup>* demo_launch s \<and> ResultOut x \<in> set (outputs s) \<and> rr_RoundID x = 1 \<and>
     map (\<lambda>i. Load (fc_files demo_config i) ([''w'', ''w''] ! i)) [0..<fc_workers demo_config] = map Inr recs \<and> map_runtime rt \<and>
     rr_Metrics x = Evaluate (fc_fpu demo_config) rt (Aggregate (fc_fpu demo_config) sorted_runtime [CountLocal (concat recs)]) (fc_test demo_config)"
proof -
  obtain s x where s: "demo_steps\<^sup>*\<^sup>* demo_launch s" "ResultOut x \<in> set (outputs s)"
    by (rule demo_halts) (rule that)
  from runtime_result_centralized [OF demo_ready s] s show ?thesis by blast
qed

text \<open>C3: The running system finishes the round: with mailboxes of any positive size, a run that cannot go on has
nothing left to do, every actor waits in front of an empty mailbox, and the result is in the driver's channel if
every worker can load its partition; there is no deadlock, although full mailboxes block senders inside their handlers.\<close>

theorem runtime_round_completes:
  assumes "run_ready g pick paths" and "(driven_step (fed_programs g pick))\<^sup>*\<^sup>* (fed_launch g N paths) s"
    and "0 < N" and "\<nexists>t. driven_step (fed_programs g pick) s t"
  shows "(\<forall>h. todo s h = []) \<and> (\<forall>c k. cell_at s c = Some k \<longrightarrow> runner k = Receiving \<and> ch (mailbox k) = []) \<and>
    (length paths = fc_workers g \<and> (\<forall>i<fc_workers g. \<exists>recs. Load (fc_files g i) (paths ! i) = Inr recs) \<longrightarrow>
     (\<exists>x. ResultOut x \<in> set (outputs s)))"
  by (rule run_completes [OF assms])

theorem runtime_round_completes_witness:
  "\<exists>s x. demo_steps\<^sup>*\<^sup>* demo_launch s \<and> (\<forall>h. todo s h = []) \<and> ResultOut x \<in> set (outputs s)"
proof -
  obtain s where s: "demo_steps\<^sup>*\<^sup>* demo_launch s" "\<nexists>t. demo_steps s t" by (rule demo_halts) (rule that)
  have "length [''w'', ''w''] = fc_workers demo_config \<and>
      (\<forall>i<fc_workers demo_config. \<exists>recs. Load (fc_files demo_config i) ([''w'', ''w''] ! i) = Inr recs)"
    using demo_config_facts(3,4) by (metis One_nat_def Suc_1 length_Cons list.size(3))
  then show ?thesis using s(1) runtime_round_completes [OF demo_ready s(1) _ s(2)] by auto
qed

text \<open>C14: The round on the running system ends: every run of the driver, the actors and their mailboxes takes at most
26 + 25n steps, with n workers, each step one select, critical section, hand-over or handler entry or exit.\<close>

theorem runtime_round_ends:
  assumes "run_ready g pick paths" and "(driven_step (fed_programs g pick) ^^ m) (fed_launch g N paths) s"
  shows "m \<le> 26 + 25 * fc_workers g"
proof -
  have "2 * (fc_workers g + 2) + 2 + start_weight (fc_workers g) = 26 + 25 * fc_workers g"
    by (simp add: start_weight_def update_weight_def request_weight_def)
  then show ?thesis using run_shows_run [OF assms] by fastforce
qed

theorem runtime_round_ends_witness:
  "\<exists>m s x. (demo_steps ^^ m) demo_launch s \<and> ResultOut x \<in> set (outputs s) \<and> m \<le> 76"
proof -
  obtain s x where s: "demo_steps\<^sup>*\<^sup>* demo_launch s" "ResultOut x \<in> set (outputs s)" by (rule demo_halts) (rule that)
  then obtain m where m: "(demo_steps ^^ m) demo_launch s" using rtranclp_imp_relpowp by metis
  have "m \<le> 76" using runtime_round_ends [OF demo_ready m] by (simp add: demo_config_facts(3))
  then show ?thesis using m s(2) by blast
qed

end
