(* ===== verification/Partitions.thy ===== *)
theory Partitions
  imports Dataset GoNet
begin

text \<open>
  \<^verbatim>\<open>writePartitions\<close> of \<^verbatim>\<open>cmd/cluster-node/main.go\<close> and
  \<^verbatim>\<open>cmd/fl-demo/main.go\<close> (the same function in both): the training set is split into
  shards, one file each, in a directory that \<^verbatim>\<open>os.MkdirAll\<close> creates, the parameter
  \<open>mkdir\<close>.
\<close>

section \<open>Writing\<close>

datatype write_error = CreateDir string | SavePartition nat data_error

definition partition_file :: "nat \<Rightarrow> string" where
  "partition_file i = ''worker-'' @ itoa i @ ''.tsv''"

text \<open>The loop over the shards from index \<open>i\<close> on, with the slice of paths so far.\<close>

fun write_shards ::
    "string \<Rightarrow> nat \<Rightarrow> data_record list list \<Rightarrow> string list \<Rightarrow> filesystem \<Rightarrow> (write_error + string list) \<times> filesystem" where
  "write_shards dir i [] paths fs = (Inr paths, fs)"
| "write_shards dir i (shard # shards) paths fs =
     (let path = path_join dir (partition_file i) in
      case Save fs shard path of
        (Some err, fs') \<Rightarrow> (Inl (SavePartition i err), fs')
      | (None, fs') \<Rightarrow> write_shards dir (Suc i) shards (paths[i := path]) fs')"

text \<open>None: \<^verbatim>\<open>make([]string, n)\<close> panics on a negative length.\<close>

definition writePartitions ::
    "(string \<Rightarrow> filesystem \<Rightarrow> filesystem option) \<Rightarrow> data_record list \<Rightarrow> int \<Rightarrow> string \<Rightarrow> filesystem \<Rightarrow>
     ((write_error + string list) \<times> filesystem) option" where
  "writePartitions mkdir train n dir fs =
     (case mkdir dir fs of
        None \<Rightarrow> Some (Inl (CreateDir dir), fs)
      | Some fs' \<Rightarrow>
          (case Partition train n of
             None \<Rightarrow> None
           | Some shards \<Rightarrow>
               if n < 0 then None else Some (write_shards dir 0 shards (replicate (nat n) '''') fs')))"

section \<open>Paths\<close>

lemma partition_file_plain [simp]: "plain_name (partition_file i)"
  using itoa_digits [of "CHR ''/''" i] by (auto simp: partition_file_def plain_name_def)

lemma partition_file_inj: "partition_file i = partition_file j \<Longrightarrow> i = j"
  by (auto simp: partition_file_def dest: itoa_inj)

definition partition_path :: "string \<Rightarrow> nat \<Rightarrow> string" where
  "partition_path dir i = path_join dir (partition_file i)"

lemma partition_path_inj: "partition_path dir i = partition_path dir j \<Longrightarrow> i = j"
  by (auto simp: partition_path_def dest!: path_join_inj [rotated 2] partition_file_inj)

section \<open>What is on disk afterwards\<close>

text \<open>A save that succeeds leaves other paths alone.\<close>

lemma Save_other: "fst (Save fs rs path) = None \<Longrightarrow> path' \<noteq> path \<Longrightarrow> files (snd (Save fs rs path)) path' = files fs path'"
  by (auto simp: Save_def Let_def split: option.splits if_splits)

lemma Load_files: "files fs path = files fs' path \<Longrightarrow> Load fs path = Load fs' path"
  by (simp add: Load_def)

lemma write_shards_ok:
  assumes "write_shards dir i shards paths fs = (Inr paths', fs')" and "list_all (list_all savable) shards"
    and "i + length shards = length paths" and "map (partition_path dir) [0..<i] = take i paths"
  shows "paths' = map (partition_path dir) [0..<length paths] \<and>
    (\<forall>j < length shards. Load fs' (partition_path dir (i + j)) = Inr (shards ! j)) \<and>
    (\<forall>p. p \<notin> partition_path dir ` {i..<length paths} \<longrightarrow> files fs' p = files fs p)"
  using assms
proof (induction shards arbitrary: i paths fs)
  case Nil
  then show ?case by simp
next
  case (Cons shard shards)
  let ?path = "partition_path dir i"
  have saved: "fst (Save fs shard ?path) = None"
    and rest: "write_shards dir (Suc i) shards (paths[i := ?path]) (snd (Save fs shard ?path)) = (Inr paths', fs')"
    using Cons.prems(1) by (cases "Save fs shard ?path"; auto simp: partition_path_def Let_def split: option.splits)+
  have pre: "map (partition_path dir) [0..<Suc i] = take (Suc i) (paths[i := ?path])"
    using Cons.prems(3,4) by (simp add: take_Suc_conv_app_nth)
  have IH: "paths' = map (partition_path dir) [0..<length paths]"
    "\<forall>j < length shards. Load fs' (partition_path dir (Suc i + j)) = Inr (shards ! j)"
    "\<forall>p. p \<notin> partition_path dir ` {Suc i..<length paths} \<longrightarrow> files fs' p = files (snd (Save fs shard ?path)) p"
    using Cons.IH [OF rest _ _ pre] Cons.prems(2,3) by simp_all
  have "?path \<notin> partition_path dir ` {Suc i..<length paths}"
    by (auto dest: partition_path_inj)
  then have "files fs' ?path = files (snd (Save fs shard ?path)) ?path" using IH(3) by blast
  then have "Load fs' ?path = Inr shard"
    using Load_files Load_save_bytes [of shard] Save_ok [OF saved] Cons.prems(2) by simp
  then have "\<forall>j < length (shard # shards). Load fs' (partition_path dir (i + j)) = Inr ((shard # shards) ! j)"
    using IH(2) by (auto simp: nth_Cons split: nat.split)
  moreover have "files fs' p = files fs p" if "p \<notin> partition_path dir ` {i..<length paths}" for p
  proof -
    have "i \<in> {i..<length paths}" using Cons.prems(3) by simp
    then have "p \<noteq> ?path" using that by blast
    moreover have "p \<notin> partition_path dir ` {Suc i..<length paths}" using that by auto
    ultimately show ?thesis using IH(3) Save_other [OF saved] by simp
  qed
  ultimately show ?case using IH(1) by blast
qed


lemma Partition_length:
  assumes "Partition train n = Some shards"
  shows "length shards = nat n"
proof (cases "0 < n")
  case True
  obtain shards' where "Partition train n = Some shards'"
    "map length shards' = map (\<lambda>j. if j < length train mod nat n then length train div nat n + 1 else length train div nat n) [0..<nat n]"
    using Partition_spec [OF True, of train] by blast
  then show ?thesis using assms by (metis diff_zero length_map length_upt option.inject)
next
  case False
  then show ?thesis using assms by (simp add: Partition_def)
qed

lemma list_all_concat: "list_all P (concat xss) = list_all (list_all P) xss"
  by (induction xss) auto

lemma Partition_concat: "0 < n \<Longrightarrow> Partition train n = Some shards \<Longrightarrow> concat shards = train"
  using Partition_spec [of n train] by auto

lemma writePartitions_ok:
  assumes "writePartitions mkdir train n dir fs = Some (Inr paths, fs')" and "0 < n" and "list_all savable train"
  obtains shards where "Partition train n = Some shards" and "paths = map (partition_path dir) [0..<nat n]"
    and "map (Load fs') paths = map Inr shards"
proof -
  from assms(1,2) obtain fs1 shards where shards: "Partition train n = Some shards"
    and w: "write_shards dir 0 shards (replicate (nat n) '''') fs1 = (Inr paths, fs')"
    by (auto simp: writePartitions_def split: option.splits)
  have n: "length shards = nat n" by (rule Partition_length [OF shards])
  have "list_all (list_all savable) shards"
    using assms(3) Partition_concat [OF assms(2) shards] by (metis list_all_concat)
  from write_shards_ok [OF w this] n
  have paths: "paths = map (partition_path dir) [0..<nat n]"
    and load: "\<forall>j < nat n. Load fs' (partition_path dir j) = Inr (shards ! j)" by simp_all
  have "map (Load fs') paths = map Inr shards"
    using load n by (intro nth_equalityI) (simp_all add: paths)
  with shards paths show thesis by (rule that)
qed

lemma writePartitions_negative:
  "mkdir dir fs = Some fs1 \<Longrightarrow> n < 0 \<Longrightarrow> writePartitions mkdir train n dir fs = None"
  by (simp add: writePartitions_def Partition_def)

section \<open>Properties\<close>

text \<open>C28: The partitions on disk are the training set: when writePartitions reports success for at
least one worker, and every record fits the line format (\<open>savable\<close>: no tab or line break in the label, no line
break or final carriage return in the text, a line within the scanner's limit), the paths are as many as the workers
and pairwise distinct (so no shard overwrites another, whatever the directory), loading the i-th path gives the i-th
shard, and the shards together are the training set in order.\<close>

theorem written_partitions_load:
  assumes "writePartitions mkdir train n dir fs = Some (Inr paths, fs')" and "0 < n" and "list_all savable train"
  shows "\<exists>shards. Partition train n = Some shards \<and> length paths = nat n \<and> distinct paths \<and>
    map (Load fs') paths = map Inr shards \<and> concat shards = train"
proof -
  obtain shards where shards: "Partition train n = Some shards" "paths = map (partition_path dir) [0..<nat n]"
    "map (Load fs') paths = map Inr shards"
    using writePartitions_ok [OF assms] by blast
  moreover have "distinct (map (partition_path dir) [0..<nat n])"
    by (auto simp: distinct_map inj_on_def dest: partition_path_inj)
  ultimately show ?thesis using Partition_concat [OF assms(2) shards(1)] by auto
qed

theorem written_partitions_load_witness:
  "\<exists>shards. Partition sample_records 2 = Some shards \<and> length [''data/worker-0.tsv'', ''data/worker-1.tsv''] = nat 2 \<and>
    distinct [''data/worker-0.tsv'', ''data/worker-1.tsv''] \<and>
    map (Load (snd (Save (snd (Save sample_fs [sample_records ! 0] ''data/worker-0.tsv'')) [sample_records ! 1] ''data/worker-1.tsv'')))
      [''data/worker-0.tsv'', ''data/worker-1.tsv''] = map Inr shards \<and> concat shards = sample_records"
proof (rule written_partitions_load [where mkdir = "\<lambda>_ fs. Some fs" and dir = "''data//''" and fs = sample_fs])
  have paths: "path_join ''data//'' (partition_file 0) = ''data/worker-0.tsv''" "path_join ''data//'' (partition_file (Suc 0)) = ''data/worker-1.tsv''"
    by code_simp+
  have "Partition sample_records 2 = Some [[sample_records ! 0], [sample_records ! 1]]"
    by (simp add: sample_records_def Partition_def partition_from.simps go_slice_def)
  then show "writePartitions (\<lambda>_ fs. Some fs) sample_records 2 ''data//'' sample_fs =
      Some (Inr [''data/worker-0.tsv'', ''data/worker-1.tsv''],
        snd (Save (snd (Save sample_fs [sample_records ! 0] ''data/worker-0.tsv'')) [sample_records ! 1] ''data/worker-1.tsv''))"
    by (simp add: writePartitions_def paths Save_def sample_fs_def numeral_eq_Suc Let_def)
qed (simp_all add: sample_savable)

end
