(* ===== verification/Verdict.thy ===== *)
theory Verdict
  imports FedLive Partitions
begin

text \<open>
  What both programs do around a federated round: the central baseline, the accuracy ratio and its
  verdict (\<^verbatim>\<open>printResult\<close> of \<^verbatim>\<open>cmd/cluster-node/main.go\<close>, the end of
  \<^verbatim>\<open>main\<close> in \<^verbatim>\<open>cmd/fl-demo/main.go\<close>), and the facts that
  connect a round over the written partitions with the baseline.
\<close>

section \<open>Baseline and verdict\<close>

definition baseline :: "fpu \<Rightarrow> runtime \<Rightarrow> data_record list \<Rightarrow> data_record list \<Rightarrow> metrics" where
  "baseline fp rt train test =
     (let model = Aggregate fp (sub_run rt 0) [CountLocal train] in Evaluate fp (sub_run rt 1) model test)"

definition relative_accuracy :: "fpu \<Rightarrow> metrics \<Rightarrow> metrics \<Rightarrow> float64" where
  "relative_accuracy fp federated central = f_div fp (Accuracy federated) (Accuracy central)"

definition passes :: "fpu \<Rightarrow> float64 \<Rightarrow> bool" where
  "passes fp relative \<longleftrightarrow> f_le (Fin (fl fp (95 / 100))) relative"

section \<open>The same model gives the same metrics\<close>

text \<open>Every test text has a class that beats the others.\<close>

definition clear_cut :: "fpu \<Rightarrow> global_model \<Rightarrow> data_record list \<Rightarrow> bool" where
  "clear_cut fp model test \<longleftrightarrow> (\<forall>r\<in>set test. \<exists>c. beats_all fp model (Text r) c)"

lemma Evaluate_clear_cut:
  assumes "clear_cut fp model test" and "map_runtime rt" and "map_runtime rt'"
  shows "Evaluate fp rt model test = Evaluate fp rt' model test"
proof -
  have same: "Predict fp (rt p) model (Text r) = Predict fp (rt' p') model (Text r)" if "r \<in> set test" for r p p'
    using assms that by (auto simp: clear_cut_def Predict_beats_all map_runtime_order dest!: bspec)
  have "confusion_of fp rt model test = confusion_of fp rt' model test"
    unfolding confusion_of_def
  proof (rule fold_cong)
    fix x assume x: "x \<in> set (enumerate 0 test)"
    obtain i r where ir: "x = (i, r)" by (metis surj_pair)
    then have "r \<in> set test" using x by (auto simp: in_set_enumerate_eq)
    with ir show "(\<lambda>(i, r). tally (Label r = LabelSpam) (Predict fp (rt [i]) model (Text r) = LabelSpam)) x =
        (\<lambda>(i, r). tally (Label r = LabelSpam) (Predict fp (rt' [i]) model (Text r) = LabelSpam)) x"
      using same [of r "[i]" "[i]"] by simp
  qed simp_all
  then show ?thesis by (simp add: Evaluate_def)
qed

lemma equal_accuracy_verdict:
  assumes "ieee_rounding fp" and "int (length test) \<le> 2 ^ 53" and "m = Evaluate fp rt model test"
  shows "passes fp (relative_accuracy fp m m) \<longleftrightarrow> 0 < correct fp rt model test"
proof -
  let ?k = "correct fp rt model test" and ?n = "length test"
  have acc: "Accuracy m = Fin (fl fp (real ?k / real ?n))" using Evaluate_parts(1) [OF assms(1,2)] assms(3) by simp
  have one: "fl fp 1 = 1" using fl_int [OF assms(1), of 1] by simp
  have le: "?k \<le> ?n" unfolding correct_def by (rule order.trans [OF length_filter_le]) simp
  have "fl fp (95 / 100) \<le> fl fp 1" by (rule fl_mono [OF assms(1)]) simp
  then have pass: "fl fp (95 / 100) \<le> 1" using one by simp
  show ?thesis
  proof (cases "0 < ?k")
    case True
    have "0 < ?n" using True le by linarith
    moreover have "(1::real) \<le> real ?k" "real ?n \<le> 2 ^ 53" using True assms(2) by simp_all
    ultimately have "1 / 2 ^ 53 \<le> real ?k / real ?n" by (intro frac_le) simp_all
    then have "fl fp (real ?k / real ?n) \<noteq> 0" using fl_pos [OF assms(1), of 53 "real ?k / real ?n"] by simp
    then show ?thesis using True acc pass one by (auto simp: passes_def relative_accuracy_def f_le_def)
  next
    case False
    then have "fl fp (real ?k / real ?n) = 0" using fl_int [OF assms(1), of 0] by simp
    then show ?thesis using False acc by (simp add: passes_def relative_accuracy_def f_le_def)
  qed
qed


text \<open>The split takes its parts from the records.\<close>

lemma SplitTrainTest_parts:
  assumes "rng_in_range rng" and "SplitTrainTest fp rng records ratio seed = Some (train, test)"
  shows "set train \<subseteq> set records" and "length test \<le> length records"
proof -
  define shuffled where "shuffled = shuffle_from (rng seed (length records)) (length records - 1) records"
  have set: "set shuffled = set records" using mset_shuffle_all [OF assms(1)] unfolding shuffled_def by (metis set_mset_mset)
  obtain k where k: "train = take k shuffled" "test = drop k shuffled"
    using assms(2) by (auto simp: SplitTrainTest_eq shuffled_def Let_def split: if_splits)
  show "set train \<subseteq> set records" using k(1) set set_take_subset [of k shuffled] by simp
  show "length test \<le> length records" using k(2) by (simp add: shuffled_def)
qed

section \<open>A round over the written partitions\<close>

text \<open>The network both programs set up: one worker per partition, one round, and workers that all read the
files the driver wrote.\<close>

definition round_config :: "fpu \<Rightarrow> (nat \<Rightarrow> string) \<Rightarrow> filesystem \<Rightarrow> data_record list \<Rightarrow> string list \<Rightarrow> fed_config" where
  "round_config fp wid fs test paths =
     \<lparr>fc_workers = length paths, fc_fpu = fp, fc_files = (\<lambda>_. fs), fc_worker_id = wid, fc_test = test, fc_starts = [paths]\<rparr>"

text \<open>A metric record the driver can receive: the first result of some run of the network.\<close>

definition round_outcome :: "fpu \<Rightarrow> (nat \<Rightarrow> string) \<Rightarrow> filesystem \<Rightarrow> data_record list \<Rightarrow> string list \<Rightarrow> metrics \<Rightarrow> bool" where
  "round_outcome fp wid fs test paths m \<longleftrightarrow>
     (\<exists>s x. fed_reachable (round_config fp wid fs test paths) s \<and> results s \<noteq> [] \<and> x = hd (results s) \<and> m = rr_Metrics x)"

lemma round_over_partitions:
  assumes "writePartitions mkdir train n dir fs = Some (Inr paths, fs')" and "0 < n" and "n \<le> int64_max"
    and "list_all savable train" and "round_outcome fp wid fs' test paths m"
  shows "\<exists>rt. map_runtime rt \<and> m = Evaluate fp rt (Aggregate fp sorted_runtime [CountLocal train]) test"
proof -
  let ?g = "round_config fp wid fs' test paths"
  obtain shards where shards: "Partition train n = Some shards" "paths = map (partition_path dir) [0..<nat n]"
    "map (Load fs') paths = map Inr shards"
    using writePartitions_ok [OF assms(1,2,4)] by blast
  obtain s x where s: "fed_reachable ?g s" "x \<in> set (results s)" "m = rr_Metrics x"
    using assms(5) unfolding round_outcome_def by (metis hd_in_set)
  have g: "fc_workers ?g = nat n" "fed_rounds ?g = [paths]" "fc_fpu ?g = fp" "fc_test ?g = test" "fc_files ?g i = fs'" for i
    using shards(2) by (simp_all add: round_config_def fed_rounds_def)
  have "fed_bound ?g" using assms(2,3) g(1) by (simp add: fed_bound_def round_config_def int64_max_def)
  from result_centralized [OF this s(1,2)] obtain j recs rt where
    "1 \<le> j" "j \<le> 1" "length recs = nat n" "map (\<lambda>i. Load fs' ([paths] ! (j - 1) ! i)) [0..<nat n] = map Inr recs"
    and rt: "map_runtime rt" "m = Evaluate fp rt (Aggregate fp sorted_runtime [CountLocal (concat recs)]) test"
    using s(3) by (auto simp: g)
  then have "map Inr recs = map (\<lambda>i. Load fs' (paths ! i)) [0..<nat n]" by simp
  also have "\<dots> = map (Load fs') (map ((!) paths) [0..<length paths])" using shards(2) by simp
  also have "\<dots> = map Inr shards" by (simp only: map_nth shards(3))
  finally have "recs = shards" by (simp add: inj_map_eq_map)
  then have "concat recs = train" using Partition_concat [OF assms(2) shards(1)] by simp
  then show ?thesis using rt by blast
qed

lemma baseline_eq:
  "map_runtime rt \<Longrightarrow> baseline fp rt train test = Evaluate fp (sub_run rt 1) (Aggregate fp sorted_runtime [CountLocal train]) test"
  unfolding baseline_def Let_def
  using Aggregate_runtime [of "sub_run rt 0" sorted_runtime "[CountLocal train]" "[CountLocal train]" fp]
  by (simp add: map_runtime_sub)

lemma round_matches_baseline:
  assumes "writePartitions mkdir train n dir fs = Some (Inr paths, fs')" and "0 < n" and "n \<le> int64_max"
    and "list_all savable train" and "round_outcome fp wid fs' test paths m"
    and "map_runtime rt" and "clear_cut fp (Aggregate fp sorted_runtime [CountLocal train]) test"
  shows "m = baseline fp rt train test"
proof -
  obtain rt' where "map_runtime rt'" "m = Evaluate fp rt' (Aggregate fp sorted_runtime [CountLocal train]) test"
    using round_over_partitions [OF assms(1-5)] by blast
  then show ?thesis using Evaluate_clear_cut [OF assms(7), of rt' "sub_run rt 1"] assms(6)
    by (simp add: baseline_eq map_runtime_sub)
qed


text \<open>A data file and its split, for the examples.\<close>

definition demo_fs :: filesystem where
  "demo_fs = snd (Save sample_fs sample_records ''d'')"

lemma demo_load: "Load demo_fs ''d'' = Inr sample_records" "files demo_fs ''d'' = Some \<lparr>bytes = save_bytes sample_records, read_fails = False\<rparr>"
proof -
  show f: "files demo_fs ''d'' = Some \<lparr>bytes = save_bytes sample_records, read_fails = False\<rparr>"
    by (simp add: demo_fs_def Save_def sample_fs_def)
  show "Load demo_fs ''d'' = Inr sample_records" by (rule Load_save_bytes [OF sample_savable f])
qed

lemma demo_split: "SplitTrainTest exact_fpu (\<lambda>_ _ i. i) sample_records (Fin (1 / 2)) 42 = Some ([sample_records ! 0], [sample_records ! 1])"
proof -
  have "split_point exact_fpu 2 (Fin (1 / 2)) = 1" using split_point_bounds [of exact_fpu 2 "1 / 2"] by simp
  then show ?thesis by (simp add: SplitTrainTest_eq sample_records_def swap_def Let_def numeral_2_eq_2)
qed

end
