(* ===== verification/FLDemo.thy ===== *)
theory FLDemo
  imports Verdict
begin

text \<open>
  The program \<^verbatim>\<open>cmd/fl-demo/main.go\<close>: it spawns the three kinds of actors in one
  actor system, runs one round over the partitions it has written and compares the result with the
  centrally trained model.  What the spawned actors do, up to the result or the timeout, is the network
  of \<^theory_text>\<open>FedRound\<close>; the driver waits for it (the parameter \<open>await\<close>), and
  \<^theory_text>\<open>DemoRuntime\<close> gives it as the runs of the actors.
\<close>

section \<open>One round\<close>

datatype demo_error =
    SpawnCoordinator spawn_error
  | SpawnAggregator spawn_error
  | SpawnWorker string spawn_error
  | StartTrainingError mail_error
  | TimedOut

text \<open>What the set-up leaves: the actors with the PIDs they hold.\<close>

record demo_wiring =
  dw_coordinator :: "pid coordinator_actor"
  dw_aggregator :: "pid aggregator_actor"
  dw_workers :: "pid worker_actor list"
  dw_coordinatorPID :: pid

text \<open>A spawn whose error ends the function, as \<^verbatim>\<open>if err != nil\<close> does.\<close>

definition spawn_then ::
    "(spawn_error \<Rightarrow> demo_error) \<Rightarrow> string \<Rightarrow> (pid \<Rightarrow> actor_system \<Rightarrow> actor_system \<times> (demo_error + 'r) outcome) \<Rightarrow>
     actor_system \<Rightarrow> actor_system \<times> (demo_error + 'r) outcome" where
  "spawn_then fail aid k sys =
     (case Spawn aid sys of
        (sys', Return (Inl e)) \<Rightarrow> (sys', Return (Inl (fail e)))
      | (sys', Return (Inr pid)) \<Rightarrow> k pid sys'
      | (sys', Panic) \<Rightarrow> (sys', Panic)
      | (sys', Blocked) \<Rightarrow> (sys', Blocked))"

definition worker_name :: "nat \<Rightarrow> string" where
  "worker_name i = ''worker-'' @ itoa i"

text \<open>The loop that spawns \<open>n\<close> more workers, from index \<open>i\<close> on.\<close>

fun spawn_workers ::
    "pid \<Rightarrow> nat \<Rightarrow> nat \<Rightarrow> pid worker_actor list \<times> pid list \<Rightarrow> actor_system \<Rightarrow>
     actor_system \<times> (demo_error + pid worker_actor list \<times> pid list) outcome" where
  "spawn_workers aggregatorPID i 0 acc sys = (sys, Return (Inr acc))"
| "spawn_workers aggregatorPID i (Suc n) acc sys =
     (let worker = \<lparr>WorkerID = worker_name i, w_Aggregator = aggregatorPID\<rparr> in
      spawn_then (SpawnWorker (WorkerID worker)) (WorkerID worker)
        (\<lambda>pid. spawn_workers aggregatorPID (Suc i) n (fst acc @ [worker], snd acc @ [pid])) sys)"

text \<open>
  The coordinator is spawned without workers and aggregator; both fields are set before the first
  message is sent to it.
\<close>

definition demo_setup ::
    "nat \<Rightarrow> data_record list \<Rightarrow> actor_system \<Rightarrow> actor_system \<times> (demo_error + demo_wiring) outcome" where
  "demo_setup n test =
     spawn_then SpawnCoordinator ''coordinator'' (\<lambda>coordinatorPID.
       spawn_then SpawnAggregator ''aggregator'' (\<lambda>aggregatorPID sys.
         (case spawn_workers aggregatorPID 0 n ([], []) sys of
            (sys', Return (Inr (workers, workerPIDs))) \<Rightarrow>
              (sys', Return (Inr \<lparr>
                 dw_coordinator = \<lparr>CoordinatorID = ''coordinator'', Workers = workerPIDs, c_Aggregator = aggregatorPID,
                   TestSet = test, has_results = True, roundID = 0\<rparr>,
                 dw_aggregator = NewAggregatorActor ''aggregator'' coordinatorPID,
                 dw_workers = workers, dw_coordinatorPID = coordinatorPID\<rparr>))
          | (sys', Return (Inl e)) \<Rightarrow> (sys', Return (Inl e))
          | (sys', Panic) \<Rightarrow> (sys', Panic)
          | (sys', Blocked) \<Rightarrow> (sys', Blocked))))"

text \<open>
  \<open>await\<close> is the telling of StartTraining and the wait for the result; the deferred Shutdown
  runs on every way out.
\<close>

definition runFederatedRound ::
    "string order \<Rightarrow> (demo_wiring \<Rightarrow> string list \<Rightarrow> demo_error + round_result) \<Rightarrow> string list \<Rightarrow> data_record list \<Rightarrow>
     actor_system \<times> (demo_error + metrics) outcome" where
  "runFederatedRound ord await partitionPaths test =
     (let (sys, r) = demo_setup (length partitionPaths) test NewActorSystem;
          res = (case r of
              Return (Inr w) \<Rightarrow> Return (case await w partitionPaths of Inl e \<Rightarrow> Inl e | Inr x \<Rightarrow> Inr (rr_Metrics x))
            | Return (Inl e) \<Rightarrow> Return (Inl e)
            | Panic \<Rightarrow> Panic
            | Blocked \<Rightarrow> Blocked)
      in (fst (Shutdown ord sys), res))"

section \<open>The program\<close>

record demo_flags =
  flag_data :: string
  flag_partitions_dir :: string
  flag_workers :: int
  flag_train_ratio :: float64
  flag_seed :: int64

datatype demo_line =
    LoadedLine nat string
  | SplitLine nat nat
  | BaselineLine metrics
  | FederatedLine metrics
  | RatioLine float64 string

datatype demo_exit = FatalLoad data_error | FatalPartitions write_error | FatalRound demo_error | Crashed | Hangs | Finished

text \<open>The demo has its own copy of the function that writes the partitions; it is the cluster node's.\<close>

definition demo_writePartitions ::
    "(string \<Rightarrow> filesystem \<Rightarrow> filesystem option) \<Rightarrow> data_record list \<Rightarrow> int \<Rightarrow> string \<Rightarrow> filesystem \<Rightarrow>
     ((write_error + string list) \<times> filesystem) option" where
  "demo_writePartitions mkdir train n dir fs =
     (case mkdir dir fs of
        None \<Rightarrow> Some (Inl (CreateDir dir), fs)
      | Some fs' \<Rightarrow>
          (case Partition train n of
             None \<Rightarrow> None
           | Some shards \<Rightarrow>
               if n < 0 then None else Some (write_shards dir 0 shards (replicate (nat n) '''') fs')))"

lemma demo_writePartitions_eq [simp]: "demo_writePartitions = writePartitions"
  by (simp add: demo_writePartitions_def writePartitions_def fun_eq_iff cong: option.case_cong)

definition demo_main ::
    "fpu \<Rightarrow> rng \<Rightarrow> (string \<Rightarrow> filesystem \<Rightarrow> filesystem option) \<Rightarrow> runtime \<Rightarrow>
     string order \<Rightarrow> (filesystem \<Rightarrow> demo_wiring \<Rightarrow> string list \<Rightarrow> demo_error + round_result) \<Rightarrow>
     demo_flags \<Rightarrow> filesystem \<Rightarrow> demo_line list \<times> demo_exit" where
  "demo_main fp rng mkdir rt ord await opts fs =
     (case Load fs (flag_data opts) of
        Inl err \<Rightarrow> ([], FatalLoad err)
      | Inr records \<Rightarrow>
          (let out = [LoadedLine (length records) (flag_data opts)] in
           case SplitTrainTest fp rng records (flag_train_ratio opts) (flag_seed opts) of
             None \<Rightarrow> (out, Crashed)
           | Some (train, test) \<Rightarrow>
               (let central = baseline fp rt train test;
                    out = out @ [SplitLine (length train) (length test), BaselineLine central] in
                case demo_writePartitions mkdir train (flag_workers opts) (flag_partitions_dir opts) fs of
                  None \<Rightarrow> (out, Crashed)
                | Some (Inl err, _) \<Rightarrow> (out, FatalPartitions err)
                | Some (Inr paths, fs') \<Rightarrow>
                    (case snd (runFederatedRound ord (await fs') paths test) of
                       Return (Inl err) \<Rightarrow> (out, FatalRound err)
                     | Return (Inr m) \<Rightarrow>
                         (let relative = relative_accuracy fp m central;
                              status = (if passes fp relative then ''PASS'' else ''FAIL'')
                          in (out @ [FederatedLine m, RatioLine relative status], Finished))
                     | Panic \<Rightarrow> (out, Crashed)
                     | Blocked \<Rightarrow> (out, Hangs)))))"


section \<open>The set-up is the network\<close>

lemma Spawn_fresh:
  assumes "\<not> locked sys" and "fmlookup (cells sys) aid = None"
  shows "Spawn aid sys =
    (sys\<lparr>heap := heap sys @ [\<lparr>cell_id = aid, cell_size = 128\<rparr>], cells := fmupd aid (length (heap sys)) (cells sys)\<rparr>,
     Return (Inr \<lparr>pid_id = aid, pid_cell = length (heap sys)\<rparr>))"
  using assms by (simp add: Spawn_def SpawnWithMailboxSize_def newActorCell_def newMailbox_def DefaultMailboxSize_def)

lemma sys_inv_Spawn: "sys_inv sys \<Longrightarrow> Spawn aid sys = (sys', r) \<Longrightarrow> sys_inv sys'"
  using sys_inv_spawn [of sys aid DefaultMailboxSize] by (simp add: Spawn_def)

definition demo_worker :: "pid \<Rightarrow> nat \<Rightarrow> pid worker_actor" where
  "demo_worker aggPID i = \<lparr>WorkerID = worker_name i, w_Aggregator = aggPID\<rparr>"

lemma worker_name_inj [simp]: "worker_name i = worker_name j \<longleftrightarrow> i = j"
  by (auto simp: worker_name_def dest: itoa_inj)

text \<open>Nothing can fail: the names are all different.\<close>

lemma spawn_workers_ok:
  assumes "\<not> locked sys" and "sys_inv sys" and "\<forall>j\<ge>i. fmlookup (cells sys) (worker_name j) = None"
  shows "\<exists>sys'. spawn_workers aggPID i n acc sys =
      (sys', Return (Inr (fst acc @ map (demo_worker aggPID) [i..<i + n],
        snd acc @ map (\<lambda>j. \<lparr>pid_id = worker_name j, pid_cell = length (heap sys) + (j - i)\<rparr>) [i..<i + n]))) \<and>
    \<not> locked sys' \<and> sys_inv sys' \<and> length (heap sys') = length (heap sys) + n \<and> stop_calls sys' = stop_calls sys"
  using assms
proof (induction n arbitrary: i acc sys)
  case (Suc n)
  let ?s = "sys\<lparr>heap := heap sys @ [\<lparr>cell_id = worker_name i, cell_size = 128\<rparr>], cells := fmupd (worker_name i) (length (heap sys)) (cells sys)\<rparr>"
  let ?pid = "\<lparr>pid_id = worker_name i, pid_cell = length (heap sys)\<rparr>"
  have sp: "Spawn (worker_name i) sys = (?s, Return (Inr ?pid))"
    using Suc.prems by (intro Spawn_fresh) auto
  have "sys_inv ?s" using sys_inv_Spawn [OF Suc.prems(2) sp] .
  moreover have "\<forall>j\<ge>Suc i. fmlookup (cells ?s) (worker_name j) = None" using Suc.prems(3) by auto
  ultimately obtain sys' where "spawn_workers aggPID (Suc i) n (fst acc @ [demo_worker aggPID i], snd acc @ [?pid]) ?s =
      (sys', Return (Inr ((fst acc @ [demo_worker aggPID i]) @ map (demo_worker aggPID) [Suc i..<Suc i + n],
        (snd acc @ [?pid]) @ map (\<lambda>j. \<lparr>pid_id = worker_name j, pid_cell = length (heap ?s) + (j - Suc i)\<rparr>) [Suc i..<Suc i + n])))"
    and rest: "\<not> locked sys'" "sys_inv sys'" "length (heap sys') = length (heap ?s) + n" "stop_calls sys' = stop_calls ?s"
    using Suc.IH [of ?s "Suc i" "(fst acc @ [demo_worker aggPID i], snd acc @ [?pid])"] Suc.prems(1) by auto
  moreover have "map (\<lambda>j. \<lparr>pid_id = worker_name j, pid_cell = length (heap ?s) + (j - Suc i)\<rparr>) [Suc i..<Suc i + n] =
      map (\<lambda>j. \<lparr>pid_id = worker_name j, pid_cell = length (heap sys) + (j - i)\<rparr>) [Suc i..<i + Suc n]"
    by (intro map_cong) auto
  moreover have "[i..<i + Suc n] = i # [Suc i..<i + Suc n]" by (simp add: upt_conv_Cons)
  ultimately show ?case using rest by (simp add: spawn_then_def sp Let_def demo_worker_def)
qed simp

text \<open>The wiring over the cells 0 (coordinator), 1 (aggregator), 2 and on (workers).\<close>

definition demo_wired :: "nat \<Rightarrow> data_record list \<Rightarrow> demo_wiring" where
  "demo_wired n test =
     (let coordPID = \<lparr>pid_id = ''coordinator'', pid_cell = 0\<rparr>; aggPID = \<lparr>pid_id = ''aggregator'', pid_cell = 1\<rparr> in
      \<lparr>dw_coordinator = \<lparr>CoordinatorID = ''coordinator'', Workers = map (\<lambda>i. \<lparr>pid_id = worker_name i, pid_cell = i + 2\<rparr>) [0..<n],
         c_Aggregator = aggPID, TestSet = test, has_results = True, roundID = 0\<rparr>,
       dw_aggregator = NewAggregatorActor ''aggregator'' coordPID,
       dw_workers = map (demo_worker aggPID) [0..<n], dw_coordinatorPID = coordPID\<rparr>)"

lemma demo_setup_ok:
  "\<exists>sys. demo_setup n test NewActorSystem = (sys, Return (Inr (demo_wired n test))) \<and>
     \<not> locked sys \<and> sys_inv sys \<and> length (heap sys) = n + 2 \<and> stop_calls sys = []"
proof -
  let ?c = "\<lparr>pid_id = ''coordinator'', pid_cell = 0\<rparr>" and ?a = "\<lparr>pid_id = ''aggregator'', pid_cell = 1\<rparr>"
  let ?s1 = "NewActorSystem\<lparr>heap := [\<lparr>cell_id = ''coordinator'', cell_size = 128\<rparr>], cells := fmupd ''coordinator'' 0 fmempty\<rparr>"
  let ?s2 = "?s1\<lparr>heap := heap ?s1 @ [\<lparr>cell_id = ''aggregator'', cell_size = 128\<rparr>], cells := fmupd ''aggregator'' 1 (cells ?s1)\<rparr>"
  have s1: "Spawn ''coordinator'' NewActorSystem = (?s1, Return (Inr ?c))"
    by (subst Spawn_fresh) (simp_all add: NewActorSystem_def)
  have s2: "Spawn ''aggregator'' ?s1 = (?s2, Return (Inr ?a))"
    by (subst Spawn_fresh) (simp_all add: NewActorSystem_def)
  have inv: "sys_inv ?s2"
    using sys_inv_Spawn [OF sys_inv_Spawn [OF _ s1] s2] by (simp add: sys_inv_def NewActorSystem_def)
  have names: "fmlookup (cells ?s2) (worker_name j) = None" for j by (auto simp: worker_name_def)
  obtain sys where "spawn_workers ?a 0 n ([], []) ?s2 = (sys, Return (Inr (map (demo_worker ?a) [0..<n],
        map (\<lambda>j. \<lparr>pid_id = worker_name j, pid_cell = j + 2\<rparr>) [0..<n])))"
    "\<not> locked sys" "sys_inv sys" "length (heap sys) = n + 2" "stop_calls sys = []"
    using spawn_workers_ok [of ?s2 0 ?a n "([], [])"] inv names by (auto simp: NewActorSystem_def add.commute)
  then show ?thesis
    by (simp add: demo_setup_def spawn_then_def s1 s2 demo_wired_def Let_def)
qed


text \<open>The PIDs of the set-up as nodes of the network.\<close>

fun node_of :: "pid \<Rightarrow> node" where
  "node_of p = (case pid_cell p of 0 \<Rightarrow> Coord | Suc c \<Rightarrow> (case c of 0 \<Rightarrow> Agg | Suc i \<Rightarrow> Work i))"

definition coordinator_at :: "('r \<Rightarrow> 's) \<Rightarrow> 'r coordinator_actor \<Rightarrow> 's coordinator_actor" where
  "coordinator_at f c =
     \<lparr>CoordinatorID = CoordinatorID c, Workers = map f (Workers c), c_Aggregator = f (c_Aggregator c),
      TestSet = TestSet c, has_results = has_results c, roundID = roundID c\<rparr>"

definition aggregator_at :: "('r \<Rightarrow> 's) \<Rightarrow> 'r aggregator_actor \<Rightarrow> 's aggregator_actor" where
  "aggregator_at f a = \<lparr>AggregatorID = AggregatorID a, a_Coordinator = f (a_Coordinator a), updates = updates a, expected = expected a\<rparr>"

definition worker_at :: "('r \<Rightarrow> 's) \<Rightarrow> 'r worker_actor \<Rightarrow> 's worker_actor" where
  "worker_at f w = \<lparr>WorkerID = WorkerID w, w_Aggregator = f (w_Aggregator w)\<rparr>"

lemma runFederatedRound_wired:
  assumes "map_order ord"
  shows "\<exists>sys. runFederatedRound ord await paths test =
      (sys, Return (case await (demo_wired (length paths) test) paths of Inl e \<Rightarrow> Inl e | Inr x \<Rightarrow> Inr (rr_Metrics x))) \<and>
    cells sys = fmempty \<and> mset (stop_calls sys) = mset [0..<length paths + 2]"
proof -
  obtain sys where sys: "demo_setup (length paths) test NewActorSystem = (sys, Return (Inr (demo_wired (length paths) test)))"
    "\<not> locked sys" "sys_inv sys" "length (heap sys) = length paths + 2"
    using demo_setup_ok by blast
  let ?d = "fst (Shutdown ord sys)"
  have inv: "sys_inv ?d" using sys_inv_shutdown [OF sys(3) assms] .
  have cells: "cells ?d = fmempty" and heap: "length (heap ?d) = length paths + 2"
    using sys(2,4) by (simp_all add: Shutdown_def Let_def)
  have "set (stop_calls ?d) = {..<length paths + 2}" "distinct (stop_calls ?d)"
    using inv cells heap by (simp_all add: sys_inv_def)
  then have "set (stop_calls ?d) = set [0..<length paths + 2]" by (simp only: set_upt lessThan_atLeast0)
  then have "mset (stop_calls ?d) = mset [0..<length paths + 2]"
    using set_eq_iff_mset_eq_distinct [OF \<open>distinct (stop_calls ?d)\<close> distinct_upt] by blast
  then show ?thesis using cells sys(1) by (simp add: runFederatedRound_def)
qed

section \<open>Properties\<close>

text \<open>C34: The demo wires the network that the federated round theorems are about: the set-up never fails (the
actor ids are all different), coordinator, aggregator and workers refer to each other exactly as in the
initial state of the network, and when the function returns every actor has been stopped once.\<close>

theorem demo_wires_network:
  assumes "map_order ord"
  shows "\<exists>sys w. runFederatedRound ord await paths test =
      (sys, Return (case await w paths of Inl e \<Rightarrow> Inl e | Inr x \<Rightarrow> Inr (rr_Metrics x))) \<and>
    cells sys = fmempty \<and> mset (stop_calls sys) = mset [0..<length paths + 2] \<and>
    coordinator_at node_of (dw_coordinator w) = coord (fed_start (round_config fp worker_name fs test paths)) \<and>
    aggregator_at node_of (dw_aggregator w) = agg (fed_start (round_config fp worker_name fs test paths)) \<and>
    map (worker_at node_of) (dw_workers w) = map (fed_worker (round_config fp worker_name fs test paths)) [0..<length paths]"
proof -
  let ?w = "demo_wired (length paths) test" and ?g = "round_config fp worker_name fs test paths"
  have "coordinator_at node_of (dw_coordinator ?w) = coord (fed_start ?g)"
    by (simp add: coordinator_at_def demo_wired_def Let_def fed_start_def fed_coordinator_def round_config_def)
  moreover have "aggregator_at node_of (dw_aggregator ?w) = agg (fed_start ?g)"
    by (simp add: aggregator_at_def demo_wired_def Let_def fed_start_def NewAggregatorActor_def)
  moreover have "map (worker_at node_of) (dw_workers ?w) = map (fed_worker ?g) [0..<length paths]"
    by (simp add: worker_at_def demo_wired_def Let_def demo_worker_def fed_worker_def round_config_def)
  ultimately show ?thesis using runFederatedRound_wired [OF assms, of await paths test] by blast
qed

theorem demo_wires_network_witness:
  "\<exists>sys (w :: demo_wiring). runFederatedRound sorted_order (\<lambda>_ _. Inl TimedOut) [''w'', ''w''] sample_records =
      (sys, Return (case (\<lambda>_ _. Inl TimedOut :: demo_error + round_result) w [''w'', ''w''] of Inl e \<Rightarrow> Inl e | Inr x \<Rightarrow> Inr (rr_Metrics x))) \<and>
    cells sys = fmempty \<and> mset (stop_calls sys) = mset [0..<length [''w'', ''w''] + 2] \<and>
    coordinator_at node_of (dw_coordinator w) = coord (fed_start (round_config exact_fpu worker_name sample_fs sample_records [''w'', ''w''])) \<and>
    aggregator_at node_of (dw_aggregator w) = agg (fed_start (round_config exact_fpu worker_name sample_fs sample_records [''w'', ''w''])) \<and>
    map (worker_at node_of) (dw_workers w) = map (fed_worker (round_config exact_fpu worker_name sample_fs sample_records [''w'', ''w''])) [0..<length [''w'', ''w'']]"
  by (rule demo_wires_network [where await = "\<lambda>_ _. Inl TimedOut"]) simp


text \<open>A program that gets its result from a run of the network reports the central baseline.\<close>

lemma demo_over_network:
  assumes "map_order ord" and "ieee_rounding fp" and "rng_in_range rng" and "map_runtime rt"
    and "Load fs (flag_data opts) = Inr records" and "files fs (flag_data opts) = Some f" and "carriage \<notin> set (bytes f)"
    and "int (length records) \<le> 2 ^ 53"
    and "0 < flag_workers opts" and "flag_workers opts \<le> int64_max"
    and "SplitTrainTest fp rng records (flag_train_ratio opts) (flag_seed opts) = Some (train, test)"
    and "clear_cut fp (Aggregate fp sorted_runtime [CountLocal train]) test"
    and "\<And>fs' paths x. writePartitions mkdir train (flag_workers opts) (flag_partitions_dir opts) fs = Some (Inr paths, fs') \<Longrightarrow>
      await fs' (demo_wired (length paths) test) paths = Inr x \<Longrightarrow> \<exists>wid. round_outcome fp wid fs' test paths (rr_Metrics x)"
    and "demo_main fp rng mkdir rt ord await opts fs = (out, Finished)"
  shows "out = [LoadedLine (length records) (flag_data opts), SplitLine (length train) (length test),
      BaselineLine (baseline fp rt train test), FederatedLine (baseline fp rt train test),
      RatioLine (relative_accuracy fp (baseline fp rt train test) (baseline fp rt train test))
        (if 0 < correct fp (sub_run rt 1) (Aggregate fp sorted_runtime [CountLocal train]) test then ''PASS'' else ''FAIL'')]"
proof -
  let ?base = "baseline fp rt train test"
  obtain paths fs' m where w: "writePartitions mkdir train (flag_workers opts) (flag_partitions_dir opts) fs = Some (Inr paths, fs')"
    and round: "snd (runFederatedRound ord (await fs') paths test) = Return (Inr m)"
    and out: "out = [LoadedLine (length records) (flag_data opts), SplitLine (length train) (length test), BaselineLine ?base,
      FederatedLine m, RatioLine (relative_accuracy fp m ?base) (if passes fp (relative_accuracy fp m ?base) then ''PASS'' else ''FAIL'')]"
    using assms(14) by (auto simp: demo_main_def assms(5,11) Let_def split: option.splits sum.splits outcome.splits)
  have "snd (runFederatedRound ord (await fs') paths test) =
      Return (case await fs' (demo_wired (length paths) test) paths of Inl e \<Rightarrow> Inl e | Inr x \<Rightarrow> Inr (rr_Metrics x))"
    using runFederatedRound_wired [OF assms(1), of "await fs'" paths test] by (metis snd_conv)
  then obtain x where x: "await fs' (demo_wired (length paths) test) paths = Inr x" "m = rr_Metrics x"
    using round by (auto split: sum.splits)
  have "list_all savable records" by (rule Load_savable [OF assms(5,6,7)])
  then have "list_all savable train" using SplitTrainTest_parts(1) [OF assms(3,11)] by (auto simp: list_all_iff)
  moreover obtain wid where "round_outcome fp wid fs' test paths (rr_Metrics x)" using assms(13) [OF w x(1)] by blast
  ultimately have m_eq: "m = ?base" using round_matches_baseline [OF w assms(9,10) _ _ assms(4,12)] x(2) by blast
  have "int (length test) \<le> 2 ^ 53" using assms(8) SplitTrainTest_parts(2) [OF assms(3,11)] by linarith
  then have "passes fp (relative_accuracy fp ?base ?base) \<longleftrightarrow>
      0 < correct fp (sub_run rt 1) (Aggregate fp sorted_runtime [CountLocal train]) test"
    using equal_accuracy_verdict [OF assms(2) _ baseline_eq [OF assms(4)]] by blast
  then show ?thesis using out m_eq by simp
qed


definition demo_opts :: demo_flags where
  "demo_opts = \<lparr>flag_data = ''d'', flag_partitions_dir = ''p'', flag_workers = 1, flag_train_ratio = Fin (1 / 2), flag_seed = 42\<rparr>"

lemma demo_clear_cut:
  "clear_cut exact_fpu (Aggregate exact_fpu sorted_runtime [CountLocal [sample_records ! 0]]) [sample_records ! 1]"
proof -
  let ?m = "Aggregate exact_fpu sorted_runtime [CountLocal [\<lparr>Label = ''ham'', Text = ''hey you''\<rparr>]]"
  have tokens: "Tokenize ''hey you'' = [''hey'', ''you'']" "Tokenize ''win now'' = [''win'', ''now'']" by code_simp+
  have priors: "ClassPriors ?m = fmupd ''ham'' (Fin 1) fmempty"
    using f_ratio [of exact_fpu 2 2] int64_gt_of_nat [of 2]
    by (intro fmap_ext) (simp add: Aggregate_single tokens)
  have words: "fmlookup (get_map (WordProbs ?m) ''ham'') w = None" if "w \<notin> {''hey'', ''you''}" for w
    using that by (simp add: Aggregate_single tokens)
  have "lnf exact_fpu 1 = 0" by (simp add: exact_fpu_def)
  then have "score_of exact_fpu ?m ''win now'' ''ham'' = Fin 0"
    by (simp add: score_of_def priors class_score_def tokens add_token_score_def words f_le_def)
  then have "beats_all exact_fpu ?m ''win now'' ''ham''" by (simp add: beats_all_def priors)
  then show ?thesis by (auto simp: clear_cut_def sample_records_def LabelHam_def)
qed


definition demo_out :: "demo_line list" where
  "demo_out =
     (let base = baseline exact_fpu sorted_runtime [sample_records ! 0] [sample_records ! 1] in
      [LoadedLine (length sample_records) (flag_data demo_opts), SplitLine (length [sample_records ! 0]) (length [sample_records ! 1]), BaselineLine base, FederatedLine base,
       RatioLine (relative_accuracy exact_fpu base base)
         (if 0 < correct exact_fpu (sub_run sorted_runtime 1) (Aggregate exact_fpu sorted_runtime [CountLocal [sample_records ! 0]])
            [sample_records ! 1] then ''PASS'' else ''FAIL'')])"

end
