(* ===== verification/DemoRuntime.thy ===== *)
theory DemoRuntime
  imports FedDeploy FLDemo
begin

text \<open>
  The demo program end to end on the actor runtime: what \<^verbatim>\<open>runFederatedRound\<close> waits for is the
  result of a run of the actors it spawns, with mailboxes of the default size, as goroutines of one actor
  system.
\<close>

section \<open>The round of the demo\<close>

text \<open>The round that the wiring of the set-up describes.\<close>

definition demo_deployment :: "fpu \<Rightarrow> filesystem \<Rightarrow> demo_wiring \<Rightarrow> string list \<Rightarrow> fed_config" where
  "demo_deployment fp fs w paths = round_config fp (\<lambda>i. WorkerID (dw_workers w ! i)) fs (TestSet (dw_coordinator w)) paths"

text \<open>
  The end of \<^verbatim>\<open>runFederatedRound\<close>: \<open>final\<close> is the state of the running system when the
  driver's \<^verbatim>\<open>select\<close> goes on with the channel of the results, none if it goes on with the timer.
\<close>

definition round_await ::
    "(filesystem \<Rightarrow> demo_wiring \<Rightarrow> string list \<Rightarrow> fed_running option) \<Rightarrow> filesystem \<Rightarrow> demo_wiring \<Rightarrow> string list \<Rightarrow>
     demo_error + round_result" where
  "round_await final fs w paths =
     (case final fs w paths of
        None \<Rightarrow> Inl TimedOut
      | Some s \<Rightarrow> (case List.map_filter result_of (outputs s) of [] \<Rightarrow> Inl TimedOut | x # xs \<Rightarrow> Inr x))"

text \<open>Any scheduling of the goroutines: a state that the spawned actors reach, with mailboxes of the default size.\<close>

definition scheduled :: "fpu \<Rightarrow> filesystem \<Rightarrow> demo_wiring \<Rightarrow> string list \<Rightarrow> fed_running \<Rightarrow> bool" where
  "scheduled fp fs w paths s \<longleftrightarrow>
     (\<exists>pick. (\<forall>c k. map_runtime (pick c k)) \<and>
        (driven_step (fed_programs (demo_deployment fp fs w paths) pick))\<^sup>*\<^sup>*
          (fed_launch (demo_deployment fp fs w paths) (nat DefaultMailboxSize) paths) s)"

abbreviation wired_round :: "fpu \<Rightarrow> filesystem \<Rightarrow> data_record list \<Rightarrow> string list \<Rightarrow> fed_config" where
  "wired_round fp fs test paths \<equiv> demo_deployment fp fs (demo_wired (length paths) test) paths"

lemma wired_round_fields [simp]:
  "fc_workers (wired_round fp fs test paths) = length paths" "fc_fpu (wired_round fp fs test paths) = fp"
  "fc_files (wired_round fp fs test paths) = (\<lambda>_. fs)" "fc_test (wired_round fp fs test paths) = test"
  "fc_starts (wired_round fp fs test paths) = [paths]"
  "i < length paths \<Longrightarrow> fc_worker_id (wired_round fp fs test paths) i = worker_name i"
  by (simp_all add: demo_deployment_def round_config_def demo_wired_def demo_worker_def Let_def)

lemma wired_round_ready:
  assumes "int (length paths) \<le> int64_max" and "\<And>c k. map_runtime (pick c k)"
  shows "run_ready (wired_round fp fs test paths) pick paths"
proof -
  have "map (fc_worker_id (wired_round fp fs test paths)) [0..<length paths] = map worker_name [0..<length paths]"
    by (intro map_cong) simp_all
  moreover have "''coordinator'' \<noteq> worker_name i" "''aggregator'' \<noteq> worker_name i" for i by (simp_all add: worker_name_def)
  ultimately have "distinct (fed_ids (wired_round fp fs test paths))" by (auto simp: fed_ids_def distinct_map inj_on_def)
  then show ?thesis using assms by (simp add: run_ready_def fed_bound_def int64_max_def)
qed

text \<open>What the driver reads from the channel is a result of the network.\<close>

lemma round_await_outcome:
  assumes n: "int (length paths) \<le> int64_max" and w: "w = demo_wired (length paths) test"
    and final: "\<And>s. final fs w paths = Some s \<Longrightarrow> scheduled fp fs w paths s" and x: "round_await final fs w paths = Inr x"
  shows "\<exists>wid. round_outcome fp wid fs test paths (rr_Metrics x)"
proof -
  let ?g = "wired_round fp fs test paths"
  obtain s xs where s: "final fs w paths = Some s" "List.map_filter result_of (outputs s) = x # xs"
    using x by (auto simp: round_await_def split: option.splits list.splits)
  obtain pick where pick: "\<And>c k. map_runtime (pick c k)"
    and run: "(driven_step (fed_programs ?g pick))\<^sup>*\<^sup>* (fed_launch ?g (nat DefaultMailboxSize) paths) s"
    using final [OF s(1)] w unfolding scheduled_def by blast
  show ?thesis using wired_round_ready [OF n pick] run
  proof (cases rule: run_cases)
    case (launch j)
    then show ?thesis using launching_todo [OF launch(2,1)] s(2) by (simp add: map_filter_simps)
  next
    case (settled a)
    then have res: "results a = x # xs" using s(2) fed_viewD(3) [of ?g pick s a] by (simp add: settled_def)
    have "fed_reachable ?g a" by (rule reaches_live [OF reaches_bounded [OF settled(2)]])
    moreover have "?g = round_config fp (fc_worker_id ?g) fs test paths"
      by (simp add: demo_deployment_def round_config_def demo_wired_def Let_def)
    ultimately show ?thesis unfolding round_outcome_def using res by (metis list.distinct(1) list.sel(1))
  qed
qed

text \<open>A round over written partitions that reports.\<close>

lemma scheduled_result:
  assumes "writePartitions mkdir train n dir fs = Some (Inr paths, fs')" and "0 < n" and "n \<le> int64_max"
    and "list_all savable train"
  obtains s x where "scheduled fp fs' (demo_wired (length paths) test) paths s" and "List.map_filter result_of (outputs s) = [x]"
proof -
  let ?g = "wired_round fp fs' test paths" and ?pick = "\<lambda>_ _. sorted_runtime" and ?N = "nat DefaultMailboxSize"
  obtain shards where shards: "paths = map (partition_path dir) [0..<nat n]" "map (Load fs') paths = map Inr shards"
    using writePartitions_ok [OF assms(1,2,4)] by blast
  have n: "int (length paths) \<le> int64_max" using shards(1) assms(2,3) by simp
  have ready: "run_ready ?g ?pick paths" by (rule wired_round_ready [OF n]) simp
  have "((driven_step (fed_programs ?g ?pick)) ^^ 0) (fed_launch ?g ?N paths) (fed_launch ?g ?N paths)" by simp
  from run_shows_run [OF ready this] obtain w where "run_shows ?g ?N ?pick paths w (fed_launch ?g ?N paths)" by blast
  from run_stops [OF ready this] obtain s where s: "(driven_step (fed_programs ?g ?pick))\<^sup>*\<^sup>* (fed_launch ?g ?N paths) s"
    "\<nexists>u. driven_step (fed_programs ?g ?pick) s u" by blast
  have len: "length shards = length paths" using arg_cong [OF shards(2), of length] by simp
  have "Load fs' (paths ! i) = Inr (shards ! i)" if "i < length paths" for i
    using that len shards(2) by (metis nth_map)
  then have halted: "\<exists>x. ResultOut x \<in> set (outputs s)" "\<forall>h. todo s h = []"
    using run_completes [OF ready s(1) _ s(2)] by (simp_all add: DefaultMailboxSize_def)
  from ready s(1) obtain a where a: "settled ?g ?N ?pick s a"
    by (cases rule: run_cases) (use launching_todo halted(2) in blast)+
  obtain x where "x \<in> set (results a)" using settled_results [OF a] halted(1) by blast
  moreover have "length (results a) \<le> 1" using results_bound [of ?g a] a by (simp add: settled_def)
  ultimately have "results a = [x]" by (intro only_member)
  then have "List.map_filter result_of (outputs s) = [x]" using a fed_viewD(3) [of ?g ?pick s a] by (simp add: settled_def)
  moreover have "scheduled fp fs' (demo_wired (length paths) test) paths s" unfolding scheduled_def
    by (rule exI [of _ ?pick]) (use s(1) in simp)
  ultimately show thesis using that by blast
qed

section \<open>Properties\<close>

text \<open>C2: End to end, the demo reports the central baseline: on a data file of at most 2^53 records without carriage
returns, with at least one worker, and when no test text is a tie (for which Predict depends on the map order),
if the program finishes, the federated metrics it prints are those of the centrally trained model, whatever the
interleaving of the goroutines of the actors it spawns; so the verdict is PASS exactly when the baseline classifies
some test message correctly.\<close>

theorem demo_matches_baseline:
  assumes "map_order ord" and "ieee_rounding fp" and "rng_in_range rng" and "map_runtime rt"
    and "Load fs (flag_data opts) = Inr records" and "files fs (flag_data opts) = Some f" and "carriage \<notin> set (bytes f)"
    and "int (length records) \<le> 2 ^ 53"
    and "0 < flag_workers opts" and "flag_workers opts \<le> int64_max"
    and "SplitTrainTest fp rng records (flag_train_ratio opts) (flag_seed opts) = Some (train, test)"
    and "clear_cut fp (Aggregate fp sorted_runtime [CountLocal train]) test"
    and "\<And>fs' w paths s. final fs' w paths = Some s \<Longrightarrow> scheduled fp fs' w paths s"
    and "demo_main fp rng mkdir rt ord (round_await final) opts fs = (out, Finished)"
  shows "out = [LoadedLine (length records) (flag_data opts), SplitLine (length train) (length test),
      BaselineLine (baseline fp rt train test), FederatedLine (baseline fp rt train test),
      RatioLine (relative_accuracy fp (baseline fp rt train test) (baseline fp rt train test))
        (if 0 < correct fp (sub_run rt 1) (Aggregate fp sorted_runtime [CountLocal train]) test then ''PASS'' else ''FAIL'')]"
proof (rule demo_over_network [OF assms(1-12) _ assms(14)])
  fix fs' paths x
  assume w: "writePartitions mkdir train (flag_workers opts) (flag_partitions_dir opts) fs = Some (Inr paths, fs')"
    and x: "round_await final fs' (demo_wired (length paths) test) paths = Inr x"
  have "list_all savable train"
    using Load_savable [OF assms(5,6,7)] SplitTrainTest_parts(1) [OF assms(3,11)] by (auto simp: list_all_iff)
  then obtain shards where "paths = map (partition_path (flag_partitions_dir opts)) [0..<nat (flag_workers opts)]"
    using writePartitions_ok [OF w assms(9)] by blast
  then have "int (length paths) \<le> int64_max" using assms(9,10) by simp
  then show "\<exists>wid. round_outcome fp wid fs' test paths (rr_Metrics x)"
    by (rule round_await_outcome [OF _ refl assms(13) x])
qed

theorem demo_matches_baseline_witness:
  "\<exists>final. demo_main exact_fpu (\<lambda>_ _ i. i) (\<lambda>_ fs. Some fs) sorted_runtime sorted_order (round_await final) demo_opts demo_fs = (demo_out, Finished)"
proof -
  let ?train = "[sample_records ! 0]" and ?test = "[sample_records ! 1]"
  let ?path = "partition_path ''p'' 0"
  let ?fs' = "snd (Save demo_fs ?train ?path)"
  have part: "Partition ?train 1 = Some [?train]"
    by (simp add: Partition_def partition_from.simps go_slice_def)
  have saved: "Save demo_fs ?train ?path = (None, ?fs')"
    by (simp add: demo_fs_def Save_def sample_fs_def)
  have w: "writePartitions (\<lambda>_ fs. Some fs) ?train 1 ''p'' demo_fs = Some (Inr [?path], ?fs')"
    using saved by (auto simp: writePartitions_def part partition_path_def Let_def split: prod.splits)
  have sav: "list_all savable ?train" using sample_savable by (simp add: sample_records_def)
  obtain s x where s: "scheduled exact_fpu ?fs' (demo_wired (length [?path]) ?test) [?path] s" "List.map_filter result_of (outputs s) = [x]"
    by (rule scheduled_result [OF w _ _ sav]) (auto simp: int64_max_def)
  define final :: "filesystem \<Rightarrow> demo_wiring \<Rightarrow> string list \<Rightarrow> fed_running option" where
    "final = (\<lambda>fs w paths. if fs = ?fs' \<and> w = demo_wired (length [?path]) ?test \<and> paths = [?path] then Some s else None)"
  have "round_await final ?fs' (demo_wired (length [?path]) ?test) [?path] = Inr x"
    by (simp add: round_await_def final_def s(2))
  then have round: "snd (runFederatedRound sorted_order (round_await final ?fs') [?path] ?test) = Return (Inr (rr_Metrics x))"
    using runFederatedRound_wired [of sorted_order "round_await final ?fs'" "[?path]" ?test] by (auto simp del: length_Cons)
  obtain out where run: "demo_main exact_fpu (\<lambda>_ _ i. i) (\<lambda>_ fs. Some fs) sorted_runtime sorted_order (round_await final) demo_opts demo_fs = (out, Finished)"
    by (simp add: demo_main_def demo_opts_def demo_load demo_split w round Let_def del: One_nat_def)
  have cr: "carriage \<notin> set (save_bytes sample_records)"
    by (simp add: sample_records_def save_bytes_def record_bytes_def LabelHam_def LabelSpam_def carriage_def tab_def newline_def)
  have "out = demo_out"
    unfolding demo_out_def Let_def
  proof (rule demo_matches_baseline [OF _ _ _ _ _ _ _ _ _ _ _ demo_clear_cut _ run])
    show "Load demo_fs (flag_data demo_opts) = Inr sample_records"
      "files demo_fs (flag_data demo_opts) = Some \<lparr>bytes = save_bytes sample_records, read_fails = False\<rparr>"
      by (simp_all add: demo_opts_def demo_load)
    show "SplitTrainTest exact_fpu (\<lambda>_ _ i. i) sample_records (flag_train_ratio demo_opts) (flag_seed demo_opts) = Some (?train, ?test)"
      by (simp add: demo_opts_def demo_split)
    show "final fs' w paths = Some s' \<Longrightarrow> scheduled exact_fpu fs' w paths s'" for fs' w paths s'
      using s(1) by (simp add: final_def split: if_splits)
  qed (use cr in \<open>simp_all add: demo_opts_def rng_in_range_def int64_max_def sample_records_def\<close>)
  then show ?thesis using run by blast
qed

end
