(* ===== verification/Remote.thy ===== *)
theory Remote
  imports Transport
begin

text \<open>
  Remote references (\<^verbatim>\<open>pkg/actor/remote/remote.go\<close>): \<^verbatim>\<open>Ref.Tell\<close> wraps the
  message and calls the peer's \<^verbatim>\<open>Server.Send\<close>, which unwraps it, looks the target up and
  tells it.  Protobuf and gRPC are not code of this repository: whether a Go type is a protobuf message, the
  packing into \<^verbatim>\<open>Any\<close> and the call itself are parameters.  What gRPC documents of a
  unary call without retries, that the handler runs at most once, and that an OK status is the
  handler's, is the interface \<open>unary_rpc\<close>; a failed call may still have run the handler.
\<close>

section \<open>Server and reference\<close>

datatype 'e remote_error =
    NotProtoMessage
  | WrapPayload
  | DialFailed string
  | UnmarshalPayload string
  | UnknownActor string
  | DeliverTo string 'e
  | RpcFailed

record 'any envelope_pb =
  TargetId :: string
  Payload :: "'any"

record ('any, 'msg) codec =
  is_proto :: "'msg \<Rightarrow> bool"
  any_new :: "'msg \<Rightarrow> 'any option"
  unmarshal_new :: "'any \<Rightarrow> 'msg option"

text \<open>
  \<^verbatim>\<open>Server.Send\<close>: \<open>lookup\<close> is the actor system's, \<open>tell\<close> the PIDs'; no result
  while the tell blocks.  \<open>None\<close> is the acknowledgement.
\<close>

definition Server_Send ::
    "('any, 'msg) codec \<Rightarrow> (string \<Rightarrow> 'w \<Rightarrow> 'p option) \<Rightarrow> ('p \<Rightarrow> 'msg \<Rightarrow> 'w \<Rightarrow> ('e option \<times> 'w) option) \<Rightarrow>
     'any envelope_pb \<Rightarrow> 'w \<Rightarrow> ('e remote_error option \<times> 'w) option" where
  "Server_Send cd lookup tell env w =
     (case unmarshal_new cd (Payload env) of
        None \<Rightarrow> Some (Some (UnmarshalPayload (TargetId env)), w)
      | Some msg \<Rightarrow>
          (case lookup (TargetId env) w of
             None \<Rightarrow> Some (Some (UnknownActor (TargetId env)), w)
           | Some pid \<Rightarrow>
               (case tell pid msg w of
                  None \<Rightarrow> None
                | Some (Some e, w') \<Rightarrow> Some (Some (DeliverTo (TargetId env) e), w')
                | Some (None, w') \<Rightarrow> Some (None, w'))))"

text \<open>\<open>call\<close> is the client stub: it is given the server's handler.\<close>

definition Ref_Tell ::
    "('any, 'msg) codec \<Rightarrow> ('any envelope_pb \<Rightarrow> 'w \<Rightarrow> ('e remote_error option \<times> 'w) option) \<Rightarrow>
     string \<Rightarrow> 'msg \<Rightarrow> 'w \<Rightarrow> ('e remote_error option \<times> 'w) option" where
  "Ref_Tell cd send target msg w =
     (if \<not> is_proto cd msg then Some (Some NotProtoMessage, w)
      else (case any_new cd msg of
          None \<Rightarrow> Some (Some WrapPayload, w)
        | Some payload \<Rightarrow> send \<lparr>TargetId = target, Payload = payload\<rparr> w))"

record ref =
  ref_target :: string
  ref_addr :: string

text \<open>\<open>dial\<close> is \<^verbatim>\<open>grpc.NewClient\<close>: whether it accepts the address.\<close>

definition Dial :: "(string \<Rightarrow> bool) \<Rightarrow> string \<Rightarrow> 'e remote_error + string" where
  "Dial dial addr = (if dial addr then Inr addr else Inl (DialFailed addr))"

definition NewRef :: "(string \<Rightarrow> bool) \<Rightarrow> string \<Rightarrow> string \<Rightarrow> 'e remote_error + ref" where
  "NewRef dial addr target =
     (case Dial dial addr of Inl e \<Rightarrow> Inl e | Inr conn \<Rightarrow> Inr \<lparr>ref_target = target, ref_addr = conn\<rparr>)"

section \<open>What a call promises\<close>

text \<open>
  A server whose actors have inboxes, and a call to it: an OK status means that the handler ran and
  returned it; an error means that the handler did not run or that it ran (and its answer was
  replaced, as by the deadline of \<^verbatim>\<open>tellTimeout\<close>).
\<close>

locale unary_rpc = exact_delivery tell sleep inbox
  for tell :: "'p \<Rightarrow> 'msg \<Rightarrow> 'w \<Rightarrow> ('e option \<times> 'w) option"
    and sleep :: "nat \<Rightarrow> 'w \<Rightarrow> 'w"
    and inbox :: "'w \<Rightarrow> 'p \<Rightarrow> 'msg list" +
  fixes cd :: "('any, 'msg) codec"
    and resolve :: "string \<Rightarrow> 'p option"
    and send :: "'any envelope_pb \<Rightarrow> 'w \<Rightarrow> ('e remote_error option \<times> 'w) option"
  assumes codec_roundtrip: "any_new cd m = Some a \<Longrightarrow> unmarshal_new cd a = Some m"
    and send_ok: "send env w = Some (None, w') \<Longrightarrow> Server_Send cd (\<lambda>n _. resolve n) tell env w = Some (None, w')"
    and send_error: "send env w = Some (Some e, w') \<Longrightarrow>
      w' = w \<or> (\<exists>r. Server_Send cd (\<lambda>n _. resolve n) tell env w = Some (r, w'))"
begin

text \<open>A nil error of a remote tell means the message has been accepted by the named actor, once.\<close>

lemma Ref_Tell_ok:
  assumes "Ref_Tell cd send target m w = Some (None, w')"
  shows "\<exists>p. resolve target = Some p \<and> inbox w' = (inbox w)(p := inbox w p @ [m])"
proof -
  from assms obtain a where a: "any_new cd m = Some a"
    and s: "send \<lparr>TargetId = target, Payload = a\<rparr> w = Some (None, w')"
    by (auto simp: Ref_Tell_def split: if_splits option.splits)
  from send_ok [OF s] codec_roundtrip [OF a]
  obtain p where "resolve target = Some p" "tell p m w = Some (None, w')"
    by (auto simp: Server_Send_def split: option.splits)
  then show ?thesis using tell_ok by blast
qed

lemma Ref_Tell_error:
  assumes "Ref_Tell cd send target m w = Some (Some e, w')"
  shows "inbox w' = inbox w \<or> (\<exists>p. resolve target = Some p \<and> inbox w' = (inbox w)(p := inbox w p @ [m]))"
proof (cases "is_proto cd m \<and> any_new cd m \<noteq> None")
  case False
  then show ?thesis using assms by (auto simp: Ref_Tell_def split: if_splits option.splits)
next
  case True
  then obtain a where a: "any_new cd m = Some a" by auto
  with True assms have s: "send \<lparr>TargetId = target, Payload = a\<rparr> w = Some (Some e, w')"
    by (simp add: Ref_Tell_def)
  from send_error [OF s] show ?thesis
  proof
    assume "\<exists>r. Server_Send cd (\<lambda>n _. resolve n) tell \<lparr>TargetId = target, Payload = a\<rparr> w = Some (r, w')"
    then show ?thesis using codec_roundtrip [OF a]
      by (auto simp: Server_Send_def split: option.splits dest: tell_ok tell_error_exact)
  qed simp
qed

end

text \<open>A remote reference keeps the weaker contract: at least once on success, unknown on an error.\<close>

definition ref_inbox :: "(string \<Rightarrow> 'p option) \<Rightarrow> ('w \<Rightarrow> 'p \<Rightarrow> 'msg list) \<Rightarrow> 'w \<Rightarrow> string \<Rightarrow> 'msg list" where
  "ref_inbox resolve inbox w target = (case resolve target of None \<Rightarrow> [] | Some p \<Rightarrow> inbox w p)"

locale named_rpc = unary_rpc +
  assumes resolve_inj: "resolve n = Some p \<Longrightarrow> resolve n' = Some p \<Longrightarrow> n = n'"

sublocale named_rpc \<subseteq> remote: delivery "Ref_Tell cd send" sleep "ref_inbox resolve inbox"
proof unfold_locales
  fix r m w w' assume "Ref_Tell cd send r m w = Some (None, w')"
  from Ref_Tell_ok [OF this] show "ref_inbox resolve inbox w' = (ref_inbox resolve inbox w)(r := ref_inbox resolve inbox w r @ [m])"
    by (auto simp: ref_inbox_def fun_eq_iff split: option.split dest: resolve_inj)
next
  fix r m w e w' assume "Ref_Tell cd send r m w = Some (Some e, w')"
  from Ref_Tell_error [OF this] show "ref_inbox resolve inbox w' = ref_inbox resolve inbox w \<or>
      ref_inbox resolve inbox w' = (ref_inbox resolve inbox w)(r := ref_inbox resolve inbox w r @ [m])"
    by (auto simp: ref_inbox_def fun_eq_iff split: option.split dest: resolve_inj)
next
  fix d w show "ref_inbox resolve inbox (sleep d w) = ref_inbox resolve inbox w"
    by (rule ext) (simp add: ref_inbox_def sleep_inbox split: option.split)
qed

section \<open>The model's own servers\<close>

text \<open>
  Calls to a node running an actor system: a request may be lost, and an answer may come too late;
  which ones is decided by two oracles.  Payloads are carried as they are.
\<close>

definition plain_codec :: "('msg \<Rightarrow> bool) \<Rightarrow> ('msg, 'msg) codec" where
  "plain_codec proto = \<lparr>is_proto = proto, any_new = Some, unmarshal_new = Some\<rparr>"

definition faulty_send ::
    "('msg envelope_pb \<Rightarrow> 'w \<Rightarrow> bool) \<Rightarrow> ('msg envelope_pb \<Rightarrow> 'w \<Rightarrow> bool) \<Rightarrow>
     ('msg envelope_pb \<Rightarrow> 'w \<Rightarrow> ('e remote_error option \<times> 'w) option) \<Rightarrow>
     'msg envelope_pb \<Rightarrow> 'w \<Rightarrow> ('e remote_error option \<times> 'w) option" where
  "faulty_send lost late serve env w =
     (if lost env w then Some (Some RpcFailed, w)
      else (case serve env w of None \<Rightarrow> None
        | Some (r, w') \<Rightarrow> Some (if late env w then Some RpcFailed else r, w')))"

definition node_system :: "sys_call list \<Rightarrow> actor_system" where
  "node_system calls = perform_all (filter call_ok calls)"

definition node_resolve :: "sys_call list \<Rightarrow> string \<Rightarrow> nat option" where
  "node_resolve calls n = (case Lookup n (node_system calls) of Return (Some p) \<Rightarrow> Some (pid_cell p) | _ \<Rightarrow> None)"

lemma node_resolve_inj:
  assumes "node_resolve calls n = Some c" and "node_resolve calls n' = Some c"
  shows "n = n'"
proof -
  have "sys_inv (node_system calls)"
    unfolding node_system_def by (rule sys_inv_perform_all) (simp add: list_all_iff)
  then show ?thesis using assms cells_inj [of "node_system calls" n c n']
    by (auto simp: node_resolve_def Lookup_def split: if_splits option.splits)
qed

abbreviation node_serve ::
    "(nat \<Rightarrow> nat) \<Rightarrow> ('m \<Rightarrow> bool) \<Rightarrow> sys_call list \<Rightarrow> 'm envelope_pb \<Rightarrow> (nat \<Rightarrow> ('s, 'm) cell) \<Rightarrow>
     (mail_error remote_error option \<times> (nat \<Rightarrow> ('s, 'm) cell)) option" where
  "node_serve pick proto calls \<equiv>
     Server_Send (plain_codec proto) (\<lambda>n _. node_resolve calls n) (\<lambda>c. PID_Tell pick (pid_of_cell c))"

interpretation node_rpc: named_rpc "\<lambda>c. PID_Tell pick (pid_of_cell c)" "\<lambda>_ cs. cs" pid_inbox
    "plain_codec proto" "node_resolve calls" "faulty_send lost late (node_serve pick proto calls)"
  for pick proto calls lost late
proof unfold_locales
  fix n n' p assume "node_resolve calls n = Some p" and "node_resolve calls n' = Some p"
  then show "n = n'" by (rule node_resolve_inj)
qed (auto simp: plain_codec_def faulty_send_def split: if_splits option.splits)

section \<open>Properties\<close>

text \<open>A remote send with retries is at-least-once: if sendWithRetry on a remote reference returns nil
the message was accepted by the named actor at least once, and in every case at most ten times; calls
whose request is lost, or whose answer arrives after the deadline, are retried.\<close>

theorem remote_send_at_least_once:
  assumes "sendWithRetry (\<lambda>_ cs. cs) (Ref_Tell (plain_codec proto) (faulty_send lost late (node_serve pick proto calls))) target m cs =
      Some (res, cs')"
  shows "\<exists>k \<in> (if res = None then {1..10} else {0..10}).
    ref_inbox (node_resolve calls) pid_inbox cs' =
      (ref_inbox (node_resolve calls) pid_inbox cs)(target := ref_inbox (node_resolve calls) pid_inbox cs target @ replicate k m)"
proof -
  obtain k where "k \<le> 10" "res = None \<longrightarrow> 0 < k"
    "ref_inbox (node_resolve calls) pid_inbox cs' =
      (ref_inbox (node_resolve calls) pid_inbox cs)(target := ref_inbox (node_resolve calls) pid_inbox cs target @ replicate k m)"
    using node_rpc.remote.retry_copies [OF assms [unfolded sendWithRetry_eq tellWithRetry_def]]
    by (auto simp: send_attempts_def)
  then show ?thesis by (intro bexI [of _ k]) auto
qed

definition agg_calls :: "sys_call list" where
  "agg_calls = [CallSpawn ''agg'' 4]"

definition agg_cell :: "(nat list, nat) cell" where
  "agg_cell = fresh_cell\<lparr>mailbox := \<lparr>ch = [], ch_size = 4, mb_closed = False\<rparr>\<rparr>"

lemma agg_resolve: "node_resolve agg_calls ''agg'' = Some 0"
  by (simp add: node_resolve_def node_system_def agg_calls_def system_eval)

lemmas remote_eval = sendWithRetry_def send_attempts_def numeral_eq_Suc ctx_Send_def [abs_def] Ref_Tell_def
  plain_codec_def faulty_send_def Server_Send_def agg_resolve PID_Tell_eval pid_of_cell_def agg_cell_def
  fresh_cell_def enqueue_check_def enqueue_select_def send_ready_def receiver_waits_def send_envelope_def
  log_tell_def Let_def pid_inbox_def

text \<open>The two copies a late answer leads to.\<close>

definition agg_twice :: "nat \<Rightarrow> (nat list, nat) cell" where
  "agg_twice _ = agg_cell\<lparr>mailbox := \<lparr>ch = [Msg 7, Msg 7], ch_size = 4, mb_closed = False\<rparr>, accepted := [7, 7]\<rparr>"

lemma late_answer_twice:
  "sendWithRetry (\<lambda>_ cs. cs) (Ref_Tell (plain_codec (\<lambda>_. True)) (faulty_send (\<lambda>_ _. False) (\<lambda>_ cs. accepted (cs 0) = [])
     (node_serve (\<lambda>_. 0) (\<lambda>_. True) agg_calls))) ''agg'' 7 (\<lambda>_. agg_cell) = Some (None, (\<lambda>_. agg_cell)(0 := agg_twice 0))"
  by (simp add: remote_eval agg_twice_def fun_eq_iff)

theorem remote_send_at_least_once_witness:
  "\<exists>k \<in> (if (None :: mail_error remote_error option) = None then {1..10} else {0..10}).
    ref_inbox (node_resolve agg_calls) pid_inbox ((\<lambda>_. agg_cell)(0 := agg_twice 0)) =
      (ref_inbox (node_resolve agg_calls) pid_inbox (\<lambda>_. agg_cell))
        (''agg'' := ref_inbox (node_resolve agg_calls) pid_inbox (\<lambda>_. agg_cell) ''agg'' @ replicate k 7)"
  by (rule remote_send_at_least_once [OF late_answer_twice])

text \<open>A remote send can deliver a message twice and still return nil: when the answer to a delivered call
misses the deadline the retry delivers the message again.\<close>

theorem remote_send_duplicates:
  "\<exists>cs'. sendWithRetry (\<lambda>_ cs. cs) (Ref_Tell (plain_codec (\<lambda>_. True)) (faulty_send (\<lambda>_ _. False) (\<lambda>_ cs. accepted (cs 0) = [])
     (node_serve (\<lambda>_. 0) (\<lambda>_. True) agg_calls))) ''agg'' 7 (\<lambda>_. agg_cell) = Some (None, cs') \<and> pid_inbox cs' 0 = [7, 7]"
  using late_answer_twice by (auto simp: pid_inbox_def agg_twice_def)

end
