(* ===== verification/Cluster.thy ===== *)
theory Cluster
  imports Transition Remote
begin

text \<open>
  Cluster membership (\<^verbatim>\<open>internal/cluster\<close>): the provider actor, its clients and the
  gossip actor.  Handlers act on an explicit world \<open>'w\<close> through the operations their code calls:
  dialing, telling a reference, sleeping, closing a connection, writing the log; no result where a tell
  blocks.  \<^verbatim>\<open>hashicorp/memberlist\<close> is not code of this repository: creating a member list and
  joining through it are parameters.
\<close>

section \<open>Messages\<close>

record peer_info =
  NodeId :: string
  Addr :: string

record reply_address =
  reply_addr :: string
  ActorId :: string

text \<open>\<open>'p\<close> is the type of PIDs; an unset protobuf message field and a nil PID are \<open>None\<close>.\<close>

datatype 'p cluster_msg =
    JoinCluster "peer_info option"
  | LeaveCluster string
  | DiscoverPeers "reply_address option"
  | PeerList "peer_info list"
  | DiscoverNow
  | QueryPeers "'p option"
  | PeersView "peer_info list"
  | PeerJoined peer_info
  | PeerLeft string
  | OtherCluster

text \<open>What is logged, with the error where one is printed.\<close>

datatype cluster_log =
    ReplyDial string string
  | ReplyTell string string
  | ProviderDial string string
  | JoinFailed string
  | DiscoverFailed string
  | InvalidBindAddr string string
  | InvalidBindPort string string
  | CreateFailed string
  | JoinSeeds string "string list"

text \<open>The values of a peer map, in iteration order.\<close>

definition peer_values :: "string order \<Rightarrow> (string, peer_info) fmap \<Rightarrow> peer_info list" where
  "peer_values ord m = go_range ord m (\<lambda>_ info acc. acc @ [info]) []"

section \<open>Provider\<close>

record provider_actor =
  prov_ID :: string
  prov_peers :: "(string, peer_info) fmap"

definition NewProviderActor :: "string \<Rightarrow> provider_actor" where
  "NewProviderActor prov_id = \<lparr>prov_ID = prov_id, prov_peers = fmempty\<rparr>"

definition replyPeerList ::
    "(string \<Rightarrow> bool) \<Rightarrow> (ref \<Rightarrow> 'p cluster_msg \<Rightarrow> 'w \<Rightarrow> ('e option \<times> 'w) option) \<Rightarrow> (string \<Rightarrow> 'w \<Rightarrow> 'w) \<Rightarrow>
     (cluster_log \<Rightarrow> 'w \<Rightarrow> 'w) \<Rightarrow> string order \<Rightarrow> provider_actor \<Rightarrow> reply_address option \<Rightarrow> 'w \<Rightarrow> 'w option" where
  "replyPeerList dial tell close logger ord p to w =
     (case to of
        None \<Rightarrow> Some w
      | Some a \<Rightarrow>
          if reply_addr a = '''' then Some w
          else (let peers = peer_values ord (prov_peers p) in
                case (Dial dial (reply_addr a) :: unit remote_error + string) of
                  Inl _ \<Rightarrow> Some (logger (ReplyDial (prov_ID p) (reply_addr a)) w)
                | Inr conn \<Rightarrow>
                    (case tell \<lparr>ref_target = ActorId a, ref_addr = conn\<rparr> (PeerList peers) w of
                       None \<Rightarrow> None
                     | Some (None, w') \<Rightarrow> Some (close conn w')
                     | Some (Some _, w') \<Rightarrow> Some (close conn (logger (ReplyTell (prov_ID p) (ActorId a)) w')))))"

definition provider_receive ::
    "(string \<Rightarrow> bool) \<Rightarrow> (ref \<Rightarrow> 'p cluster_msg \<Rightarrow> 'w \<Rightarrow> ('e option \<times> 'w) option) \<Rightarrow> (string \<Rightarrow> 'w \<Rightarrow> 'w) \<Rightarrow>
     (cluster_log \<Rightarrow> 'w \<Rightarrow> 'w) \<Rightarrow> string order \<Rightarrow> provider_actor \<Rightarrow> 'p cluster_msg \<Rightarrow> 'w \<Rightarrow> (provider_actor \<times> 'w) option" where
  "provider_receive dial tell close logger ord p msg w =
     (case msg of
        JoinCluster self \<Rightarrow>
          (case self of
             None \<Rightarrow> Some (p, w)
           | Some info \<Rightarrow> Some (p\<lparr>prov_peers := fmupd (NodeId info) info (prov_peers p)\<rparr>, w))
      | LeaveCluster n \<Rightarrow> Some (p\<lparr>prov_peers := fmdrop n (prov_peers p)\<rparr>, w)
      | DiscoverPeers to \<Rightarrow> map_option (Pair p) (replyPeerList dial tell close logger ord p to w)
      | _ \<Rightarrow> Some (p, w))"

section \<open>Provider client\<close>

record client_actor =
  SelfID :: string
  SelfAddr :: string
  ProviderID :: string
  ProviderAddr :: string
  cl_peers :: "(string, peer_info) fmap"
  cl_conn :: "string option"
  provider :: "ref option"

definition NewProviderClientActor :: "string \<Rightarrow> string \<Rightarrow> string \<Rightarrow> string \<Rightarrow> client_actor" where
  "NewProviderClientActor selfID selfAddr providerID providerAddr =
     \<lparr>SelfID = selfID, SelfAddr = selfAddr, ProviderID = providerID, ProviderAddr = providerAddr,
      cl_peers = fmempty, cl_conn = None, provider = None\<rparr>"

definition registerAndDiscover ::
    "(nat \<Rightarrow> 'w \<Rightarrow> 'w) \<Rightarrow> (ref \<Rightarrow> 'p cluster_msg \<Rightarrow> 'w \<Rightarrow> ('e option \<times> 'w) option) \<Rightarrow> (cluster_log \<Rightarrow> 'w \<Rightarrow> 'w) \<Rightarrow>
     client_actor \<Rightarrow> 'w \<Rightarrow> 'w option" where
  "registerAndDiscover sleep tell logger c w =
     (case provider c of
        None \<Rightarrow> Some w
      | Some prov \<Rightarrow>
          (case tellWithRetry sleep tell prov (JoinCluster (Some \<lparr>NodeId = SelfID c, Addr = SelfAddr c\<rparr>)) w of
             None \<Rightarrow> None
           | Some (Some _, w') \<Rightarrow> Some (logger (JoinFailed (SelfID c)) w')
           | Some (None, w') \<Rightarrow>
               (case tellWithRetry sleep tell prov
                       (DiscoverPeers (Some \<lparr>reply_addr = SelfAddr c, ActorId = SelfID c\<rparr>)) w' of
                  None \<Rightarrow> None
                | Some (Some _, w'') \<Rightarrow> Some (logger (DiscoverFailed (SelfID c)) w'')
                | Some (None, w'') \<Rightarrow> Some w'')))"

definition client_OnStart ::
    "(string \<Rightarrow> bool) \<Rightarrow> (nat \<Rightarrow> 'w \<Rightarrow> 'w) \<Rightarrow> (ref \<Rightarrow> 'p cluster_msg \<Rightarrow> 'w \<Rightarrow> ('e option \<times> 'w) option) \<Rightarrow>
     (cluster_log \<Rightarrow> 'w \<Rightarrow> 'w) \<Rightarrow> client_actor \<Rightarrow> 'w \<Rightarrow> (client_actor \<times> 'w) option" where
  "client_OnStart dial sleep tell logger c w =
     (case (NewRef dial (ProviderAddr c) (ProviderID c) :: unit remote_error + ref) of
        Inl _ \<Rightarrow> Some (c, logger (ProviderDial (SelfID c) (ProviderAddr c)) w)
      | Inr r \<Rightarrow>
          (let c' = c\<lparr>cl_conn := Some (ref_addr r), provider := Some r\<rparr>
           in map_option (Pair c') (registerAndDiscover sleep tell logger c' w)))"

definition client_OnStop :: "(string \<Rightarrow> 'w \<Rightarrow> 'w) \<Rightarrow> client_actor \<Rightarrow> 'w \<Rightarrow> 'w" where
  "client_OnStop close c w = (case cl_conn c of None \<Rightarrow> w | Some conn \<Rightarrow> close conn w)"

text \<open>\<open>send\<close> is the context's Send to a local PID; its error is dropped.\<close>

definition client_replyPeers ::
    "('p \<Rightarrow> 'p cluster_msg \<Rightarrow> 'w \<Rightarrow> ('e option \<times> 'w) option) \<Rightarrow> string order \<Rightarrow> client_actor \<Rightarrow> 'p option \<Rightarrow> 'w \<Rightarrow> 'w option" where
  "client_replyPeers send ord c replyTo w =
     (case replyTo of
        None \<Rightarrow> Some w
      | Some pid \<Rightarrow> map_option snd (ctx_Send send pid (PeersView (peer_values ord (cl_peers c))) w))"

definition adopt_peers :: "peer_info list \<Rightarrow> (string, peer_info) fmap" where
  "adopt_peers peers = fold (\<lambda>p m. fmupd (NodeId p) p m) peers fmempty"

definition client_receive ::
    "(nat \<Rightarrow> 'w \<Rightarrow> 'w) \<Rightarrow> (ref \<Rightarrow> 'p cluster_msg \<Rightarrow> 'w \<Rightarrow> ('e option \<times> 'w) option) \<Rightarrow>
     ('p \<Rightarrow> 'p cluster_msg \<Rightarrow> 'w \<Rightarrow> ('e option \<times> 'w) option) \<Rightarrow> (cluster_log \<Rightarrow> 'w \<Rightarrow> 'w) \<Rightarrow> string order \<Rightarrow>
     client_actor \<Rightarrow> 'p cluster_msg \<Rightarrow> 'w \<Rightarrow> (client_actor \<times> 'w) option" where
  "client_receive sleep tell send logger ord c msg w =
     (case msg of
        PeerList peers \<Rightarrow> Some (c\<lparr>cl_peers := adopt_peers peers\<rparr>, w)
      | DiscoverNow \<Rightarrow> map_option (Pair c) (registerAndDiscover sleep tell logger c w)
      | QueryPeers replyTo \<Rightarrow> map_option (Pair c) (client_replyPeers send ord c replyTo w)
      | _ \<Rightarrow> Some (c, w))"

section \<open>Membership tables\<close>

text \<open>The provider's table, with a peer's own node id as its key.\<close>

definition prov_table :: "provider_actor \<Rightarrow> string \<Rightarrow> peer_info option" where
  "prov_table p = fmlookup (prov_peers p)"

definition prov_pure :: "provider_actor \<Rightarrow> unit cluster_msg \<Rightarrow> provider_actor" where
  "prov_pure p msg =
     (case provider_receive (\<lambda>_. True) (\<lambda>_ _ w. Some (None :: unit option, w)) (\<lambda>_ w. w) (\<lambda>_ w. w) sorted_order p msg () of
        None \<Rightarrow> p | Some (p', _) \<Rightarrow> p')"

definition prov_enter :: "provider_actor \<Rightarrow> string \<Rightarrow> string \<Rightarrow> provider_actor" where
  "prov_enter p n a = prov_pure p (JoinCluster (Some \<lparr>NodeId = n, Addr = a\<rparr>))"

definition prov_leave :: "provider_actor \<Rightarrow> string \<Rightarrow> provider_actor" where
  "prov_leave p n = prov_pure p (LeaveCluster n)"

text \<open>The address a node is known under.\<close>

definition prov_addr :: "provider_actor \<Rightarrow> string \<Rightarrow> string option" where
  "prov_addr p n = map_option Addr (fmlookup (prov_peers p) n)"

interpretation prov_members: membership prov_addr prov_enter prov_leave
  by unfold_locales (auto simp: prov_addr_def prov_enter_def prov_leave_def prov_pure_def provider_receive_def fun_eq_iff)

text \<open>The joins and leaves in a message log.\<close>

primrec join_log :: "'p cluster_msg list \<Rightarrow> (string, string) member_event list" where
  "join_log [] = []"
| "join_log (m # ms) =
     (case m of
        JoinCluster (Some i) \<Rightarrow> Joined (NodeId i) (Addr i) # join_log ms
      | LeaveCluster n \<Rightarrow> Departed n # join_log ms
      | _ \<Rightarrow> join_log ms)"

fun provider_run ::
    "(string \<Rightarrow> bool) \<Rightarrow> (ref \<Rightarrow> 'p cluster_msg \<Rightarrow> 'w \<Rightarrow> ('e option \<times> 'w) option) \<Rightarrow> (string \<Rightarrow> 'w \<Rightarrow> 'w) \<Rightarrow>
     (cluster_log \<Rightarrow> 'w \<Rightarrow> 'w) \<Rightarrow> string order \<Rightarrow> provider_actor \<Rightarrow> 'p cluster_msg list \<Rightarrow> 'w \<Rightarrow> (provider_actor \<times> 'w) option" where
  "provider_run dial tell close logger ord p [] w = Some (p, w)"
| "provider_run dial tell close logger ord p (m # ms) w =
     (case provider_receive dial tell close logger ord p m w of
        None \<Rightarrow> None
      | Some (p', w') \<Rightarrow> provider_run dial tell close logger ord p' ms w')"

text \<open>One message changes the table as the membership operations do.\<close>

lemma provider_receive_addr:
  assumes "provider_receive dial tell close logger ord p m w = Some (p', w')"
  shows "prov_addr p' = prov_addr (foldl (apply_member prov_enter prov_leave) p (join_log [m]))"
  using assms
  by (cases m) (auto simp: provider_receive_def prov_enter_def prov_leave_def prov_pure_def prov_addr_def fun_eq_iff
      split: option.splits)

lemma prov_addr_events:
  "prov_addr (foldl (apply_member prov_enter prov_leave) p es) n =
     (case last_event n es of None \<Rightarrow> prov_addr p n | Some e \<Rightarrow> e)"
  by (rule prov_members.table_log)

lemma last_event_append:
  "last_event n (xs @ ys) = (case last_event n ys of None \<Rightarrow> last_event n xs | Some e \<Rightarrow> Some e)"
  by (induction n xs rule: last_event.induct) (auto split: option.split)

lemma join_log_Cons: "join_log (m # ms) = join_log [m] @ join_log ms"
  by (cases m) (auto split: option.split)

lemma provider_run_addr:
  "provider_run dial tell close logger ord p ms w = Some (p', w') \<Longrightarrow>
   prov_addr p' n = (case last_event n (join_log ms) of None \<Rightarrow> prov_addr p n | Some e \<Rightarrow> e)"
proof (induction ms arbitrary: p w)
  case (Cons m ms)
  then obtain q v where q: "provider_receive dial tell close logger ord p m w = Some (q, v)"
    and run: "provider_run dial tell close logger ord q ms v = Some (p', w')"
    by (auto split: option.splits)
  have "prov_addr q n = (case last_event n (join_log [m]) of None \<Rightarrow> prov_addr p n | Some e \<Rightarrow> e)"
    using provider_receive_addr [OF q] prov_addr_events [of p "join_log [m]" n] by simp
  then show ?case using Cons.IH [OF run]
    by (simp add: join_log_Cons [of m ms] last_event_append del: join_log.simps split: option.split)
qed simp

text \<open>Every entry is stored under its own node id.\<close>

definition keyed :: "(string, peer_info) fmap \<Rightarrow> bool" where
  "keyed m \<longleftrightarrow> (\<forall>k i. fmlookup m k = Some i \<longrightarrow> NodeId i = k)"

lemma provider_run_keyed:
  "provider_run dial tell close logger ord p ms w = Some (p', w') \<Longrightarrow> keyed (prov_peers p) \<Longrightarrow> keyed (prov_peers p')"
proof (induction ms arbitrary: p w)
  case (Cons m ms)
  then obtain q v where q: "provider_receive dial tell close logger ord p m w = Some (q, v)"
    and run: "provider_run dial tell close logger ord q ms v = Some (p', w')"
    by (auto split: option.splits)
  have "keyed (prov_peers q)"
    using q Cons.prems(2)
    by (cases m) (auto simp: provider_receive_def keyed_def split: option.splits if_splits)
  then show ?case using Cons.IH [OF run] by simp
qed simp

lemma adopt_append: "adopt_peers (ps @ [i]) = fmupd (NodeId i) i (adopt_peers ps)"
  by (simp add: adopt_peers_def)

lemma peer_values_facts:
  assumes "map_order ord" and "keyed m"
  shows "fmlookup (adopt_peers (peer_values ord m)) k = fmlookup m k"
    and "set (peer_values ord m) = fmran' m" and "distinct (map NodeId (peer_values ord m))"
proof -
  let ?P = "\<lambda>B acc. (\<forall>k. fmlookup (adopt_peers acc) k = (if k \<in> B then fmlookup m k else None)) \<and>
    NodeId ` set acc = B \<and> distinct (map NodeId acc) \<and> (\<forall>i\<in>set acc. fmlookup m (NodeId i) = Some i)"
  have "?P (fmdom' m) (go_range ord m (\<lambda>_ info acc. acc @ [info]) [])"
  proof (rule go_range_rule [OF assms(1)])
    show "?P {} []" by (simp add: adopt_peers_def)
  next
    fix B k v acc assume "k \<notin> B" and v: "fmlookup m k = Some v" and "?P B acc"
    moreover have "NodeId v = k" using assms(2) v by (simp add: keyed_def)
    ultimately show "?P (insert k B) (acc @ [v])" by (auto simp: adopt_append)
  qed
  then have P: "?P (fmdom' m) (peer_values ord m)" by (simp add: peer_values_def)
  then show "fmlookup (adopt_peers (peer_values ord m)) k = fmlookup m k"
    by (auto simp: fmdom'_notD)
  show "distinct (map NodeId (peer_values ord m))" using P by simp
  show "set (peer_values ord m) = fmran' m"
  proof (intro set_eqI iffI)
    fix i assume "i \<in> set (peer_values ord m)"
    then show "i \<in> fmran' m" using P by (auto intro: fmran'I)
  next
    fix i assume "i \<in> fmran' m"
    then obtain k where k: "fmlookup m k = Some i" by (auto elim: fmran'E)
    then have "k \<in> NodeId ` set (peer_values ord m)" using P by (auto simp: fmlookup_dom'_iff)
    then obtain j where "j \<in> set (peer_values ord m)" "NodeId j = k" by auto
    then show "i \<in> set (peer_values ord m)" using P k by auto
  qed
qed

section \<open>Registration\<close>

context delivery
begin

text \<open>Two retried tells in a row, the second only after the first has succeeded.\<close>

lemma retry_then:
  assumes "tellWithRetry sleep tell r m w = Some (None, w')" and "tellWithRetry sleep tell r m' w' = Some (res, w'')"
  shows "\<exists>k k'. 0 < k \<and> k \<le> 10 \<and> k' \<le> 10 \<and>
    inbox w'' = (inbox w)(r := inbox w r @ replicate k m @ replicate k' m')"
proof -
  obtain k where k: "k \<le> 10" "0 < k" "inbox w' = (inbox w)(r := inbox w r @ replicate k m)"
    using retry_copies [OF assms(1) [unfolded tellWithRetry_def]] by (auto simp: send_attempts_def)
  moreover obtain k' where "k' \<le> 10" "inbox w'' = (inbox w')(r := inbox w' r @ replicate k' m')"
    using retry_copies [OF assms(2) [unfolded tellWithRetry_def]] by (auto simp: send_attempts_def)
  ultimately show ?thesis by (intro exI [of _ k] exI [of _ k']) simp
qed

lemma retry_alone:
  assumes "tellWithRetry sleep tell r m w = Some (res, w')"
  shows "\<exists>k\<le>10. inbox w' = (inbox w)(r := inbox w r @ replicate k m)"
  using retry_copies [OF assms [unfolded tellWithRetry_def]] by (auto simp: send_attempts_def)

end

section \<open>Properties\<close>

text \<open>Clients see the provider's membership: after any log of messages the provider knows exactly the
nodes whose last join or leave was a join, under the address of that join, and a client that receives the peer
list the provider then sends has the provider's table, whatever order the list was built in and whatever the
client knew before.\<close>

theorem client_learns_provider_view:
  assumes "provider_run dial tell close logger ord p (ms :: 'p cluster_msg list) w = Some (p', w')"
    and "p = NewProviderActor prov_id" and "map_order ord'"
  shows "client_receive sleep tell' send logger' ord'' c (PeerList (peer_values ord' (prov_peers p')) :: 'q cluster_msg) v =
      Some (c\<lparr>cl_peers := prov_peers p'\<rparr>, v) \<and>
    map_option Addr (fmlookup (prov_peers p') n) = (case last_event n (join_log ms) of None \<Rightarrow> None | Some e \<Rightarrow> e)"
proof -
  have "keyed (prov_peers p')"
    using provider_run_keyed [OF assms(1)] by (simp add: assms(2) NewProviderActor_def keyed_def)
  then have "adopt_peers (peer_values ord' (prov_peers p')) = prov_peers p'"
    using assms(3) by (intro fmap_ext) (simp add: peer_values_facts)
  moreover have "prov_addr p' n = (case last_event n (join_log ms) of None \<Rightarrow> None | Some e \<Rightarrow> e)"
    using provider_run_addr [OF assms(1), of n] by (simp add: assms(2) NewProviderActor_def prov_addr_def cong: option.case_cong)
  ultimately show ?thesis by (simp add: client_receive_def prov_addr_def)
qed

definition demo_joins :: "unit cluster_msg list" where
  "demo_joins = [JoinCluster (Some \<lparr>NodeId = ''a'', Addr = ''h1:1''\<rparr>), JoinCluster (Some \<lparr>NodeId = ''b'', Addr = ''h2:1''\<rparr>),
     LeaveCluster ''a'', JoinCluster (Some \<lparr>NodeId = ''b'', Addr = ''h3:1''\<rparr>)]"

definition demo_provider :: provider_actor where
  "demo_provider = \<lparr>prov_ID = ''provider'', prov_peers = fmupd ''b'' \<lparr>NodeId = ''b'', Addr = ''h3:1''\<rparr> fmempty\<rparr>"

lemma demo_run:
  "provider_run (\<lambda>_. True) (\<lambda>_ _ w. Some (None :: unit option, w)) (\<lambda>_ w. w) (\<lambda>_ w. w) sorted_order
     (NewProviderActor ''provider'') demo_joins () = Some (demo_provider, ())"
  by (simp add: demo_joins_def demo_provider_def NewProviderActor_def provider_receive_def)
    (rule fmap_ext, simp)

theorem client_learns_provider_view_witness:
  "client_receive (\<lambda>_ w. w) (\<lambda>_ _ w. Some (None :: unit option, w)) (\<lambda>_ _ w. Some (None :: unit option, w)) (\<lambda>_ w. w) sorted_order
      (NewProviderClientActor ''a'' ''h1:1'' ''provider'' ''p:1'')
      (PeerList (peer_values sorted_order (prov_peers demo_provider)) :: unit cluster_msg) () =
    Some ((NewProviderClientActor ''a'' ''h1:1'' ''provider'' ''p:1'')\<lparr>cl_peers := prov_peers demo_provider\<rparr>, ()) \<and>
   map_option Addr (fmlookup (prov_peers demo_provider) ''b'') =
     (case last_event ''b'' (join_log demo_joins) of None \<Rightarrow> None | Some e \<Rightarrow> e)"
  by (rule client_learns_provider_view [OF demo_run refl]) simp

text \<open>A node asks for the peer list only when its registration has been delivered: whatever calls are lost or
answered late, what registerAndDiscover adds to the provider's mailbox is at most ten join messages followed
by at most ten discover messages, with no discover message unless there is a join in front of it; so the
list it gets contains the node itself.\<close>

theorem join_before_discover:
  assumes "registerAndDiscover (\<lambda>_ cs. cs) (\<lambda>r. Ref_Tell (plain_codec proto) (faulty_send lost late (node_serve pick proto calls)) (ref_target r))
      (\<lambda>_ cs. cs) c cs = Some cs'"
    and "provider c = Some r"
  shows "\<exists>(k, k') \<in> {(k, k'). k \<le> 10 \<and> k' \<le> 10 \<and> (k' = 0 \<or> 0 < k)}.
    ref_inbox (node_resolve calls) pid_inbox cs' = (ref_inbox (node_resolve calls) pid_inbox cs)
      (ref_target r := ref_inbox (node_resolve calls) pid_inbox cs (ref_target r) @
        replicate k (JoinCluster (Some \<lparr>NodeId = SelfID c, Addr = SelfAddr c\<rparr>)) @
        replicate k' (DiscoverPeers (Some \<lparr>reply_addr = SelfAddr c, ActorId = SelfID c\<rparr>)))"
proof -
  let ?tell = "Ref_Tell (plain_codec proto) (faulty_send lost late (node_serve pick proto calls))"
  let ?join = "JoinCluster (Some \<lparr>NodeId = SelfID c, Addr = SelfAddr c\<rparr>)"
  let ?disc = "DiscoverPeers (Some \<lparr>reply_addr = SelfAddr c, ActorId = SelfID c\<rparr>)"
  have tell: "tellWithRetry (\<lambda>_ cs. cs) (\<lambda>r. ?tell (ref_target r)) r m cs = tellWithRetry (\<lambda>_ cs. cs) ?tell (ref_target r) m cs" for m cs
    by (simp add: tellWithRetry_def)
  obtain res cs1 where j: "tellWithRetry (\<lambda>_ cs. cs) ?tell (ref_target r) ?join cs = Some (res, cs1)"
    using assms by (auto simp: registerAndDiscover_def tell split: option.splits)
  show ?thesis
  proof (cases res)
    case (Some e)
    then have "cs' = cs1" using assms j by (simp add: registerAndDiscover_def tell)
    moreover obtain k where "k \<le> 10" "ref_inbox (node_resolve calls) pid_inbox cs1 = (ref_inbox (node_resolve calls) pid_inbox cs)
        (ref_target r := ref_inbox (node_resolve calls) pid_inbox cs (ref_target r) @ replicate k ?join)"
      using node_rpc.remote.retry_alone [OF j] by auto
    ultimately show ?thesis by (intro bexI [of _ "(k, 0)"]) simp_all
  next
    case None
    then obtain res2 where d: "tellWithRetry (\<lambda>_ cs. cs) ?tell (ref_target r) ?disc cs1 = Some (res2, cs')"
      using assms j by (auto simp: registerAndDiscover_def tell split: option.splits)
    from node_rpc.remote.retry_then [OF j [unfolded None] d]
    obtain k k' where "0 < k" "k \<le> 10" "k' \<le> 10" "ref_inbox (node_resolve calls) pid_inbox cs' = (ref_inbox (node_resolve calls) pid_inbox cs)
        (ref_target r := ref_inbox (node_resolve calls) pid_inbox cs (ref_target r) @ replicate k ?join @ replicate k' ?disc)"
      by auto
    then show ?thesis by (intro bexI [of _ "(k, k')"]) simp_all
  qed
qed

definition prov_calls :: "sys_call list" where
  "prov_calls = [CallSpawn ''provider'' 4]"

definition prov_cell :: "unit cluster_msg list \<Rightarrow> (unit, unit cluster_msg) cell" where
  "prov_cell ms = \<lparr>mailbox = \<lparr>ch = map Msg ms, ch_size = 4, mb_closed = False\<rparr>, actor_state = (), runner = NotStarted,
     stopper = NotCalled, self_stopped = False, senders = [], accepted = ms, rejected = [], delivered = [], mark = 0\<rparr>"

definition demo_client :: client_actor where
  "demo_client = (NewProviderClientActor ''a'' ''h1:1'' ''provider'' ''p:1'')
     \<lparr>provider := Some \<lparr>ref_target = ''provider'', ref_addr = ''p:1''\<rparr>\<rparr>"

lemma prov_resolve: "node_resolve prov_calls ''provider'' = Some 0"
  by (simp add: node_resolve_def node_system_def prov_calls_def system_eval)

lemma prov_tell:
  "length ms < 4 \<Longrightarrow>
   tellWithRetry (\<lambda>_ cs. cs) (\<lambda>r. Ref_Tell (plain_codec (\<lambda>_. True)) (faulty_send (\<lambda>_ _. False) (\<lambda>_ _. False)
     (node_serve (\<lambda>_. 0) (\<lambda>_. True) prov_calls)) (ref_target r)) \<lparr>ref_target = ''provider'', ref_addr = ''p:1''\<rparr> m
     ((\<lambda>_. prov_cell [])(0 := prov_cell ms)) = Some (None, (\<lambda>_. prov_cell [])(0 := prov_cell (ms @ [m])))"
  by (simp add: tellWithRetry_def send_attempts_def numeral_eq_Suc Ref_Tell_def plain_codec_def faulty_send_def
      Server_Send_def prov_resolve PID_Tell_eval pid_of_cell_def prov_cell_def enqueue_check_def enqueue_select_def
      send_ready_def receiver_waits_def send_envelope_def log_tell_def Let_def)

theorem join_before_discover_witness:
  "\<exists>(k, k') \<in> {(k, k'). k \<le> 10 \<and> k' \<le> 10 \<and> (k' = 0 \<or> 0 < k)}.
    ref_inbox (node_resolve prov_calls) pid_inbox ((\<lambda>_. prov_cell [])(0 := prov_cell
        ([] @ [JoinCluster (Some \<lparr>NodeId = ''a'', Addr = ''h1:1''\<rparr>)] @ [DiscoverPeers (Some \<lparr>reply_addr = ''h1:1'', ActorId = ''a''\<rparr>)]))) =
    (ref_inbox (node_resolve prov_calls) pid_inbox ((\<lambda>_. prov_cell [])(0 := prov_cell [])))
      (ref_target \<lparr>ref_target = ''provider'', ref_addr = ''p:1''\<rparr> :=
        ref_inbox (node_resolve prov_calls) pid_inbox ((\<lambda>_. prov_cell [])(0 := prov_cell [])) (ref_target \<lparr>ref_target = ''provider'', ref_addr = ''p:1''\<rparr>) @
        replicate k (JoinCluster (Some \<lparr>NodeId = SelfID demo_client, Addr = SelfAddr demo_client\<rparr>)) @
        replicate k' (DiscoverPeers (Some \<lparr>reply_addr = SelfAddr demo_client, ActorId = SelfID demo_client\<rparr>)))"
proof (rule join_before_discover [where proto = "\<lambda>_. True" and lost = "\<lambda>_ _. False" and late = "\<lambda>_ _. False" and pick = "\<lambda>_. 0"])
  show "provider demo_client = Some \<lparr>ref_target = ''provider'', ref_addr = ''p:1''\<rparr>" by (simp add: demo_client_def)
next
  show "registerAndDiscover (\<lambda>_ cs. cs) (\<lambda>r. Ref_Tell (plain_codec (\<lambda>_. True)) (faulty_send (\<lambda>_ _. False) (\<lambda>_ _. False)
      (node_serve (\<lambda>_. 0) (\<lambda>_. True) prov_calls)) (ref_target r)) (\<lambda>_ cs. cs) demo_client ((\<lambda>_. prov_cell [])(0 := prov_cell [])) =
    Some ((\<lambda>_. prov_cell [])(0 := prov_cell
        ([] @ [JoinCluster (Some \<lparr>NodeId = ''a'', Addr = ''h1:1''\<rparr>)] @ [DiscoverPeers (Some \<lparr>reply_addr = ''h1:1'', ActorId = ''a''\<rparr>)])))"
    using prov_tell [of "[]" "JoinCluster (Some \<lparr>NodeId = ''a'', Addr = ''h1:1''\<rparr>)"]
      prov_tell [of "[JoinCluster (Some \<lparr>NodeId = ''a'', Addr = ''h1:1''\<rparr>)]" "DiscoverPeers (Some \<lparr>reply_addr = ''h1:1'', ActorId = ''a''\<rparr>)"]
    by (simp add: registerAndDiscover_def demo_client_def NewProviderClientActor_def del: fun_upd_apply)
qed

end
