(* ===== verification/P2P.thy ===== *)
theory P2P
  imports Cluster GoNet
begin

text \<open>
  The gossip actor (\<^verbatim>\<open>internal/cluster/p2p.go\<close>).  \<^verbatim>\<open>memberlist\<close> is not code of this
  repository: \<open>create\<close> starts a member list from its configuration, \<open>join\<close> contacts the seeds, both on
  the explicit world; \<open>'l\<close> is the type of member lists.  Its callbacks are operations of the model that
  tell the actor's own mailbox.
\<close>

section \<open>The actor\<close>

record ml_config =
  ml_Name :: string
  ml_BindAddr :: string
  ml_BindPort :: int
  ml_AdvertiseAddr :: string
  ml_AdvertisePort :: int
  ml_transportAddr :: string

record ml_node =
  node_Name :: string
  node_Meta :: string

record ('l, 'p) p2p_actor =
  p2p_SelfID :: string
  BindAddr :: string
  TransportAddr :: string
  Seeds :: "string list"
  ml_list :: "'l option"
  p2p_peers :: "(string, peer_info) fmap"
  p2p_self :: "'p option"

definition NewP2PActor :: "string \<Rightarrow> string \<Rightarrow> string \<Rightarrow> string list \<Rightarrow> ('l, 'p) p2p_actor" where
  "NewP2PActor selfID bindAddr transportAddr seeds =
     \<lparr>p2p_SelfID = selfID, BindAddr = bindAddr, TransportAddr = transportAddr, Seeds = seeds,
      ml_list = None, p2p_peers = fmempty, p2p_self = None\<rparr>"

text \<open>\<^verbatim>\<open>list.Join\<close> with retries; its error is logged and nothing else.\<close>

definition joinWithRetry ::
    "(nat \<Rightarrow> 'w \<Rightarrow> 'w) \<Rightarrow> ('l \<Rightarrow> string list \<Rightarrow> 'w \<Rightarrow> ('e option \<times> 'w) option) \<Rightarrow> (cluster_log \<Rightarrow> 'w \<Rightarrow> 'w) \<Rightarrow>
     string \<Rightarrow> 'l \<Rightarrow> string list \<Rightarrow> 'w \<Rightarrow> 'w option" where
  "joinWithRetry sleep join logger selfID l seeds w =
     (case retry 10 sleep (join l seeds) None w of
        None \<Rightarrow> None
      | Some (None, w') \<Rightarrow> Some w'
      | Some (Some _, w') \<Rightarrow> Some (logger (JoinSeeds selfID seeds) w'))"

definition p2p_config :: "('l, 'p) p2p_actor \<Rightarrow> string \<Rightarrow> int \<Rightarrow> ml_config" where
  "p2p_config p host port =
     \<lparr>ml_Name = p2p_SelfID p, ml_BindAddr = host, ml_BindPort = port, ml_AdvertiseAddr = host, ml_AdvertisePort = port,
      ml_transportAddr = TransportAddr p\<rparr>"

definition p2p_OnStart ::
    "(ml_config \<Rightarrow> 'w \<Rightarrow> 'l option \<times> 'w) \<Rightarrow> (nat \<Rightarrow> 'w \<Rightarrow> 'w) \<Rightarrow> ('l \<Rightarrow> string list \<Rightarrow> 'w \<Rightarrow> ('e option \<times> 'w) option) \<Rightarrow>
     (cluster_log \<Rightarrow> 'w \<Rightarrow> 'w) \<Rightarrow> 'p \<Rightarrow> ('l, 'p) p2p_actor \<Rightarrow> 'w \<Rightarrow> (('l, 'p) p2p_actor \<times> 'w) option" where
  "p2p_OnStart create sleep join logger self p w =
     (let p = p\<lparr>p2p_self := Some self\<rparr> in
      case split_host_port (BindAddr p) of
        None \<Rightarrow> Some (p, logger (InvalidBindAddr (p2p_SelfID p) (BindAddr p)) w)
      | Some (host, portStr) \<Rightarrow>
          (case atoi portStr of
             None \<Rightarrow> Some (p, logger (InvalidBindPort (p2p_SelfID p) portStr) w)
           | Some port \<Rightarrow>
               (case create (p2p_config p host port) w of
                  (None, w') \<Rightarrow> Some (p, logger (CreateFailed (p2p_SelfID p)) w')
                | (Some l, w') \<Rightarrow>
                    (let p = p\<lparr>ml_list := Some l\<rparr> in
                     if Seeds p = [] then Some (p, w')
                     else map_option (Pair p) (joinWithRetry sleep join logger (p2p_SelfID p) l (Seeds p) w')))))"

text \<open>\<open>local_node\<close> is the printed address and the port memberlist is bound to.\<close>

definition LocalAddr :: "('l \<Rightarrow> string \<times> nat) \<Rightarrow> ('l, 'p) p2p_actor \<Rightarrow> string" where
  "LocalAddr local_node p =
     (case ml_list p of None \<Rightarrow> '''' | Some l \<Rightarrow> (let (addr, port) = local_node l in join_host_port addr (itoa port)))"

definition p2p_OnStop :: "('l \<Rightarrow> 'w \<Rightarrow> 'w) \<Rightarrow> ('l \<Rightarrow> 'w \<Rightarrow> 'w) \<Rightarrow> ('l, 'p) p2p_actor \<Rightarrow> 'w \<Rightarrow> 'w" where
  "p2p_OnStop leave shutdown p w = (case ml_list p of None \<Rightarrow> w | Some l \<Rightarrow> shutdown l (leave l w))"

definition p2p_replyPeers ::
    "('p \<Rightarrow> 'p cluster_msg \<Rightarrow> 'w \<Rightarrow> ('e option \<times> 'w) option) \<Rightarrow> string order \<Rightarrow> ('l, 'p) p2p_actor \<Rightarrow> 'p option \<Rightarrow> 'w \<Rightarrow> 'w option" where
  "p2p_replyPeers send ord p replyTo w =
     (case replyTo of
        None \<Rightarrow> Some w
      | Some pid \<Rightarrow> map_option snd (ctx_Send send pid (PeersView (peer_values ord (p2p_peers p))) w))"

definition p2p_receive ::
    "('p \<Rightarrow> 'p cluster_msg \<Rightarrow> 'w \<Rightarrow> ('e option \<times> 'w) option) \<Rightarrow> string order \<Rightarrow> ('l, 'p) p2p_actor \<Rightarrow> 'p cluster_msg \<Rightarrow> 'w \<Rightarrow>
     (('l, 'p) p2p_actor \<times> 'w) option" where
  "p2p_receive send ord p msg w =
     (case msg of
        PeerJoined info \<Rightarrow> Some (p\<lparr>p2p_peers := fmupd (NodeId info) info (p2p_peers p)\<rparr>, w)
      | PeerLeft n \<Rightarrow> Some (p\<lparr>p2p_peers := fmdrop n (p2p_peers p)\<rparr>, w)
      | QueryPeers replyTo \<Rightarrow> map_option (Pair p) (p2p_replyPeers send ord p replyTo w)
      | _ \<Rightarrow> Some (p, w))"

section \<open>Callbacks\<close>

definition NotifyJoin ::
    "('p \<Rightarrow> 'p cluster_msg \<Rightarrow> 'w \<Rightarrow> ('e option \<times> 'w) option) \<Rightarrow> ('l, 'p) p2p_actor \<Rightarrow> ml_node \<Rightarrow> 'w \<Rightarrow> 'w option" where
  "NotifyJoin tell owner n w =
     (case p2p_self owner of
        None \<Rightarrow> Some w
      | Some self \<Rightarrow>
          if node_Name n = p2p_SelfID owner then Some w
          else map_option snd (tell self (PeerJoined \<lparr>NodeId = node_Name n, Addr = node_Meta n\<rparr>) w))"

definition NotifyLeave ::
    "('p \<Rightarrow> 'p cluster_msg \<Rightarrow> 'w \<Rightarrow> ('e option \<times> 'w) option) \<Rightarrow> ('l, 'p) p2p_actor \<Rightarrow> ml_node \<Rightarrow> 'w \<Rightarrow> 'w option" where
  "NotifyLeave tell owner n w =
     (case p2p_self owner of
        None \<Rightarrow> Some w
      | Some self \<Rightarrow> map_option snd (tell self (PeerLeft (node_Name n)) w))"

definition NotifyUpdate ::
    "('p \<Rightarrow> 'p cluster_msg \<Rightarrow> 'w \<Rightarrow> ('e option \<times> 'w) option) \<Rightarrow> ('l, 'p) p2p_actor \<Rightarrow> ml_node \<Rightarrow> 'w \<Rightarrow> 'w option" where
  "NotifyUpdate tell owner n w = NotifyJoin tell owner n w"

text \<open>A negative limit would make the slice panic.\<close>

definition NodeMeta :: "string \<Rightarrow> int \<Rightarrow> string option" where
  "NodeMeta transportAddr limit =
     (let b = transportAddr in if limit < int (length b) then go_slice b 0 limit else Some b)"

text \<open>The other methods of the delegate do nothing: no user messages, broadcasts or state exchange.\<close>

definition NotifyMsg :: "string \<Rightarrow> 'w \<Rightarrow> 'w" where
  "NotifyMsg buf w = w"

definition GetBroadcasts :: "int \<Rightarrow> int \<Rightarrow> string list" where
  "GetBroadcasts overhead limit = []"

definition LocalState :: "bool \<Rightarrow> string" where
  "LocalState join = []"

definition MergeRemoteState :: "string \<Rightarrow> bool \<Rightarrow> 'w \<Rightarrow> 'w" where
  "MergeRemoteState buf join w = w"

section \<open>Membership through gossip\<close>

datatype gossip_event = GJoin ml_node | GLeave ml_node | GUpdate ml_node

definition notify ::
    "('p \<Rightarrow> 'p cluster_msg \<Rightarrow> 'w \<Rightarrow> ('e option \<times> 'w) option) \<Rightarrow> ('l, 'p) p2p_actor \<Rightarrow> gossip_event \<Rightarrow> 'w \<Rightarrow> 'w option" where
  "notify tell owner ev w =
     (case ev of GJoin n \<Rightarrow> NotifyJoin tell owner n w | GLeave n \<Rightarrow> NotifyLeave tell owner n w
      | GUpdate n \<Rightarrow> NotifyUpdate tell owner n w)"

primrec notify_all ::
    "('p \<Rightarrow> 'p cluster_msg \<Rightarrow> 'w \<Rightarrow> ('e option \<times> 'w) option) \<Rightarrow> ('l, 'p) p2p_actor \<Rightarrow> gossip_event list \<Rightarrow> 'w \<Rightarrow> 'w option" where
  "notify_all tell owner [] w = Some w"
| "notify_all tell owner (ev # evs) w =
     (case notify tell owner ev w of None \<Rightarrow> None | Some w' \<Rightarrow> notify_all tell owner evs w')"

primrec p2p_run ::
    "('p \<Rightarrow> 'p cluster_msg \<Rightarrow> 'w \<Rightarrow> ('e option \<times> 'w) option) \<Rightarrow> string order \<Rightarrow> ('l, 'p) p2p_actor \<Rightarrow> 'p cluster_msg list \<Rightarrow> 'w \<Rightarrow>
     (('l, 'p) p2p_actor \<times> 'w) option" where
  "p2p_run send ord p [] w = Some (p, w)"
| "p2p_run send ord p (m # ms) w =
     (case p2p_receive send ord p m w of None \<Rightarrow> None | Some (p', w') \<Rightarrow> p2p_run send ord p' ms w')"

text \<open>What the callbacks report, without the node itself.\<close>

fun gossip_log :: "string \<Rightarrow> gossip_event list \<Rightarrow> (string, string) member_event list" where
  "gossip_log self [] = []"
| "gossip_log self (GJoin n # evs) =
     (if node_Name n = self then gossip_log self evs else Joined (node_Name n) (node_Meta n) # gossip_log self evs)"
| "gossip_log self (GUpdate n # evs) =
     (if node_Name n = self then gossip_log self evs else Joined (node_Name n) (node_Meta n) # gossip_log self evs)"
| "gossip_log self (GLeave n # evs) = Departed (node_Name n) # gossip_log self evs"

text \<open>The messages the callbacks put into the actor's mailbox.\<close>

fun gossip_messages :: "string \<Rightarrow> gossip_event list \<Rightarrow> 'p cluster_msg list" where
  "gossip_messages self [] = []"
| "gossip_messages self (GJoin n # evs) =
     (if node_Name n = self then [] else [PeerJoined \<lparr>NodeId = node_Name n, Addr = node_Meta n\<rparr>]) @ gossip_messages self evs"
| "gossip_messages self (GUpdate n # evs) =
     (if node_Name n = self then [] else [PeerJoined \<lparr>NodeId = node_Name n, Addr = node_Meta n\<rparr>]) @ gossip_messages self evs"
| "gossip_messages self (GLeave n # evs) = PeerLeft (node_Name n) # gossip_messages self evs"

lemma gossip_messages_Cons: "gossip_messages self (ev # evs) = gossip_messages self [ev] @ gossip_messages self evs"
  by (cases ev) simp_all

lemma notify_inbox:
  assumes "p2p_self owner = Some c"
    and told: "\<forall>m w r w'. ready w \<and> (tell :: 'p \<Rightarrow> 'p cluster_msg \<Rightarrow> 'w \<Rightarrow> ('e option \<times> 'w) option) c m w = Some (r, w') \<longrightarrow>
      ready w' \<and> inbox w' = inbox w @ [m]"
    and "ready w" and "notify tell owner ev w = Some w'"
  shows "ready w' \<and> inbox w' = inbox w @ gossip_messages (p2p_SelfID owner) [ev]"
proof -
  have tell: "tell c m w = Some (r, w') \<Longrightarrow> ready w' \<and> inbox w' = inbox w @ [m]" for m r
    using told assms(3) by blast
  show ?thesis
    using assms(1,3,4)
    by (cases ev) (auto simp: notify_def NotifyJoin_def NotifyUpdate_def NotifyLeave_def split: if_splits dest: tell)
qed

lemma notify_all_inbox:
  assumes "p2p_self owner = Some c"
    and told: "\<forall>m w r w'. ready w \<and> (tell :: 'p \<Rightarrow> 'p cluster_msg \<Rightarrow> 'w \<Rightarrow> ('e option \<times> 'w) option) c m w = Some (r, w') \<longrightarrow>
      ready w' \<and> inbox w' = inbox w @ [m]"
  shows "ready w \<Longrightarrow> notify_all tell owner evs w = Some w' \<Longrightarrow>
    ready w' \<and> inbox w' = inbox w @ gossip_messages (p2p_SelfID owner) evs"
proof (induction evs arbitrary: w)
  case (Cons ev evs)
  then obtain w1 where w1: "notify tell owner ev w = Some w1" "notify_all tell owner evs w1 = Some w'"
    by (auto split: option.splits)
  have "ready w1 \<and> inbox w1 = inbox w @ gossip_messages (p2p_SelfID owner) [ev]"
    using notify_inbox [of owner c ready tell inbox w ev w1, OF assms(1) told Cons.prems(1) w1(1)] .
  moreover have "(gossip_messages (p2p_SelfID owner) (ev # evs) :: 'p cluster_msg list) =
      gossip_messages (p2p_SelfID owner) [ev] @ gossip_messages (p2p_SelfID owner) evs"
    by (rule gossip_messages_Cons)
  ultimately show ?case using Cons.IH [of w1] w1(2) by simp
qed simp

text \<open>The actor's peer map as a membership table.\<close>

definition p2p_addr :: "('l, 'p) p2p_actor \<Rightarrow> string \<Rightarrow> string option" where
  "p2p_addr p n = map_option Addr (fmlookup (p2p_peers p) n)"

definition p2p_pure :: "(unit, unit) p2p_actor \<Rightarrow> unit cluster_msg \<Rightarrow> (unit, unit) p2p_actor" where
  "p2p_pure p m = (case p2p_receive (\<lambda>_ _ w. Some (None :: unit option, w)) sorted_order p m () of None \<Rightarrow> p | Some (p', _) \<Rightarrow> p')"

definition p2p_enter :: "(unit, unit) p2p_actor \<Rightarrow> string \<Rightarrow> string \<Rightarrow> (unit, unit) p2p_actor" where
  "p2p_enter p n a = p2p_pure p (PeerJoined \<lparr>NodeId = n, Addr = a\<rparr>)"

definition p2p_leave :: "(unit, unit) p2p_actor \<Rightarrow> string \<Rightarrow> (unit, unit) p2p_actor" where
  "p2p_leave p n = p2p_pure p (PeerLeft n)"

interpretation p2p_members: membership p2p_addr p2p_enter p2p_leave
  by unfold_locales (auto simp: p2p_addr_def p2p_enter_def p2p_leave_def p2p_pure_def p2p_receive_def fun_eq_iff)

text \<open>Processing the callbacks' messages does to any actor's map what the log does to a table.\<close>

lemma p2p_run_peers:
  "\<exists>p'. p2p_run send ord p (gossip_messages self evs) w = Some (p', w) \<and>
     (\<forall>q. p2p_peers p = p2p_peers q \<longrightarrow> p2p_addr p' = p2p_addr (foldl (apply_member p2p_enter p2p_leave) q (gossip_log self evs)))"
proof (induction evs arbitrary: p)
  case Nil
  then show ?case by (simp add: p2p_addr_def fun_eq_iff)
next
  case (Cons ev evs)
  have join: "\<exists>p'. p2p_run send ord p (PeerJoined \<lparr>NodeId = n, Addr = a\<rparr> # gossip_messages self evs) w = Some (p', w) \<and>
      (\<forall>q. p2p_peers p = p2p_peers q \<longrightarrow> p2p_addr p' = p2p_addr (foldl (apply_member p2p_enter p2p_leave) q (Joined n a # gossip_log self evs)))" for n a
  proof -
    let ?r = "p\<lparr>p2p_peers := fmupd n \<lparr>NodeId = n, Addr = a\<rparr> (p2p_peers p)\<rparr>"
    obtain p' where run: "p2p_run send ord ?r (gossip_messages self evs) w = Some (p', w)"
      and q: "\<And>q. p2p_peers ?r = p2p_peers q \<Longrightarrow> p2p_addr p' = p2p_addr (foldl (apply_member p2p_enter p2p_leave) q (gossip_log self evs))"
      using Cons [of ?r] by blast
    have "p2p_peers p = p2p_peers q \<Longrightarrow> p2p_peers ?r = p2p_peers (p2p_enter q n a)" for q
      by (simp add: p2p_enter_def p2p_pure_def p2p_receive_def)
    then show ?thesis using run q by (intro exI [of _ p']) (simp add: p2p_receive_def)
  qed
  have leave: "\<exists>p'. p2p_run send ord p (PeerLeft n # gossip_messages self evs) w = Some (p', w) \<and>
      (\<forall>q. p2p_peers p = p2p_peers q \<longrightarrow> p2p_addr p' = p2p_addr (foldl (apply_member p2p_enter p2p_leave) q (Departed n # gossip_log self evs)))" for n
  proof -
    let ?r = "p\<lparr>p2p_peers := fmdrop n (p2p_peers p)\<rparr>"
    obtain p' where run: "p2p_run send ord ?r (gossip_messages self evs) w = Some (p', w)"
      and q: "\<And>q. p2p_peers ?r = p2p_peers q \<Longrightarrow> p2p_addr p' = p2p_addr (foldl (apply_member p2p_enter p2p_leave) q (gossip_log self evs))"
      using Cons [of ?r] by blast
    have "p2p_peers p = p2p_peers q \<Longrightarrow> p2p_peers ?r = p2p_peers (p2p_leave q n)" for q
      by (simp add: p2p_leave_def p2p_pure_def p2p_receive_def)
    then show ?thesis using run q by (intro exI [of _ p']) (simp add: p2p_receive_def)
  qed
  show ?case
    by (cases ev) (use Cons [of p] join leave in auto)
qed


lemma gossip_log_self: "last_event self (gossip_log self evs) = None \<or> last_event self (gossip_log self evs) = Some None"
  by (induction self evs rule: gossip_log.induct) auto

text \<open>While the mailbox is open, a tell that returns has been accepted.\<close>

lemma open_tell:
  assumes "\<not> mb_closed (mailbox (cs c))" and "PID_Tell pick (pid_of_cell c) m cs = Some (r, cs')"
  shows "\<not> mb_closed (mailbox (cs' c)) \<and> pid_inbox cs' c = pid_inbox cs c @ [m]"
proof -
  have "enqueue_select m (cs c) = [] \<or> enqueue_select m (cs c) = [(send_envelope (Msg m) (cs c), None)]"
    using assms(1) by (simp add: enqueue_select_def)
  moreover have "enqueue_check (mailbox (cs c)) = None" using assms(1) by (simp add: enqueue_check_def)
  ultimately have "r = None" and "cs' = cs(c := log_tell m (send_envelope (Msg m) (cs c), None))"
    using assms(2) by (auto simp: PID_Tell_eval pid_of_cell_def Let_def)
  then show ?thesis using assms(1)
    by (simp add: log_tell_def pid_inbox_def send_envelope_def take_envelope_def split: envelope.split)
qed

text \<open>A cell whose loop has not begun, as while OnStart runs: \<open>k\<close> of \<open>n\<close> places are taken.\<close>

definition filling :: "(nat \<Rightarrow> ('s, 'm) cell) \<Rightarrow> nat \<Rightarrow> nat \<Rightarrow> nat \<Rightarrow> bool" where
  "filling cs c n k \<longleftrightarrow> runner (cs c) = NotStarted \<and> \<not> mb_closed (mailbox (cs c)) \<and>
     ch_size (mailbox (cs c)) = n \<and> length (ch (mailbox (cs c))) = k"

lemma filling_tell:
  assumes "filling cs c n k"
  shows "if k < n then \<exists>cs'. PID_Tell pick (pid_of_cell c) m cs = Some (None, cs') \<and> filling cs' c n (Suc k)
    else PID_Tell pick (pid_of_cell c) m cs = None"
  using assms
  by (auto simp: filling_def PID_Tell_eval pid_of_cell_def Let_def enqueue_check_def enqueue_select_def send_ready_def
      receiver_waits_def send_envelope_def log_tell_def)

lemma filling_notify:
  assumes "p2p_self owner = Some c"
  shows "filling cs c n k \<Longrightarrow> k \<le> n \<Longrightarrow>
    (notify_all (\<lambda>c. PID_Tell pick (pid_of_cell c)) owner evs cs = None) = (n < k + length (gossip_messages (p2p_SelfID owner) evs :: nat cluster_msg list))"
proof (induction evs arbitrary: cs k)
  case (Cons ev evs)
  let ?tell = "\<lambda>c. PID_Tell pick (pid_of_cell c)"
  have quiet: ?case if "gossip_messages (p2p_SelfID owner) [ev] = ([] :: nat cluster_msg list)" "notify ?tell owner ev cs = Some cs"
    using Cons that gossip_messages_Cons [of "p2p_SelfID owner" ev evs, where 'a = nat] by simp
  have told: ?case if "gossip_messages (p2p_SelfID owner) [ev] = [m]"
      "notify ?tell owner ev cs = map_option snd (PID_Tell pick (pid_of_cell c) m cs)" for m
  proof (cases "k < n")
    case True
    then obtain cs' where "PID_Tell pick (pid_of_cell c) m cs = Some (None, cs')" "filling cs' c n (Suc k)"
      using filling_tell [OF Cons.prems(1), of pick m] by auto
    then show ?thesis using Cons.IH [of cs' "Suc k"] True that gossip_messages_Cons [of "p2p_SelfID owner" ev evs, where 'a = nat] by simp
  next
    case False
    then show ?thesis using filling_tell [OF Cons.prems(1), of pick m] that
        gossip_messages_Cons [of "p2p_SelfID owner" ev evs, where 'a = nat] Cons.prems(2) by simp
  qed
  show ?case
    by (cases ev) (use quiet told assms in \<open>auto simp: notify_def NotifyJoin_def NotifyUpdate_def NotifyLeave_def split: if_splits\<close>)
qed simp

section \<open>Properties\<close>

text \<open>C25: The gossip view is the last event: once the callbacks for any sequence of joins, leaves and
updates have returned into the actor's open mailbox, processing that mailbox gives a peer map that holds
exactly the nodes whose last event was a join or an update, with the address announced last, and never
the node itself.\<close>

theorem gossip_view:
  assumes "p2p_self owner = Some c" and "\<not> mb_closed (mailbox (cs c))" and "pid_inbox cs c = []"
    and "notify_all (\<lambda>c. PID_Tell pick (pid_of_cell c)) owner evs cs = Some cs'"
    and "p2p_peers p = fmempty"
  shows "\<exists>p'. p2p_run send ord p (pid_inbox cs' c) w = Some (p', w) \<and>
    map_option Addr (fmlookup (p2p_peers p') n) =
      (case last_event n (gossip_log (p2p_SelfID owner) evs) of None \<Rightarrow> None | Some e \<Rightarrow> e) \<and>
    fmlookup (p2p_peers p') (p2p_SelfID owner) = None"
proof -
  let ?log = "gossip_log (p2p_SelfID owner) evs" and ?q = "NewP2PActor '''' '''' '''' [] :: (unit, unit) p2p_actor"
  have "\<forall>m w r w'. \<not> mb_closed (mailbox (w c)) \<and> PID_Tell pick (pid_of_cell c) m w = Some (r, w') \<longrightarrow>
      \<not> mb_closed (mailbox (w' c)) \<and> pid_inbox w' c = pid_inbox w c @ [m]"
    by (intro allI impI) (elim conjE, rule open_tell)
  from notify_all_inbox [OF assms(1) this assms(2,4)]
  have box: "pid_inbox cs' c = gossip_messages (p2p_SelfID owner) evs" using assms(3) by simp
  obtain p' where run: "p2p_run send ord p (gossip_messages (p2p_SelfID owner) evs) w = Some (p', w)"
    and q: "p2p_addr p' = p2p_addr (foldl (apply_member p2p_enter p2p_leave) ?q ?log)"
    using p2p_run_peers [of send ord p "p2p_SelfID owner" evs w] assms(5) by (auto simp: NewP2PActor_def)
  have view: "p2p_addr p' k = (case last_event k ?log of None \<Rightarrow> None | Some e \<Rightarrow> e)" for k
  proof -
    have "p2p_addr ?q k = None" by (simp add: p2p_addr_def NewP2PActor_def)
    then show ?thesis by (simp add: q p2p_members.table_log cong: option.case_cong)
  qed
  have "p2p_addr p' (p2p_SelfID owner) = None"
    using view [of "p2p_SelfID owner"] gossip_log_self [of "p2p_SelfID owner" evs] by auto
  then show ?thesis using run box view [of n] by (simp add: p2p_addr_def)
qed

text \<open>The address a node reports can be given to others: for any address without brackets (with colons or
not) and any port, a node started on the reported address passes the same host and port to memberlist.\<close>

theorem LocalAddr_roundtrip:
  assumes "ml_list q = Some l" and "local_node l = (addr, port)" and "port < 2 ^ 16"
    and "set addr \<inter> {CHR ''['', CHR '']''} = {}"
  shows "p2p_OnStart create sleep join logger self (p\<lparr>BindAddr := LocalAddr local_node q, Seeds := []\<rparr>) w =
    (let p = p\<lparr>BindAddr := LocalAddr local_node q, Seeds := [], p2p_self := Some self\<rparr> in
     case create (p2p_config p addr (int port)) w of
       (None, w') \<Rightarrow> Some (p, logger (CreateFailed (p2p_SelfID p)) w')
     | (Some l, w') \<Rightarrow> Some (p\<lparr>ml_list := Some l\<rparr>, w'))"
proof -
  have "split_host_port (join_host_port addr (itoa port)) = Some (addr, itoa port)"
    using assms(4) itoa_digits [of _ port] by (intro split_join_host_port) force+
  moreover have "atoi (itoa port) = Some (int port)"
    using assms(3) by (intro atoi_itoa) (simp add: int64_max_def)
  ultimately show ?thesis using assms(1,2)
    by (simp add: p2p_OnStart_def LocalAddr_def Let_def split: option.split prod.split)
qed


definition demo_gossip :: "gossip_event list" where
  "demo_gossip = [GJoin \<lparr>node_Name = ''b'', node_Meta = ''h2:1''\<rparr>, GJoin \<lparr>node_Name = ''a'', node_Meta = ''h1:1''\<rparr>,
     GJoin \<lparr>node_Name = ''c'', node_Meta = ''h3:1''\<rparr>, GUpdate \<lparr>node_Name = ''b'', node_Meta = ''h4:1''\<rparr>,
     GLeave \<lparr>node_Name = ''c'', node_Meta = ''h3:1''\<rparr>]"

definition demo_p2p :: "(unit, nat) p2p_actor" where
  "demo_p2p = (NewP2PActor ''a'' ''h1:7946'' ''h1:1'' [])\<lparr>p2p_self := Some 0\<rparr>"

definition p2p_cell :: "nat cluster_msg list \<Rightarrow> (unit, nat cluster_msg) cell" where
  "p2p_cell ms = \<lparr>mailbox = \<lparr>ch = map Msg ms, ch_size = 64, mb_closed = False\<rparr>, actor_state = (), runner = NotStarted,
     stopper = NotCalled, self_stopped = False, senders = [], accepted = ms, rejected = [], delivered = [], mark = 0\<rparr>"

lemma p2p_tell:
  "length ms < 64 \<Longrightarrow> PID_Tell (\<lambda>_. 0) (pid_of_cell 0) m ((\<lambda>_. p2p_cell [])(0 := p2p_cell ms)) =
     Some (None, (\<lambda>_. p2p_cell [])(0 := p2p_cell (ms @ [m])))"
  by (simp add: PID_Tell_eval pid_of_cell_def p2p_cell_def enqueue_check_def enqueue_select_def
      send_ready_def receiver_waits_def send_envelope_def log_tell_def Let_def)

theorem gossip_view_witness:
  "\<exists>p'. p2p_run (\<lambda>_ _ w. Some (None :: unit option, w)) sorted_order demo_p2p
      (pid_inbox ((\<lambda>_. p2p_cell [])(0 := p2p_cell (gossip_messages ''a'' demo_gossip))) 0) () = Some (p', ()) \<and>
    map_option Addr (fmlookup (p2p_peers p') ''b'') =
      (case last_event ''b'' (gossip_log (p2p_SelfID demo_p2p) demo_gossip) of None \<Rightarrow> None | Some e \<Rightarrow> e) \<and>
    fmlookup (p2p_peers p') (p2p_SelfID demo_p2p) = None"
proof (rule gossip_view [where pick = "\<lambda>_. 0" and cs = "(\<lambda>_. p2p_cell [])(0 := p2p_cell [])"])
  show "p2p_self demo_p2p = Some 0" "p2p_peers demo_p2p = fmempty" by (simp_all add: demo_p2p_def NewP2PActor_def)
  show "\<not> mb_closed (mailbox (((\<lambda>_. p2p_cell [])(0 := p2p_cell [])) 0))" "pid_inbox ((\<lambda>_. p2p_cell [])(0 := p2p_cell [])) 0 = []"
    by (simp_all add: p2p_cell_def pid_inbox_def)
  show "notify_all (\<lambda>c. PID_Tell (\<lambda>_. 0) (pid_of_cell c)) demo_p2p demo_gossip ((\<lambda>_. p2p_cell [])(0 := p2p_cell [])) =
      Some ((\<lambda>_. p2p_cell [])(0 := p2p_cell (gossip_messages ''a'' demo_gossip)))"
    by (simp add: demo_gossip_def notify_def NotifyJoin_def NotifyUpdate_def NotifyLeave_def p2p_tell demo_p2p_def
        NewP2PActor_def del: fun_upd_apply)
qed

theorem LocalAddr_roundtrip_witness:
  "p2p_OnStart (\<lambda>_ w. (Some (), w)) (\<lambda>_ w. w) (\<lambda>_ _ w. Some (None :: unit option, w)) (\<lambda>_ w. w) (0::nat)
     (demo_p2p\<lparr>BindAddr := LocalAddr (\<lambda>_. (''::1'', 7946)) (demo_p2p\<lparr>ml_list := Some ()\<rparr>), Seeds := []\<rparr>) () =
   (let p = demo_p2p\<lparr>BindAddr := LocalAddr (\<lambda>_. (''::1'', 7946)) (demo_p2p\<lparr>ml_list := Some ()\<rparr>), Seeds := [], p2p_self := Some 0\<rparr> in
    case (\<lambda>_ w. (Some (), w)) (p2p_config p ''::1'' (int 7946)) () of
      (None, w') \<Rightarrow> Some (p, (\<lambda>_ w. w) (CreateFailed (p2p_SelfID p)) w')
    | (Some l, w') \<Rightarrow> Some (p\<lparr>ml_list := Some l\<rparr>, w'))"
  by (rule LocalAddr_roundtrip [where local_node = "\<lambda>_. (''::1'', 7946)" and l = "()" and addr = "''::1''" and port = 7946]) simp_all


text \<open>C40: Callbacks that memberlist makes while the node is still joining (OnStart has not returned, so the
loop that empties the mailbox has not begun) return exactly when their messages fit into the mailbox: with
the default size a node that meets more than 64 peers when it joins hangs inside Spawn.\<close>

theorem join_callbacks_bounded:
  assumes "p2p_self owner = Some c" and "start_cell a s (int n) = Some x" and "cs c = x"
  shows "(notify_all (\<lambda>c. PID_Tell pick (pid_of_cell c)) owner evs cs = None) =
    (n < length (gossip_messages (p2p_SelfID owner) evs :: nat cluster_msg list))"
proof -
  have "filling cs c n 0" using assms(2,3) by (auto simp: filling_def start_cell_def newMailbox_def split: if_splits)
  from filling_notify [OF assms(1) this, of pick evs] show ?thesis by simp
qed

definition many_peers :: "gossip_event list" where
  "many_peers = map (\<lambda>i. GJoin \<lparr>node_Name = ''n'' @ itoa i, node_Meta = ''h''\<rparr>) [0..<65]"

theorem join_callbacks_bounded_witness:
  "(notify_all (\<lambda>c. PID_Tell (\<lambda>_. 0) (pid_of_cell c)) demo_p2p many_peers ((\<lambda>_. p2p_cell [])) = None) =
   (64 < length (gossip_messages (p2p_SelfID demo_p2p) many_peers :: nat cluster_msg list))"
  by (rule join_callbacks_bounded [where a = "\<lparr>OnStart = (\<lambda>s. s), Receive = (\<lambda>s _. s), OnStop = (\<lambda>s. s)\<rparr>" and s = "()" and c = 0])
    (simp_all add: demo_p2p_def p2p_cell_def start_cell_def newMailbox_def)

end
