(* ===== verification/WorkerSpec.thy ===== *)
theory WorkerSpec
  imports GoNet
begin

text \<open>
  The \<^verbatim>\<open>-workers\<close> flag of \<^verbatim>\<open>cmd/cluster-node/main.go\<close>:
  \<^verbatim>\<open>parseWorkers\<close> and the entries it makes.
\<close>

section \<open>Parsing\<close>

record worker_addr =
  wa_id :: string
  wa_addr :: string

datatype parse_error = InvalidEntry string

text \<open>\<^verbatim>\<open>strings.SplitN(s, "@", 2)\<close>: one part without an at sign, else two.\<close>

definition split_at_sign :: "string \<Rightarrow> string list" where
  "split_at_sign s = (case split_first CHR ''@'' s of None \<Rightarrow> [s] | Some (a, b) \<Rightarrow> [a, b])"

fun parse_entries :: "string list \<Rightarrow> worker_addr list \<Rightarrow> parse_error + worker_addr list" where
  "parse_entries [] workers = Inr workers"
| "parse_entries (e # es) workers =
     (let parts = split_at_sign (trim_space e) in
      if length parts \<noteq> 2 \<or> parts ! 0 = '''' \<or> parts ! 1 = '''' then Inl (InvalidEntry e)
      else parse_entries es (workers @ [\<lparr>wa_id = parts ! 0, wa_addr = parts ! 1\<rparr>]))"

definition parseWorkers :: "string \<Rightarrow> parse_error + worker_addr list" where
  "parseWorkers spec =
     (let spec = trim_space spec in if spec = '''' then Inr [] else parse_entries (split_all CHR '','' spec) [])"

section \<open>Facts\<close>

definition entry_of :: "string \<Rightarrow> worker_addr option" where
  "entry_of e =
     (case split_first CHR ''@'' (trim_space e) of
        None \<Rightarrow> None | Some (a, b) \<Rightarrow> if a = '''' \<or> b = '''' then None else Some \<lparr>wa_id = a, wa_addr = b\<rparr>)"

lemma parse_entries_Cons:
  "parse_entries (e # es) ws = (case entry_of e of None \<Rightarrow> Inl (InvalidEntry e) | Some w \<Rightarrow> parse_entries es (ws @ [w]))"
  by (auto simp: split_at_sign_def entry_of_def Let_def split: option.split)

lemma parse_entries_eq:
  "parse_entries es ws = (case find (\<lambda>e. entry_of e = None) es of
     Some e \<Rightarrow> Inl (InvalidEntry e) | None \<Rightarrow> Inr (ws @ map (the \<circ> entry_of) es))"
proof (induction es arbitrary: ws)
  case (Cons e es)
  then show ?case by (cases "entry_of e") (simp_all add: parse_entries_Cons del: parse_entries.simps(2) split: option.split)
qed simp

lemma set_strip_front: "set (strip_front ws s) \<subseteq> set s"
proof (induction ws s rule: strip_front.induct)
  case (1 ws s)
  show ?case
  proof (cases "find (\<lambda>w. w \<noteq> [] \<and> take (length w) s = w) ws")
    case None
    then show ?thesis by (simp add: strip_front.simps)
  next
    case (Some w)
    then have "strip_front ws s = strip_front ws (drop (length w) s)" by (simp add: strip_front.simps)
    then show ?thesis using 1 [OF Some] set_drop_subset [of "length w" s] by auto
  qed
qed

lemma set_trim_space: "set (trim_space s) \<subseteq> set s"
  using set_strip_front [of "map rev space_runes" "rev (strip_front space_runes s)"] set_strip_front [of space_runes s]
  by (auto simp: trim_space_def)

lemma split_all_parts: "p \<in> set (split_all sep s) \<Longrightarrow> sep \<notin> set p \<and> set p \<subseteq> set s"
proof (induction s arbitrary: p)
  case (Cons c s)
  obtain q qs where q: "split_all sep s = q # qs" by (cases "split_all sep s") auto
  have "p = [] \<or> p \<in> set (split_all sep s) \<or> (c \<noteq> sep \<and> p = c # q)"
    using Cons.prems q by (auto split: if_splits)
  then show ?case using Cons.IH [of p] Cons.IH [of q] q by auto
qed simp

text \<open>What an entry looks like.\<close>

definition well_formed_worker :: "worker_addr \<Rightarrow> bool" where
  "well_formed_worker w \<longleftrightarrow> wa_id w \<noteq> '''' \<and> wa_addr w \<noteq> '''' \<and> CHR ''@'' \<notin> set (wa_id w) \<and>
     CHR '','' \<notin> set (wa_id w) \<and> CHR '','' \<notin> set (wa_addr w)"

lemma entry_of_well_formed:
  assumes "entry_of e = Some w" and "CHR '','' \<notin> set e"
  shows "well_formed_worker w"
proof -
  obtain a b where ab: "split_first CHR ''@'' (trim_space e) = Some (a, b)" "a \<noteq> ''''" "b \<noteq> ''''" "w = \<lparr>wa_id = a, wa_addr = b\<rparr>"
    using assms(1) by (auto simp: entry_of_def split: option.splits if_splits)
  have "trim_space e = a @ CHR ''@'' # b" "CHR ''@'' \<notin> set a" using split_first_Some [OF ab(1)] by simp_all
  then show ?thesis using ab set_trim_space [of e] assms(2) by (auto simp: well_formed_worker_def)
qed

text \<open>Entries as they are written, and those that survive trimming.\<close>

definition print_worker :: "worker_addr \<Rightarrow> string" where
  "print_worker w = wa_id w @ ''@'' @ wa_addr w"

definition print_workers :: "worker_addr list \<Rightarrow> string" where
  "print_workers ws = join_with '','' (map print_worker ws)"

definition plain_worker :: "worker_addr \<Rightarrow> bool" where
  "plain_worker w \<longleftrightarrow> well_formed_worker w \<and> is_graphic (hd (wa_id w)) \<and> is_graphic (last (wa_addr w))"

lemma entry_of_print:
  assumes "plain_worker w"
  shows "entry_of (print_worker w) = Some w"
proof -
  have "trim_space (print_worker w) = print_worker w"
    using assms by (intro trim_space_id) (auto simp: plain_worker_def well_formed_worker_def print_worker_def)
  then show ?thesis using assms by (auto simp: entry_of_def print_worker_def plain_worker_def well_formed_worker_def)
qed

lemma hd_join_with: "ps \<noteq> [] \<Longrightarrow> hd ps \<noteq> [] \<Longrightarrow> hd (join_with sep ps) = hd (hd ps)"
  by (induction sep ps rule: join_with.induct) auto

lemma last_join_with: "ps \<noteq> [] \<Longrightarrow> last ps \<noteq> [] \<Longrightarrow> last (join_with sep ps) = last (last ps)"
  by (cases ps rule: rev_cases) (auto simp: join_with_snoc)

section \<open>Properties\<close>

text \<open>C30: A list of workers survives printing and parsing: for any non-empty list of worker ids without at
signs, commas or surrounding space, and addresses without commas, parsing id@addr,id@addr,... gives the
list back, so nothing is dropped, reordered or cut at a second at sign.\<close>

theorem parse_print_workers:
  assumes "list_all plain_worker ws" and "ws \<noteq> []"
  shows "parseWorkers (print_workers ws) = Inr ws"
proof -
  let ?ps = "map print_worker ws"
  have plain: "w \<in> set ws \<Longrightarrow> plain_worker w" for w using assms(1) by (simp add: list_all_iff)
  have ne: "w \<in> set ws \<Longrightarrow> print_worker w \<noteq> []" for w by (simp add: print_worker_def)
  have "hd (print_workers ws) = hd (wa_id (hd ws))"
    using hd_join_with [of ?ps "'',''"] assms(2) ne [of "hd ws"] plain [of "hd ws"]
    by (simp add: print_workers_def hd_map print_worker_def plain_worker_def well_formed_worker_def)
  moreover have "last (print_workers ws) = last (wa_addr (last ws))"
    using last_join_with [of ?ps "'',''"] assms(2) ne [of "last ws"] plain [of "last ws"]
    by (simp add: print_workers_def last_map print_worker_def plain_worker_def well_formed_worker_def)
  ultimately have "trim_space (print_workers ws) = print_workers ws"
    using plain assms(2) by (intro trim_space_id) (simp add: plain_worker_def)
  moreover have "print_workers ws \<noteq> []"
    using assms(2) ne [of "hd ws"] by (cases ws; cases "tl ws") (auto simp: print_workers_def)
  moreover have "split_all CHR '','' (print_workers ws) = ?ps"
    unfolding print_workers_def using assms(2) plain
    by (intro split_all_join) (auto simp: print_worker_def plain_worker_def well_formed_worker_def)
  moreover have "find (\<lambda>e. entry_of e = None) ?ps = None"
    using entry_of_print plain by (auto simp: find_None_iff)
  moreover have "map (the \<circ> entry_of) ?ps = ws"
    using entry_of_print plain by (auto simp: o_def intro!: map_idI)
  ultimately show ?thesis by (simp add: parseWorkers_def parse_entries_eq)
qed

theorem parse_print_workers_witness:
  "parseWorkers ''w1@host1:9001,w2@[::1]:9002'' =
     Inr [\<lparr>wa_id = ''w1'', wa_addr = ''host1:9001''\<rparr>, \<lparr>wa_id = ''w2'', wa_addr = ''[::1]:9002''\<rparr>]"
  using parse_print_workers [of "[\<lparr>wa_id = ''w1'', wa_addr = ''host1:9001''\<rparr>, \<lparr>wa_id = ''w2'', wa_addr = ''[::1]:9002''\<rparr>]"]
  by (simp add: print_workers_def print_worker_def plain_worker_def well_formed_worker_def is_graphic_def)

text \<open>C31: The parser's results are well-formed: every worker it returns has a non-empty id and address, no comma
in either and no at sign in the id; and it fails exactly when some entry has no such reading, naming the
first one.\<close>

theorem parseWorkers_well_formed:
  "case parseWorkers spec of
     Inr ws \<Rightarrow> list_all well_formed_worker ws \<and> (trim_space spec = '''' \<and> ws = [] \<or>
       map Some ws = map entry_of (split_all CHR '','' (trim_space spec)))
   | Inl (InvalidEntry e) \<Rightarrow> \<exists>xs ys. split_all CHR '','' (trim_space spec) = xs @ e # ys \<and> entry_of e = None \<and> None \<notin> entry_of ` set xs"
proof (cases "trim_space spec = ''''")
  case True
  then show ?thesis by (simp add: parseWorkers_def)
next
  case ne: False
  let ?es = "split_all CHR '','' (trim_space spec)"
  show ?thesis
  proof (cases "find (\<lambda>e. entry_of e = None) ?es")
    case None
    then have some: "e \<in> set ?es \<Longrightarrow> entry_of e = Some (the (entry_of e))" for e by (auto simp: find_None_iff)
    have "list_all well_formed_worker (map (the \<circ> entry_of) ?es)"
    proof (unfold list_all_iff, rule ballI)
      fix w assume "w \<in> set (map (the \<circ> entry_of) ?es)"
      then obtain e where "e \<in> set ?es" "w = the (entry_of e)" by auto
      then show "well_formed_worker w" using some [of e] split_all_parts [of e] entry_of_well_formed [of e w] by simp
    qed
    moreover have "map Some (map (the \<circ> entry_of) ?es) = map entry_of ?es" using some by simp
    ultimately show ?thesis using ne None by (simp add: parseWorkers_def parse_entries_eq)
  next
    case (Some e)
    then obtain i where i: "i < length ?es" "entry_of (?es ! i) = None" "e = ?es ! i" "\<forall>j<i. entry_of (?es ! j) \<noteq> None"
      by (auto simp: find_Some_iff)
    have "?es = take i ?es @ e # drop (Suc i) ?es" using id_take_nth_drop [OF i(1)] i(3) by simp
    moreover have "None \<notin> entry_of ` set (take i ?es)" 
    proof
      assume "None \<in> entry_of ` set (take i ?es)"
      then obtain j where "j < i" "entry_of (?es ! j) = None" using i(1) by (fastforce simp: in_set_conv_nth)
      then show False using i(4) by blast
    qed
    ultimately show ?thesis using ne Some i(2,3) by (auto simp: parseWorkers_def parse_entries_eq)
  qed
qed

end
