(* ===== verification/ClusterNode.thy ===== *)
theory ClusterNode
  imports Verdict P2P WorkerSpec
begin

text \<open>
  The program \<^verbatim>\<open>cmd/cluster-node/main.go\<close>: one process per role.  A role's
  function gives the lines it logs or prints, how the process goes on, and the state of the actor system
  or the file system where it changes.  Parameters: whether \<^verbatim>\<open>net.Listen\<close> and
  \<^verbatim>\<open>grpc.NewClient\<close> accept an address, and for the coordinator the telling of
  StartTraining and the wait for the result or the timeout (\<open>await\<close>).
\<close>

section \<open>Roles\<close>

datatype node_actor =
    WorkerNode "ref worker_actor"
  | AggregatorNode "ref aggregator_actor"
  | CoordinatorNode "ref coordinator_actor"
  | ProviderNode provider_actor
  | ClientNode client_actor
  | GossipNode "(unit, pid) p2p_actor"

datatype node_fatal =
    Requires string
  | ListenFailed string
  | UnknownRole string
  | UnknownClusterMode string
  | SpawnFailed string spawn_error
  | NodeDial string "unit remote_error"
  | BadWorkers parse_error
  | LoadDataset data_error
  | WriteFailed write_error
  | StartFailed mail_error
  | RoundTimedOut

datatype round_failure = CannotStart mail_error | NoResultInTime

datatype node_line =
    Listening string string
  | JoinedProvider string string
  | JoinedGossip string string
  | Ready string
  | TrainTest string nat nat
  | CentralBaseline string float64
  | Printed string

datatype node_exit = UsageError | Fatal node_fatal | Serving | NodeFinished | NodeCrashed | NodeHangs

text \<open>
  \<open>spawned\<close> lists the actors in the order of their cells.  A failing spawn ends the process; a
  start hook that never returns leaves it hanging (\<open>starts\<close>).
\<close>

record node_process =
  np_system :: actor_system
  np_spawned :: "node_actor list"

definition new_process :: node_process where
  "new_process = \<lparr>np_system = NewActorSystem, np_spawned = []\<rparr>"

definition node_spawn ::
    "(node_actor \<Rightarrow> bool) \<Rightarrow> string \<Rightarrow> node_actor \<Rightarrow> node_process \<Rightarrow> node_exit option \<times> node_process" where
  "node_spawn starts aid a np =
     (case Spawn aid (np_system np) of
        (sys, Return (Inl e)) \<Rightarrow> (Some (Fatal (SpawnFailed aid e)), np\<lparr>np_system := sys\<rparr>)
      | (sys, Return (Inr pid)) \<Rightarrow>
          (if starts a then None else Some NodeHangs, np\<lparr>np_system := sys, np_spawned := np_spawned np @ [a]\<rparr>)
      | (sys, Panic) \<Rightarrow> (Some NodeCrashed, np\<lparr>np_system := sys\<rparr>)
      | (sys, Blocked) \<Rightarrow> (Some NodeHangs, np\<lparr>np_system := sys\<rparr>))"

text \<open>Spawn the role's actor and serve for ever.\<close>

definition spawn_and_serve ::
    "(node_actor \<Rightarrow> bool) \<Rightarrow> string \<Rightarrow> node_actor \<Rightarrow> node_process \<Rightarrow> node_line list \<times> node_exit \<times> node_process" where
  "spawn_and_serve starts nodeID a np =
     (case node_spawn starts nodeID a np of
        (Some e, np') \<Rightarrow> ([], e, np')
      | (None, np') \<Rightarrow> ([Ready nodeID], Serving, np'))"

definition runProvider :: "(node_actor \<Rightarrow> bool) \<Rightarrow> string \<Rightarrow> node_process \<Rightarrow> node_line list \<times> node_exit \<times> node_process" where
  "runProvider starts nodeID np = spawn_and_serve starts nodeID (ProviderNode (NewProviderActor nodeID)) np"

definition runWorker ::
    "(string \<Rightarrow> bool) \<Rightarrow> (node_actor \<Rightarrow> bool) \<Rightarrow> string \<Rightarrow> string \<Rightarrow> string \<Rightarrow> node_process \<Rightarrow>
     node_line list \<times> node_exit \<times> node_process" where
  "runWorker dial starts nodeID aggregatorAddr aggregatorID np =
     (if aggregatorAddr = '''' then ([], Fatal (Requires ''-aggregator-addr''), np)
      else (case NewRef dial aggregatorAddr aggregatorID of
          Inl e \<Rightarrow> ([], Fatal (NodeDial aggregatorID e), np)
        | Inr aggregatorRef \<Rightarrow>
            spawn_and_serve starts nodeID (WorkerNode \<lparr>WorkerID = nodeID, w_Aggregator = aggregatorRef\<rparr>) np))"

definition runAggregator ::
    "(string \<Rightarrow> bool) \<Rightarrow> (node_actor \<Rightarrow> bool) \<Rightarrow> string \<Rightarrow> string \<Rightarrow> string \<Rightarrow> node_process \<Rightarrow>
     node_line list \<times> node_exit \<times> node_process" where
  "runAggregator dial starts nodeID coordinatorAddr coordinatorID np =
     (if coordinatorAddr = '''' then ([], Fatal (Requires ''-coordinator-addr''), np)
      else (case NewRef dial coordinatorAddr coordinatorID of
          Inl e \<Rightarrow> ([], Fatal (NodeDial coordinatorID e), np)
        | Inr coordinatorRef \<Rightarrow>
            spawn_and_serve starts nodeID (AggregatorNode (NewAggregatorActor nodeID coordinatorRef)) np))"

section \<open>The cluster layer\<close>

text \<open>None as the exit: go on with the role.\<close>

definition joinCluster ::
    "(node_actor \<Rightarrow> bool) \<Rightarrow> string \<Rightarrow> string \<Rightarrow> string \<Rightarrow> string \<Rightarrow> string \<Rightarrow> string \<Rightarrow> string \<Rightarrow> node_process \<Rightarrow>
     node_line list \<times> node_exit option \<times> node_process" where
  "joinCluster starts nodeID selfAddr mode providerAddr providerID p2pBind p2pSeeds np =
     (let clusterID = nodeID @ ''-cluster'' in
      if mode = ''none'' then ([], None, np)
      else if mode = ''provider'' then
        (if providerAddr = '''' then ([], Some (Fatal (Requires ''-provider-addr'')), np)
         else (case node_spawn starts clusterID (ClientNode (NewProviderClientActor clusterID selfAddr providerID providerAddr)) np of
             (Some e, np') \<Rightarrow> ([], Some e, np')
           | (None, np') \<Rightarrow> ([JoinedProvider nodeID providerAddr], None, np')))
      else if mode = ''p2p'' then
        (let seeds = (if p2pSeeds = '''' then [] else split_all CHR '','' p2pSeeds) in
         case node_spawn starts clusterID (GossipNode (NewP2PActor clusterID p2pBind selfAddr seeds)) np of
           (Some e, np') \<Rightarrow> ([], Some e, np')
         | (None, np') \<Rightarrow> ([JoinedGossip nodeID p2pBind], None, np'))
      else ([], Some (Fatal (UnknownClusterMode mode)), np))"


section \<open>The coordinator\<close>

definition ansi :: "string \<Rightarrow> string" where
  "ansi c = CHR 0x1B # ''['' @ c @ ''m''"

definition ansiReset :: string where "ansiReset = ansi ''0''"
definition ansiBold :: string where "ansiBold = ansi ''1''"
definition ansiCyan :: string where "ansiCyan = ansi ''36''"
definition ansiGreen :: string where "ansiGreen = ansi ''32''"
definition ansiRed :: string where "ansiRed = ansi ''31''"

definition headline :: "string \<Rightarrow> string" where
  "headline s = ansiBold @ ansiCyan @ s @ ansiReset"

text \<open>The formats \<^verbatim>\<open>%-24s\<close> and, as the parameter \<open>fmt4\<close>, \<^verbatim>\<open>%.4f\<close>.\<close>

definition metrics_line :: "(float64 \<Rightarrow> string) \<Rightarrow> string \<Rightarrow> metrics \<Rightarrow> string" where
  "metrics_line fmt4 title m =
     ''  '' @ title @ replicate (24 - length title) (CHR '' '') @ '' accuracy='' @ fmt4 (Accuracy m) @
     ''  precision='' @ fmt4 (Precision m) @ ''  recall='' @ fmt4 (Recall m) @ ''  f1='' @ fmt4 (F1 m)"

definition verdict_line :: "bool \<Rightarrow> string" where
  "verdict_line pass =
     (let (status, color) = (if pass then (''PASS'', ansiGreen) else (''FAIL'', ansiRed))
      in ''  '' @ ansiBold @ color @ ''>>> '' @ status @ '' <<<'' @ ansiReset)"

definition printResult :: "fpu \<Rightarrow> (float64 \<Rightarrow> string) \<Rightarrow> metrics \<Rightarrow> metrics \<Rightarrow> string list" where
  "printResult fp fmt4 federated central =
     (let relative = relative_accuracy fp federated central;
          line = replicate 62 (CHR ''='')
      in ['''', headline line, headline ''  REZULTAT FEDERATIVNE RUNDE'', headline line,
          metrics_line fmt4 ''Federativni model:'' federated,
          metrics_line fmt4 ''Centralni baseline:'' central,
          ''  Odnos federativni/baseline: '' @ fmt4 relative @ ''  (cilj >= 0.95)'',
          '''', verdict_line (passes fp relative), headline line, ''''])"

fun dial_workers :: "(string \<Rightarrow> bool) \<Rightarrow> worker_addr list \<Rightarrow> ref list \<Rightarrow> node_fatal + ref list" where
  "dial_workers dial [] refs = Inr refs"
| "dial_workers dial (w # ws) refs =
     (case NewRef dial (wa_addr w) (wa_id w) of
        Inl e \<Rightarrow> Inl (NodeDial (wa_id w) e)
      | Inr r \<Rightarrow> dial_workers dial ws (refs @ [r]))"

record coordinator_flags =
  cf_aggregatorAddr :: string
  cf_aggregatorID :: string
  cf_workers :: string
  cf_data :: string
  cf_partitionsDir :: string
  cf_trainRatio :: float64
  cf_seed :: int64

text \<open>From the spawned coordinator on: tell it to start, and wait.\<close>

definition coordinate ::
    "fpu \<Rightarrow> (float64 \<Rightarrow> string) \<Rightarrow> (node_actor \<Rightarrow> bool) \<Rightarrow>
     (ref coordinator_actor \<Rightarrow> string list \<Rightarrow> filesystem \<Rightarrow> round_failure + round_result) \<Rightarrow>
     string \<Rightarrow> ref coordinator_actor \<Rightarrow> string list \<Rightarrow> metrics \<Rightarrow> filesystem \<Rightarrow> node_process \<Rightarrow>
     node_line list \<times> node_exit \<times> node_process" where
  "coordinate fp fmt4 starts await nodeID coordinator partitionPaths central fs np =
     (case node_spawn starts nodeID (CoordinatorNode coordinator) np of
        (Some e, np') \<Rightarrow> ([], e, np')
      | (None, np') \<Rightarrow>
          (case Lookup nodeID (np_system np') of
             Return (Some _) \<Rightarrow>
               (case await coordinator partitionPaths fs of
                  Inl (CannotStart e) \<Rightarrow> ([], Fatal (StartFailed e), np')
                | Inl NoResultInTime \<Rightarrow> ([], Fatal RoundTimedOut, np')
                | Inr res \<Rightarrow> (map Printed (printResult fp fmt4 (rr_Metrics res) central), NodeFinished, np'))
           | Return None \<Rightarrow> ([], NodeCrashed, np')
           | Panic \<Rightarrow> ([], NodeCrashed, np')
           | Blocked \<Rightarrow> ([], NodeHangs, np')))"

definition runCoordinator ::
    "fpu \<Rightarrow> rng \<Rightarrow> (float64 \<Rightarrow> string) \<Rightarrow> (string \<Rightarrow> filesystem \<Rightarrow> filesystem option) \<Rightarrow> runtime \<Rightarrow> (string \<Rightarrow> bool) \<Rightarrow>
     (node_actor \<Rightarrow> bool) \<Rightarrow> (ref coordinator_actor \<Rightarrow> string list \<Rightarrow> filesystem \<Rightarrow> round_failure + round_result) \<Rightarrow>
     string \<Rightarrow> coordinator_flags \<Rightarrow> filesystem \<Rightarrow> node_process \<Rightarrow> (node_line list \<times> node_exit \<times> node_process) \<times> filesystem" where
  "runCoordinator fp rng fmt4 mkdir rt dial starts await nodeID cf fs np =
     (let stop = (\<lambda>out e fs'. ((out, e, np), fs')) in
      if cf_aggregatorAddr cf = '''' then stop [] (Fatal (Requires ''-aggregator-addr'')) fs
      else (case parseWorkers (cf_workers cf) of
          Inl e \<Rightarrow> stop [] (Fatal (BadWorkers e)) fs
        | Inr workers \<Rightarrow>
            if workers = [] then stop [] (Fatal (Requires ''-workers'')) fs
            else (case Load fs (cf_data cf) of
                Inl e \<Rightarrow> stop [] (Fatal (LoadDataset e)) fs
              | Inr records \<Rightarrow>
                  (case SplitTrainTest fp rng records (cf_trainRatio cf) (cf_seed cf) of
                     None \<Rightarrow> stop [] NodeCrashed fs
                   | Some (train, test) \<Rightarrow>
                       (let central = baseline fp rt train test;
                            out = [TrainTest nodeID (length train) (length test), CentralBaseline nodeID (Accuracy central)] in
                        case writePartitions mkdir train (int (length workers)) (cf_partitionsDir cf) fs of
                          None \<Rightarrow> stop out NodeCrashed fs
                        | Some (Inl e, fs') \<Rightarrow> stop out (Fatal (WriteFailed e)) fs'
                        | Some (Inr partitionPaths, fs') \<Rightarrow>
                            (case NewRef dial (cf_aggregatorAddr cf) (cf_aggregatorID cf) of
                               Inl e \<Rightarrow> stop out (Fatal (NodeDial (cf_aggregatorID cf) e)) fs'
                             | Inr aggregatorRef \<Rightarrow>
                                 (case dial_workers dial workers [] of
                                    Inl e \<Rightarrow> stop out (Fatal e) fs'
                                  | Inr workerRefs \<Rightarrow>
                                      (let coordinator = \<lparr>CoordinatorID = nodeID, Workers = workerRefs,
                                             c_Aggregator = aggregatorRef, TestSet = test, has_results = True, roundID = 0\<rparr>;
                                           (lines, e, np') = coordinate fp fmt4 starts await nodeID coordinator partitionPaths central fs' np
                                       in ((out @ lines, e, np'), fs')))))))))"


section \<open>The program\<close>

text \<open>\<open>listens\<close> is the address a listener is bound to, if it can be opened.\<close>

definition startTransport :: "(string \<Rightarrow> string option) \<Rightarrow> string \<Rightarrow> node_fatal + string" where
  "startTransport listens listen = (case listens listen of None \<Rightarrow> Inl (ListenFailed listen) | Some bound \<Rightarrow> Inr bound)"

record node_flags =
  nf_role :: string
  nf_nodeID :: string
  nf_listen :: string
  nf_advertiseAddr :: string
  nf_coordinatorAddr :: string
  nf_coordinatorID :: string
  nf_clusterMode :: string
  nf_providerAddr :: string
  nf_providerID :: string
  nf_p2pBind :: string
  nf_p2pSeeds :: string
  nf_coordinator :: coordinator_flags

record node_env =
  ne_fpu :: fpu
  ne_rng :: rng
  ne_fmt4 :: "float64 \<Rightarrow> string"
  ne_mkdir :: "string \<Rightarrow> filesystem \<Rightarrow> filesystem option"
  ne_runtime :: runtime
  ne_dial :: "string \<Rightarrow> bool"
  ne_starts :: "node_actor \<Rightarrow> bool"
  ne_listens :: "string \<Rightarrow> string option"
  ne_await :: "ref coordinator_actor \<Rightarrow> string list \<Rightarrow> filesystem \<Rightarrow> round_failure + round_result"

definition run_role ::
    "node_env \<Rightarrow> node_flags \<Rightarrow> filesystem \<Rightarrow> node_process \<Rightarrow> (node_line list \<times> node_exit \<times> node_process) \<times> filesystem" where
  "run_role env nf fs np =
     (let cf = nf_coordinator nf in
      if nf_role nf = ''worker'' then
        (runWorker (ne_dial env) (ne_starts env) (nf_nodeID nf) (cf_aggregatorAddr cf) (cf_aggregatorID cf) np, fs)
      else if nf_role nf = ''aggregator'' then
        (runAggregator (ne_dial env) (ne_starts env) (nf_nodeID nf) (nf_coordinatorAddr nf) (nf_coordinatorID nf) np, fs)
      else if nf_role nf = ''coordinator'' then
        runCoordinator (ne_fpu env) (ne_rng env) (ne_fmt4 env) (ne_mkdir env) (ne_runtime env) (ne_dial env) (ne_starts env)
          (ne_await env) (nf_nodeID nf) cf fs np
      else if nf_role nf = ''provider'' then (runProvider (ne_starts env) (nf_nodeID nf) np, fs)
      else (([], Fatal (UnknownRole (nf_role nf)), np), fs))"

definition node_main ::
    "node_env \<Rightarrow> node_flags \<Rightarrow> filesystem \<Rightarrow> (node_line list \<times> node_exit \<times> node_process) \<times> filesystem" where
  "node_main env nf fs =
     (if nf_role nf = '''' \<or> nf_nodeID nf = '''' then (([], UsageError, new_process), fs)
      else (case startTransport (ne_listens env) (nf_listen nf) of
          Inl e \<Rightarrow> (([], Fatal e, new_process), fs)
        | Inr bound \<Rightarrow>
            (let out = [Listening (nf_role nf) bound];
                 selfAddr = (if nf_advertiseAddr nf = '''' then nf_listen nf else nf_advertiseAddr nf);
                 (lines, stop, np) =
                   (if nf_role nf \<noteq> ''provider''
                    then joinCluster (ne_starts env) (nf_nodeID nf) selfAddr (nf_clusterMode nf) (nf_providerAddr nf)
                      (nf_providerID nf) (nf_p2pBind nf) (nf_p2pSeeds nf) new_process
                    else ([], None, new_process))
             in (case stop of
                  Some e \<Rightarrow> ((out @ lines, e, np), fs)
                | None \<Rightarrow>
                    (let ((lines', e, np'), fs') = run_role env nf fs np
                     in ((out @ lines @ lines', e, np'), fs'))))))"

section \<open>The actors of a process\<close>

fun node_actor_id :: "node_actor \<Rightarrow> string" where
  "node_actor_id (WorkerNode w) = WorkerID w"
| "node_actor_id (AggregatorNode a) = AggregatorID a"
| "node_actor_id (CoordinatorNode c) = CoordinatorID c"
| "node_actor_id (ProviderNode p) = prov_ID p"
| "node_actor_id (ClientNode c) = SelfID c"
| "node_actor_id (GossipNode p) = p2p_SelfID p"

fun plays :: "string \<Rightarrow> node_actor \<Rightarrow> bool" where
  "plays role (WorkerNode w) \<longleftrightarrow> role = ''worker''"
| "plays role (AggregatorNode a) \<longleftrightarrow> role = ''aggregator''"
| "plays role (CoordinatorNode c) \<longleftrightarrow> role = ''coordinator''"
| "plays role (ProviderNode p) \<longleftrightarrow> role = ''provider''"
| "plays role _ \<longleftrightarrow> False"

definition process_ok :: "node_process \<Rightarrow> bool" where
  "process_ok np \<longleftrightarrow> \<not> locked (np_system np) \<and> length (np_spawned np) = length (heap (np_system np)) \<and>
     (\<forall>k c. fmlookup (cells (np_system np)) k = Some c \<longrightarrow> c < length (np_spawned np) \<and> node_actor_id (np_spawned np ! c) = k)"

lemma new_process_ok: "process_ok new_process"
  by (simp add: process_ok_def new_process_def NewActorSystem_def)

lemma node_spawn_fresh:
  assumes "process_ok np" and "fmlookup (cells (np_system np)) aid = None" and "node_actor_id a = aid"
  shows "\<exists>np'. node_spawn starts aid a np = (if starts a then None else Some NodeHangs, np') \<and> process_ok np' \<and>
    np_spawned np' = np_spawned np @ [a] \<and> cells (np_system np') = fmupd aid (length (np_spawned np)) (cells (np_system np))"
proof -
  have "Spawn aid (np_system np) =
      ((np_system np)\<lparr>heap := heap (np_system np) @ [\<lparr>cell_id = aid, cell_size = 128\<rparr>],
         cells := fmupd aid (length (heap (np_system np))) (cells (np_system np))\<rparr>,
       Return (Inr \<lparr>pid_id = aid, pid_cell = length (heap (np_system np))\<rparr>))"
    using assms(1,2)
    by (simp add: process_ok_def Spawn_def SpawnWithMailboxSize_def newActorCell_def newMailbox_def DefaultMailboxSize_def)
  then show ?thesis using assms
    by (auto simp: node_spawn_def process_ok_def nth_append less_SucI)
qed


lemma cluster_id_fresh: "nodeID \<noteq> nodeID @ ''-cluster''"
  by simp

lemma joinCluster_ok:
  assumes "joinCluster starts nodeID selfAddr mode pAddr pID bind seeds new_process = (lines, stop, np)"
  shows "process_ok np \<and> fmlookup (cells (np_system np)) nodeID = None \<and> stop \<noteq> Some (Fatal (SpawnFailed aid err)) \<and> stop \<noteq> Some Serving"
proof -
  have new: "fmlookup (cells (np_system new_process)) k = None" for k by (simp add: new_process_def NewActorSystem_def)
  have spawn: "\<exists>np'. node_spawn starts (nodeID @ ''-cluster'') a new_process = (if starts a then None else Some NodeHangs, np') \<and>
      process_ok np' \<and> fmlookup (cells (np_system np')) nodeID = None" if aid: "node_actor_id a = nodeID @ ''-cluster''" for a
  proof -
    obtain np' where np': "node_spawn starts (nodeID @ ''-cluster'') a new_process = (if starts a then None else Some NodeHangs, np')"
      "process_ok np'" "cells (np_system np') = fmupd (nodeID @ ''-cluster'') (length (np_spawned new_process)) (cells (np_system new_process))"
      using node_spawn_fresh [OF new_process_ok new aid, of starts] by blast
    have "fmlookup (cells (np_system np')) nodeID = None" unfolding np'(3) using new [of nodeID] by simp
    then show ?thesis using np'(1,2) by blast
  qed
  note client = spawn [of "ClientNode (NewProviderClientActor (nodeID @ ''-cluster'') selfAddr pID pAddr)"]
  note gossip = spawn [of "GossipNode (NewP2PActor (nodeID @ ''-cluster'') bind selfAddr (if seeds = '''' then [] else split_all CHR '','' seeds))"]
  show ?thesis
    using assms client gossip new_process_ok new
    by (auto simp: joinCluster_def Let_def NewProviderClientActor_def NewP2PActor_def split: if_splits)
qed

text \<open>What a role leaves behind when it is started in a process whose node id is free.\<close>

definition role_result ::
    "string \<Rightarrow> string \<Rightarrow> filesystem \<Rightarrow> (node_line list \<times> node_exit \<times> node_process) \<times> filesystem \<Rightarrow> bool" where
  "role_result role nodeID fs r =
     (let ((lines, e, np), fs') = r in
      (\<forall>aid err. e \<noteq> Fatal (SpawnFailed aid err)) \<and>
      (e = Serving \<longrightarrow> fs' = fs \<and> \<not> locked (np_system np) \<and> (\<exists>c. fmlookup (cells (np_system np)) nodeID = Some c \<and>
         plays role (np_spawned np ! c) \<and> node_actor_id (np_spawned np ! c) = nodeID)))"

lemma serve_result:
  assumes "process_ok np" and "fmlookup (cells (np_system np)) nodeID = None" and "node_actor_id a = nodeID" and "plays role a"
  shows "role_result role nodeID fs (spawn_and_serve starts nodeID a np, fs)"
proof -
  obtain np' where "node_spawn starts nodeID a np = (if starts a then None else Some NodeHangs, np')" "process_ok np'"
    "np_spawned np' = np_spawned np @ [a]" "cells (np_system np') = fmupd nodeID (length (np_spawned np)) (cells (np_system np))"
    using node_spawn_fresh [OF assms(1-3)] by blast
  then show ?thesis using assms(3,4) by (simp add: role_result_def spawn_and_serve_def process_ok_def)
qed

lemma stop_result: "(\<And>aid err. e \<noteq> Fatal (SpawnFailed aid err)) \<Longrightarrow> e \<noteq> Serving \<Longrightarrow> role_result role nodeID fs ((lines, e, np), fs')"
  by (simp add: role_result_def)

lemma coordinate_result:
  assumes "process_ok np" and "fmlookup (cells (np_system np)) nodeID = None" and "CoordinatorID c = nodeID"
    and "coordinate fp fmt4 starts await nodeID c paths central fs np = (lines, e, np')"
  shows "(\<forall>aid err. e \<noteq> Fatal (SpawnFailed aid err)) \<and> e \<noteq> Serving \<and>
    (e = NodeFinished \<longrightarrow> (\<exists>res. await c paths fs = Inr res \<and> lines = map Printed (printResult fp fmt4 (rr_Metrics res) central)))"
proof -
  obtain np1 where "node_spawn starts nodeID (CoordinatorNode c) np = (if starts (CoordinatorNode c) then None else Some NodeHangs, np1)"
    "process_ok np1" "cells (np_system np1) = fmupd nodeID (length (np_spawned np)) (cells (np_system np))"
    using node_spawn_fresh [OF assms(1,2), of "CoordinatorNode c"] assms(3) by auto
  then show ?thesis using assms(4)
    by (auto simp: coordinate_def Lookup_def process_ok_def split: if_splits sum.splits round_failure.splits)
qed

lemma dial_workers_eq:
  "dial_workers dial ws refs =
     (case find (\<lambda>w. \<not> dial (wa_addr w)) ws of
        Some w \<Rightarrow> Inl (NodeDial (wa_id w) (DialFailed (wa_addr w)))
      | None \<Rightarrow> Inr (refs @ map (\<lambda>w. \<lparr>ref_target = wa_id w, ref_addr = wa_addr w\<rparr>) ws))"
  by (induction ws arbitrary: refs) (simp_all add: NewRef_def Dial_def split: option.split)


definition worker_refs :: "worker_addr list \<Rightarrow> ref list" where
  "worker_refs ws = map (\<lambda>w. \<lparr>ref_target = wa_id w, ref_addr = wa_addr w\<rparr>) ws"

definition node_coordinator :: "string \<Rightarrow> coordinator_flags \<Rightarrow> worker_addr list \<Rightarrow> data_record list \<Rightarrow> ref coordinator_actor" where
  "node_coordinator nodeID cf workers test =
     \<lparr>CoordinatorID = nodeID, Workers = worker_refs workers,
      c_Aggregator = \<lparr>ref_target = cf_aggregatorID cf, ref_addr = cf_aggregatorAddr cf\<rparr>, TestSet = test, has_results = True, roundID = 0\<rparr>"

lemma NewRef_Inr: "NewRef dial addr target = Inr r \<Longrightarrow> r = \<lparr>ref_target = target, ref_addr = addr\<rparr>"
  by (auto simp: NewRef_def Dial_def split: if_splits)

lemma dial_workers_Inr: "dial_workers dial ws [] = Inr refs \<Longrightarrow> refs = worker_refs ws"
  by (auto simp: dial_workers_eq worker_refs_def split: option.splits)

lemma dial_workers_Inl: "dial_workers dial ws [] = Inl e \<Longrightarrow> \<exists>a d. e = NodeDial a d"
  by (auto simp: dial_workers_eq split: option.splits)

text \<open>The coordinator's run stops with an error of its own, or gets as far as its actor.\<close>

lemma runCoordinator_cases:
  fixes nodeID :: string
  assumes "runCoordinator fp rng fmt4 mkdir rt dial starts await nodeID cf fs np = ((out, e, np'), fs')"
  obtains (stopped) "\<forall>aid err. e \<noteq> Fatal (SpawnFailed aid err)" "e \<noteq> Serving" "e \<noteq> NodeFinished"
  | (started) workers records train test paths lines where
      "parseWorkers (cf_workers cf) = Inr workers" "workers \<noteq> []" "Load fs (cf_data cf) = Inr records"
      "SplitTrainTest fp rng records (cf_trainRatio cf) (cf_seed cf) = Some (train, test)"
      "writePartitions mkdir train (int (length workers)) (cf_partitionsDir cf) fs = Some (Inr paths, fs')"
      "coordinate fp fmt4 starts await nodeID (node_coordinator nodeID cf workers test) paths (baseline fp rt train test) fs' np = (lines, e, np')"
      "out = [TrainTest nodeID (length train) (length test), CentralBaseline nodeID (Accuracy (baseline fp rt train test))] @ lines"
proof -
  have fatal: "dial_workers dial ws [] = Inl x \<Longrightarrow> x \<noteq> SpawnFailed aid err" for ws x aid err
    using dial_workers_Inl by blast
  consider "e \<noteq> NodeFinished \<and> e \<noteq> Serving \<and> (\<forall>aid err. e \<noteq> Fatal (SpawnFailed aid err))"
    | workers records train test paths fs1 r refs where
      "parseWorkers (cf_workers cf) = Inr workers" "workers \<noteq> []" "Load fs (cf_data cf) = Inr records"
      "SplitTrainTest fp rng records (cf_trainRatio cf) (cf_seed cf) = Some (train, test)"
      "writePartitions mkdir train (int (length workers)) (cf_partitionsDir cf) fs = Some (Inr paths, fs1)"
      "NewRef dial (cf_aggregatorAddr cf) (cf_aggregatorID cf) = (Inr r :: unit remote_error + ref)"
      "dial_workers dial workers [] = Inr refs" "cf_aggregatorAddr cf \<noteq> ''''"
    using assms fatal
    by (simp add: runCoordinator_def Let_def split: if_splits sum.splits option.splits prod.splits) blast+
  then show thesis
  proof cases
    case 1
    then show thesis using stopped by blast
  next
    case (2 workers records train test paths fs1 r refs)
    let ?c = "node_coordinator nodeID cf workers test"
    obtain lines e1 np1 where c: "coordinate fp fmt4 starts await nodeID ?c paths (baseline fp rt train test) fs1 np = (lines, e1, np1)"
      by (cases "coordinate fp fmt4 starts await nodeID ?c paths (baseline fp rt train test) fs1 np")
    have "out = [TrainTest nodeID (length train) (length test), CentralBaseline nodeID (Accuracy (baseline fp rt train test))] @ lines \<and>
        e1 = e \<and> np1 = np' \<and> fs1 = fs'"
      using assms 2 c [unfolded node_coordinator_def] NewRef_Inr [OF 2(6)] dial_workers_Inr [OF 2(7)]
      by (simp add: runCoordinator_def Let_def)
    then show thesis using started [OF 2(1-4)] 2(5) c by simp
  qed
qed

lemma run_role_result:
  assumes "process_ok np" and "fmlookup (cells (np_system np)) (nf_nodeID nf) = None"
  shows "role_result (nf_role nf) (nf_nodeID nf) fs (run_role env nf fs np)"
proof -
  note serve = serve_result [OF assms]
  have coordinator: "role_result role (nf_nodeID nf) fs (runCoordinator fp rng fmt4 mkdir rt dial starts await (nf_nodeID nf) cf fs np)"
    for role fp rng fmt4 mkdir rt dial starts await cf
  proof -
    obtain out e np' fs' where run: "runCoordinator fp rng fmt4 mkdir rt dial starts await (nf_nodeID nf) cf fs np = ((out, e, np'), fs')"
      by (metis prod.exhaust)
    have id: "CoordinatorID (node_coordinator (nf_nodeID nf) cf workers test) = nf_nodeID nf" for workers test
      by (simp add: node_coordinator_def)
    from run have "(\<forall>aid err. e \<noteq> Fatal (SpawnFailed aid err)) \<and> e \<noteq> Serving"
    proof (cases rule: runCoordinator_cases)
      case (started workers records train test paths lines)
      then show ?thesis using coordinate_result [OF assms id started(6)] by blast
    qed simp
    then show ?thesis unfolding run by (intro stop_result) auto
  qed
  have worker: "role_result ''worker'' (nf_nodeID nf) fs (runWorker dial starts (nf_nodeID nf) addr aid np, fs)" for dial starts addr aid
    using serve by (auto simp: runWorker_def stop_result split: sum.split)
  have aggregator: "role_result ''aggregator'' (nf_nodeID nf) fs (runAggregator dial starts (nf_nodeID nf) addr aid np, fs)" for dial starts addr aid
    using serve by (auto simp: runAggregator_def NewAggregatorActor_def stop_result split: sum.split)
  have "role_result ''provider'' (nf_nodeID nf) fs (runProvider starts (nf_nodeID nf) np, fs)" for starts
    using serve by (simp add: runProvider_def NewProviderActor_def)
  then show ?thesis using worker aggregator coordinator by (auto simp: run_role_def Let_def stop_result)
qed

lemma node_main_result: "role_result (nf_role nf) (nf_nodeID nf) fs (node_main env nf fs)"
proof (cases "nf_role nf = '''' \<or> nf_nodeID nf = '''' \<or> ne_listens env (nf_listen nf) = None")
  case True
  then show ?thesis by (auto simp: node_main_def startTransport_def stop_result)
next
  case False
  then obtain bound where bound: "startTransport (ne_listens env) (nf_listen nf) = Inr bound" by (auto simp: startTransport_def)
  define joined where "joined = (if nf_role nf \<noteq> ''provider''
      then joinCluster (ne_starts env) (nf_nodeID nf) (if nf_advertiseAddr nf = '''' then nf_listen nf else nf_advertiseAddr nf)
        (nf_clusterMode nf) (nf_providerAddr nf) (nf_providerID nf) (nf_p2pBind nf) (nf_p2pSeeds nf) new_process
      else ([], None, new_process))"
  obtain lines stop np where j: "joined = (lines, stop, np)" by (cases joined)
  have ok: "process_ok np" "fmlookup (cells (np_system np)) (nf_nodeID nf) = None" "stop \<noteq> Some Serving"
    "\<And>aid err. stop \<noteq> Some (Fatal (SpawnFailed aid err))"
    using j joinCluster_ok [of _ "nf_nodeID nf" _ _ _ _ _ _ lines stop np] new_process_ok
    by (auto simp: joined_def new_process_def NewActorSystem_def split: if_splits)
  have main: "node_main env nf fs = (case stop of
      Some e \<Rightarrow> (([Listening (nf_role nf) bound] @ lines, e, np), fs)
    | None \<Rightarrow> (let ((lines', e, np'), fs') = run_role env nf fs np in (([Listening (nf_role nf) bound] @ lines @ lines', e, np'), fs')))"
    using False bound by (simp add: node_main_def Let_def flip: joined_def) (simp add: j)
  show ?thesis
  proof (cases stop)
    case None
    then show ?thesis using run_role_result [OF ok(1,2), of fs env] unfolding main
      by (simp add: role_result_def split: prod.splits)
  next
    case (Some e)
    then show ?thesis using ok(3,4) unfolding main by (auto intro!: stop_result)
  qed
qed

section \<open>Properties\<close>

text \<open>C33: A node that serves is reachable under its node id: when the process of a role is serving, looking the
node id up in its actor system (as the transport does for every incoming message) finds the actor of that
role, whatever cluster layer it joined, and the file system is untouched.\<close>

theorem serving_node_reachable:
  assumes "node_main env nf fs = ((out, Serving, np), fs')"
  shows "\<exists>p. Lookup (nf_nodeID nf) (np_system np) = Return (Some p) \<and> plays (nf_role nf) (np_spawned np ! pid_cell p) \<and>
    node_actor_id (np_spawned np ! pid_cell p) = nf_nodeID nf \<and> fs' = fs"
  using node_main_result [of nf fs env] unfolding assms by (auto simp: role_result_def Lookup_def)

text \<open>The process never dies because of a taken actor id: of all the ways to end, a failed spawn is not one,
so a cluster actor never gets in the way of the role's own actor.\<close>

theorem node_ids_never_clash: "fst (snd (fst (node_main env nf fs))) \<noteq> Fatal (SpawnFailed aid err)"
  using node_main_result [of nf fs env] by (auto simp: role_result_def split: prod.splits)

text \<open>C32: A coordinator that finishes has run a well-formed round: it told its actor, with the workers of the flag in
order, one partition path per worker (so the round starts and is not dropped for a mismatch, and the i-th
worker is sent the i-th path), loading the i-th path gives the i-th shard of the training set, and what it
prints at the end compares the result it received with the central baseline.\<close>

theorem coordinator_runs_round:
  assumes "runCoordinator fp rng fmt4 mkdir rt dial starts await nodeID cf fs np = ((out, NodeFinished, np'), fs')"
    and "process_ok np" and "fmlookup (cells (np_system np)) nodeID = None"
    and "\<And>records. Load fs (cf_data cf) = Inr records \<Longrightarrow> list_all savable records" and "rng_in_range rng"
  shows "\<exists>workers records train test paths shards c res.
    parseWorkers (cf_workers cf) = Inr workers \<and> Load fs (cf_data cf) = Inr records \<and>
    SplitTrainTest fp rng records (cf_trainRatio cf) (cf_seed cf) = Some (train, test) \<and>
    map (Load fs') paths = map Inr shards \<and> concat shards = train \<and> await c paths fs' = Inr res \<and>
    snd (startRound c paths) =
      SendRetry \<lparr>ref_target = cf_aggregatorID cf, ref_addr = cf_aggregatorAddr cf\<rparr> (trigger_msg 1 (length workers)) (TriggerSend nodeID 1) #
      map (\<lambda>(w, path). let r = \<lparr>ref_target = wa_id w, ref_addr = wa_addr w\<rparr> in
          SendRetry r (TrainRequest \<lparr>tr_RoundId = 1, tr_DatasetPartitionPath = path\<rparr>) (RequestSend nodeID 1 r)) (zip workers paths) \<and>
    out = [TrainTest nodeID (length train) (length test), CentralBaseline nodeID (Accuracy (baseline fp rt train test))] @
      map Printed (printResult fp fmt4 (rr_Metrics res) (baseline fp rt train test))"
  using assms(1)
proof (cases rule: runCoordinator_cases)
  case (started workers records train test paths lines)
  let ?c = "node_coordinator nodeID cf workers test"
  have id: "CoordinatorID ?c = nodeID" by (simp add: node_coordinator_def)
  obtain res where res: "await ?c paths fs' = Inr res" "lines = map Printed (printResult fp fmt4 (rr_Metrics res) (baseline fp rt train test))"
    using coordinate_result [OF assms(2,3) id started(6)] by blast
  have "list_all savable train"
    using assms(4) [OF started(3)] SplitTrainTest_parts(1) [OF assms(5) started(4)] by (auto simp: list_all_iff)
  moreover have pos: "0 < int (length workers)" using started(2) by simp
  ultimately obtain shards where shards: "Partition train (int (length workers)) = Some shards"
    "paths = map (partition_path (cf_partitionsDir cf)) [0..<length workers]" "map (Load fs') paths = map Inr shards"
    using writePartitions_ok [OF started(5)] by (metis nat_int)
  have "concat shards = train" by (rule Partition_concat [OF pos shards(1)])
  moreover have "length paths = length workers" using shards(2) by simp
  then have "snd (startRound ?c paths) =
      SendRetry \<lparr>ref_target = cf_aggregatorID cf, ref_addr = cf_aggregatorAddr cf\<rparr> (trigger_msg 1 (length workers)) (TriggerSend nodeID 1) #
      map (\<lambda>(w, path). let r = \<lparr>ref_target = wa_id w, ref_addr = wa_addr w\<rparr> in
          SendRetry r (TrainRequest \<lparr>tr_RoundId = 1, tr_DatasetPartitionPath = path\<rparr>) (RequestSend nodeID 1 r)) (zip workers paths)"
    by (auto simp: startRound_def node_coordinator_def worker_refs_def trigger_msg_def train_requests_def Let_def intro!: nth_equalityI)
  ultimately show ?thesis using started shards(3) res by blast
qed simp

definition demo_env :: node_env where
  "demo_env = \<lparr>ne_fpu = exact_fpu, ne_rng = (\<lambda>_ _ i. i), ne_fmt4 = (\<lambda>_. ''?''), ne_mkdir = (\<lambda>_ fs. Some fs), ne_runtime = sorted_runtime,
     ne_dial = (\<lambda>_. True), ne_starts = (\<lambda>_. True), ne_listens = Some,
     ne_await = (\<lambda>_ _ _. Inr \<lparr>rr_RoundID = 1, rr_Metrics = \<lparr>Accuracy = Fin 1, Precision = Fin 1, Recall = Fin 1, F1 = Fin 1\<rparr>\<rparr>)\<rparr>"

definition demo_cf :: coordinator_flags where
  "demo_cf = \<lparr>cf_aggregatorAddr = ''agg:9000'', cf_aggregatorID = ''aggregator'', cf_workers = ''w1@host1:9001'', cf_data = ''d'',
     cf_partitionsDir = ''p'', cf_trainRatio = Fin (1 / 2), cf_seed = 42\<rparr>"

definition demo_node :: node_flags where
  "demo_node = \<lparr>nf_role = ''worker'', nf_nodeID = ''w1'', nf_listen = '':9001'', nf_advertiseAddr = ''host1:9001'', nf_coordinatorAddr = '''',
     nf_coordinatorID = ''coordinator'', nf_clusterMode = ''p2p'', nf_providerAddr = '''', nf_providerID = ''provider'',
     nf_p2pBind = ''0.0.0.0:7946'', nf_p2pSeeds = ''host2:7946'', nf_coordinator = demo_cf\<rparr>"

lemma demo_serving: "fst (snd (fst (node_main demo_env demo_node sample_fs))) = Serving"
  by (simp add: node_main_def demo_node_def demo_env_def demo_cf_def startTransport_def joinCluster_def new_process_def NewActorSystem_def
      node_spawn_def Spawn_def SpawnWithMailboxSize_def newActorCell_def newMailbox_def DefaultMailboxSize_def run_role_def
      runWorker_def NewRef_def Dial_def spawn_and_serve_def Let_def)

theorem serving_node_reachable_witness:
  "\<exists>p. Lookup (nf_nodeID demo_node) (np_system (snd (snd (fst (node_main demo_env demo_node sample_fs))))) = Return (Some p) \<and>
    plays (nf_role demo_node) (np_spawned (snd (snd (fst (node_main demo_env demo_node sample_fs)))) ! pid_cell p) \<and>
    node_actor_id (np_spawned (snd (snd (fst (node_main demo_env demo_node sample_fs)))) ! pid_cell p) = nf_nodeID demo_node \<and>
    snd (node_main demo_env demo_node sample_fs) = sample_fs"
  by (rule serving_node_reachable [where env = demo_env and out = "fst (fst (node_main demo_env demo_node sample_fs))"])
    (metis demo_serving prod.collapse)

lemma demo_workers: "parseWorkers ''w1@host1:9001'' = Inr [\<lparr>wa_id = ''w1'', wa_addr = ''host1:9001''\<rparr>]"
  by code_simp

theorem coordinator_runs_round_witness:
  "\<exists>out np' fs' workers records train test paths shards c res.
    runCoordinator exact_fpu (\<lambda>_ _ i. i) (\<lambda>_. ''?'') (\<lambda>_ fs. Some fs) sorted_runtime (\<lambda>_. True) (\<lambda>_. True) (ne_await demo_env)
      ''coordinator'' demo_cf demo_fs new_process = ((out, NodeFinished, np'), fs') \<and>
    parseWorkers (cf_workers demo_cf) = Inr workers \<and> Load demo_fs (cf_data demo_cf) = Inr records \<and>
    SplitTrainTest exact_fpu (\<lambda>_ _ i. i) records (cf_trainRatio demo_cf) (cf_seed demo_cf) = Some (train, test) \<and>
    map (Load fs') paths = map Inr shards \<and> concat shards = train \<and> ne_await demo_env c paths fs' = Inr res \<and>
    snd (startRound c paths) =
      SendRetry \<lparr>ref_target = cf_aggregatorID demo_cf, ref_addr = cf_aggregatorAddr demo_cf\<rparr> (trigger_msg 1 (length workers)) (TriggerSend ''coordinator'' 1) #
      map (\<lambda>(w, path). let r = \<lparr>ref_target = wa_id w, ref_addr = wa_addr w\<rparr> in
          SendRetry r (TrainRequest \<lparr>tr_RoundId = 1, tr_DatasetPartitionPath = path\<rparr>) (RequestSend ''coordinator'' 1 r)) (zip workers paths) \<and>
    out = [TrainTest ''coordinator'' (length train) (length test), CentralBaseline ''coordinator'' (Accuracy (baseline exact_fpu sorted_runtime train test))] @
      map Printed (printResult exact_fpu (\<lambda>_. ''?'') (rr_Metrics res) (baseline exact_fpu sorted_runtime train test))"
proof -
  let ?train = "[sample_records ! 0]"
  have part: "Partition ?train 1 = Some [?train]"
    by (simp add: Partition_def partition_from.simps go_slice_def)
  have w: "writePartitions (\<lambda>_ fs. Some fs) ?train 1 ''p'' demo_fs = Some (Inr [partition_path ''p'' 0], snd (Save demo_fs ?train (partition_path ''p'' 0)))"
    by (simp add: writePartitions_def part partition_path_def demo_fs_def Save_def sample_fs_def Let_def)
  obtain out np' fs' where run: "runCoordinator exact_fpu (\<lambda>_ _ i. i) (\<lambda>_. ''?'') (\<lambda>_ fs. Some fs) sorted_runtime (\<lambda>_. True) (\<lambda>_. True)
      (ne_await demo_env) ''coordinator'' demo_cf demo_fs new_process = ((out, NodeFinished, np'), fs')"
    by (simp add: runCoordinator_def demo_cf_def demo_workers demo_load demo_split w NewRef_def Dial_def coordinate_def new_process_def NewActorSystem_def
        node_spawn_def Spawn_def SpawnWithMailboxSize_def newActorCell_def newMailbox_def DefaultMailboxSize_def Lookup_def demo_env_def Let_def)
  have "fmlookup (cells (np_system new_process)) ''coordinator'' = None" by (simp add: new_process_def NewActorSystem_def)
  moreover have "Load demo_fs (cf_data demo_cf) = Inr records \<Longrightarrow> list_all savable records" for records
    using sample_savable by (auto simp: demo_cf_def demo_load)
  ultimately show ?thesis
    using coordinator_runs_round [OF run new_process_ok] run by (auto simp: rng_in_range_def)
qed

end
