(* ===== verification/ClusterNet.thy ===== *)
theory ClusterNet
  imports Cluster
begin

text \<open>
  A cluster in provider mode: the provider and any number of nodes with their client actors, over remote
  references.  A remote tell can be answered, fail before the peer's handler ran, or time out while the handler
  still waits in front of the mailbox, which then gets the message later or never; \<^verbatim>\<open>tellWithRetry\<close>
  repeats failed tells.  The handlers are those of \<^theory_text>\<open>Cluster\<close>; a client's handler is split at its
  tells, so that registrations, answers and restarts of different nodes interleave.
\<close>

section \<open>State and steps\<close>

text \<open>The addresses of the nodes, and where the provider is.\<close>

record cluster_config =
  cc_addr :: "string \<Rightarrow> string"
  cc_provider :: ref

text \<open>
  \<open>cn_tells n\<close> is what node \<open>n\<close>'s handler has still to tell the provider, \<open>cn_tries n\<close> the failed attempts of
  the first of these, \<open>cn_wire\<close> the messages whose sender has given up and whose handler is still waiting.
\<close>

record cluster_net =
  cn_prov :: provider_actor
  cn_client :: "string \<Rightarrow> client_actor option"
  cn_inbox :: "unit cluster_msg list"
  cn_mail :: "string \<Rightarrow> unit cluster_msg list"
  cn_tells :: "string \<Rightarrow> unit cluster_msg list"
  cn_tries :: "string \<Rightarrow> nat"
  cn_wire :: "(ref \<times> unit cluster_msg) list"

definition net_start :: "cluster_config \<Rightarrow> cluster_net" where
  "net_start g = \<lparr>cn_prov = NewProviderActor (ref_target (cc_provider g)), cn_client = (\<lambda>_. None), cn_inbox = [],
     cn_mail = (\<lambda>_. []), cn_tells = (\<lambda>_. []), cn_tries = (\<lambda>_. 0), cn_wire = []\<rparr>"

text \<open>A handler run with tells that are noted down: what it tells as long as each tell succeeds.\<close>

definition note_tell :: "ref \<Rightarrow> unit cluster_msg \<Rightarrow> unit cluster_msg list \<Rightarrow> (unit option \<times> unit cluster_msg list) option" where
  "note_tell r m ms = Some (None, ms @ [m])"

abbreviation start_client :: "(string \<Rightarrow> bool) \<Rightarrow> client_actor \<Rightarrow> (client_actor \<times> unit cluster_msg list) option" where
  "start_client dial c \<equiv> client_OnStart dial (\<lambda>_ ms. ms) note_tell (\<lambda>_ ms. ms) c []"

abbreviation handle_client :: "string order \<Rightarrow> client_actor \<Rightarrow> unit cluster_msg \<Rightarrow> (client_actor \<times> unit cluster_msg list) option" where
  "handle_client ord c m \<equiv>
     client_receive (\<lambda>_ ms. ms) note_tell (\<lambda>_ _ ms. Some (None :: unit option, ms)) (\<lambda>_ ms. ms) ord c m []"

text \<open>The provider's answer to a node: its one tell, which succeeds or fails, and whose message arrives later
or never.\<close>

definition send_answer :: "unit option \<Rightarrow> bool \<Rightarrow> ref \<Rightarrow> unit cluster_msg \<Rightarrow> cluster_net \<Rightarrow> (unit option \<times> cluster_net) option" where
  "send_answer err sent r m s = Some (err, if sent then s\<lparr>cn_wire := (r, m) # cn_wire s\<rparr> else s)"

text \<open>A message reaches the actor its reference names, if that actor runs there.\<close>

definition arrive :: "cluster_config \<Rightarrow> ref \<Rightarrow> unit cluster_msg \<Rightarrow> cluster_net \<Rightarrow> cluster_net" where
  "arrive g r m s =
     (if r = cc_provider g then s\<lparr>cn_inbox := cn_inbox s @ [m]\<rparr>
      else (case cn_client s (ref_target r) of
          Some c \<Rightarrow> (if SelfAddr c = ref_addr r
            then s\<lparr>cn_mail := (cn_mail s)(ref_target r := cn_mail s (ref_target r) @ [m])\<rparr> else s)
        | None \<Rightarrow> s))"

text \<open>A failed tell is repeated; when it has failed ten times the handler logs that and returns.\<close>

definition tell_failed :: "string \<Rightarrow> cluster_net \<Rightarrow> cluster_net" where
  "tell_failed n s =
     (if Suc (cn_tries s n) < send_attempts then s\<lparr>cn_tries := (cn_tries s)(n := Suc (cn_tries s n))\<rparr>
      else s\<lparr>cn_tries := (cn_tries s)(n := 0), cn_tells := (cn_tells s)(n := [])\<rparr>)"

inductive cluster_step :: "cluster_config \<Rightarrow> cluster_net \<Rightarrow> cluster_net \<Rightarrow> bool" for g where
  node_started: "cn_client s n = None \<Longrightarrow>
    start_client dial (NewProviderClientActor n (cc_addr g n) (ref_target (cc_provider g)) (ref_addr (cc_provider g))) = Some (c, ms) \<Longrightarrow>
    cluster_step g s (s\<lparr>cn_client := (cn_client s)(n := Some c), cn_tells := (cn_tells s)(n := ms)\<rparr>)"
| node_stopped: "cn_client s n = Some c \<Longrightarrow> cn_tells s n = [] \<Longrightarrow>
    cluster_step g s (s\<lparr>cn_client := (cn_client s)(n := None), cn_mail := (cn_mail s)(n := [])\<rparr>)"
| tell_answered: "cn_tells s n = m # ms \<Longrightarrow>
    cluster_step g s (s\<lparr>cn_inbox := cn_inbox s @ [m], cn_tells := (cn_tells s)(n := ms), cn_tries := (cn_tries s)(n := 0)\<rparr>)"
| tell_refused: "cn_tells s n = m # ms \<Longrightarrow> cluster_step g s (tell_failed n s)"
| tell_timeout: "cn_tells s n = m # ms \<Longrightarrow>
    cluster_step g s (tell_failed n (s\<lparr>cn_wire := (cc_provider g, m) # cn_wire s\<rparr>))"
| arrived: "cn_wire s = xs @ (r, m) # ys \<Longrightarrow> cluster_step g s (arrive g r m (s\<lparr>cn_wire := xs @ ys\<rparr>))"
| dropped: "cn_wire s = xs @ (r, m) # ys \<Longrightarrow> cluster_step g s (s\<lparr>cn_wire := xs @ ys\<rparr>)"
| provider_handles: "cn_inbox s = m # ms \<Longrightarrow> map_order ord \<Longrightarrow>
    provider_receive dial (send_answer err sent) (\<lambda>_ s. s) (\<lambda>_ s. s) ord (cn_prov s) m (s\<lparr>cn_inbox := ms\<rparr>) = Some (p, t) \<Longrightarrow>
    cluster_step g s (t\<lparr>cn_prov := p\<rparr>)"
| client_handles: "cn_client s n = Some c \<Longrightarrow> cn_tells s n = [] \<Longrightarrow> cn_mail s n = m # ms \<Longrightarrow> map_order ord \<Longrightarrow>
    handle_client ord c m = Some (c', out) \<Longrightarrow>
    cluster_step g s (s\<lparr>cn_client := (cn_client s)(n := Some c'), cn_tells := (cn_tells s)(n := out), cn_mail := (cn_mail s)(n := ms)\<rparr>)"
| local_message: "cn_client s n = Some c \<Longrightarrow> m \<in> {DiscoverNow, QueryPeers r} \<Longrightarrow>
    cluster_step g s (s\<lparr>cn_mail := (cn_mail s)(n := cn_mail s n @ [m])\<rparr>)"

definition cluster_reachable :: "cluster_config \<Rightarrow> cluster_net \<Rightarrow> bool" where
  "cluster_reachable g = reaches (\<lambda>s. s = net_start g) (cluster_step g)"

section \<open>What the handlers do\<close>

abbreviation node_info :: "cluster_config \<Rightarrow> string \<Rightarrow> peer_info" where
  "node_info g n \<equiv> \<lparr>NodeId = n, Addr = cc_addr g n\<rparr>"

abbreviation node_ref :: "cluster_config \<Rightarrow> string \<Rightarrow> ref" where
  "node_ref g n \<equiv> \<lparr>ref_target = n, ref_addr = cc_addr g n\<rparr>"

abbreviation join_msg :: "cluster_config \<Rightarrow> string \<Rightarrow> unit cluster_msg" where
  "join_msg g n \<equiv> JoinCluster (Some (node_info g n))"

abbreviation discover_msg :: "cluster_config \<Rightarrow> string \<Rightarrow> unit cluster_msg" where
  "discover_msg g n \<equiv> DiscoverPeers (Some \<lparr>reply_addr = cc_addr g n, ActorId = n\<rparr>)"

abbreviation register_tells :: "cluster_config \<Rightarrow> string \<Rightarrow> unit cluster_msg list" where
  "register_tells g n \<equiv> [join_msg g n, discover_msg g n]"

definition client_ok :: "cluster_config \<Rightarrow> string \<Rightarrow> client_actor \<Rightarrow> bool" where
  "client_ok g n c \<longleftrightarrow> SelfID c = n \<and> SelfAddr c = cc_addr g n"

lemma noted_tell: "tellWithRetry (\<lambda>_ ms. ms) note_tell r m ms = Some (None, ms @ [m])"
  by (simp add: tellWithRetry_def send_attempts_def note_tell_def numeral_eq_Suc)

lemma noted_register:
  "client_ok g n c \<Longrightarrow> registerAndDiscover (\<lambda>_ ms. ms) note_tell (\<lambda>_ ms. ms) c [] =
     Some (if provider c = None then [] else register_tells g n)"
  by (cases "provider c") (simp_all add: registerAndDiscover_def noted_tell client_ok_def)

lemma start_client_cases:
  assumes "start_client dial (NewProviderClientActor n (cc_addr g n) pid addr) = Some (c, ms)"
  shows "client_ok g n c" and "cl_peers c = fmempty" and "ms = [] \<or> ms = register_tells g n"
proof -
  let ?c = "NewProviderClientActor n (cc_addr g n) pid addr"
  have ok: "client_ok g n (?c\<lparr>cl_conn := x, provider := y\<rparr>)" for x y
    by (simp add: client_ok_def NewProviderClientActor_def)
  show "client_ok g n c" "cl_peers c = fmempty" "ms = [] \<or> ms = register_tells g n"
    using assms noted_register [OF ok] ok
    by (auto simp: client_OnStart_def Let_def split: sum.splits if_splits) (auto simp: NewProviderClientActor_def client_ok_def)
qed

lemma handle_client_cases:
  assumes "handle_client ord c m = Some (c', out)" and "client_ok g n c"
  shows "client_ok g n c'" and "cl_peers c' = (case m of PeerList ps \<Rightarrow> adopt_peers ps | _ \<Rightarrow> cl_peers c)"
    and "out = [] \<or> out = register_tells g n"
  using assms noted_register [OF assms(2)]
  by (auto simp: client_receive_def client_replyPeers_def ctx_Send_def client_ok_def split: cluster_msg.splits option.splits if_splits)

text \<open>The provider's handler on the messages clients send.\<close>

lemma provider_joins:
  "provider_receive dial tell close logger ord p (join_msg g n) w = Some (p', w') \<Longrightarrow>
   w' = w \<and> prov_peers p' = fmupd n (node_info g n) (prov_peers p)"
  by (auto simp: provider_receive_def)

lemma provider_answers:
  "provider_receive dial (send_answer err sent) (\<lambda>_ s. s) (\<lambda>_ s. s) ord p (discover_msg g n) s = Some (p', t) \<Longrightarrow>
   p' = p \<and> (t = s \<or> t = s\<lparr>cn_wire := (node_ref g n, PeerList (peer_values ord (prov_peers p))) # cn_wire s\<rparr>)"
  by (cases err; cases sent)
    (auto simp: provider_receive_def replyPeerList_def send_answer_def Dial_def Let_def split: if_splits)

section \<open>Invariant\<close>

text \<open>
  Every discovery request in the provider's mailbox comes from a node it knows or will then know:
  \<open>K\<close> is what it knows before.
\<close>

fun requests_ok :: "cluster_config \<Rightarrow> string set \<Rightarrow> unit cluster_msg list \<Rightarrow> bool" where
  "requests_ok g K [] \<longleftrightarrow> True"
| "requests_ok g K (m # ms) \<longleftrightarrow>
     ((\<exists>n. m = join_msg g n \<and> requests_ok g (insert n K) ms) \<or> (\<exists>n\<in>K. m = discover_msg g n \<and> requests_ok g K ms) \<or>
      (\<exists>ps. m = PeerList ps \<and> requests_ok g K ms))"

definition joins_in :: "unit cluster_msg list \<Rightarrow> string set" where
  "joins_in ms = {NodeId i |i. JoinCluster (Some i) \<in> set ms}"

definition announced :: "cluster_net \<Rightarrow> string set" where
  "announced s = fmdom' (prov_peers (cn_prov s)) \<union> joins_in (cn_inbox s)"

lemma joins_in_simps [simp]:
  "joins_in [] = {}" "joins_in (xs @ ys) = joins_in xs \<union> joins_in ys"
  "joins_in (m # ms) = (case m of JoinCluster (Some i) \<Rightarrow> insert (NodeId i) (joins_in ms) | _ \<Rightarrow> joins_in ms)"
  by (auto simp: joins_in_def split: cluster_msg.splits option.splits)

text \<open>What a message is when its sender, having put its earlier messages, has announced the nodes \<open>A\<close>.\<close>

definition request_ok :: "cluster_config \<Rightarrow> string set \<Rightarrow> unit cluster_msg \<Rightarrow> bool" where
  "request_ok g A m \<longleftrightarrow> (\<exists>n. m = join_msg g n) \<or> (\<exists>n\<in>A. m = discover_msg g n)"

lemma requests_ok_append:
  "requests_ok g K ms \<Longrightarrow> request_ok g (K \<union> joins_in ms) m \<or> (\<exists>ps. m = PeerList ps) \<Longrightarrow> requests_ok g K (ms @ [m])"
  by (induction g K ms rule: requests_ok.induct) (auto simp: request_ok_def)

lemma request_ok_mono: "request_ok g A m \<Longrightarrow> A \<subseteq> B \<Longrightarrow> request_ok g B m"
  by (auto simp: request_ok_def)

text \<open>Every table a node has or is about to get; an empty table is one that was never filled.\<close>

type_synonym peer_table = "(string, peer_info) fmap"

definition answers :: "cluster_net \<Rightarrow> (string \<times> peer_table) set" where
  "answers s = {(n, cl_peers c) |n c. cn_client s n = Some c \<and> cl_peers c \<noteq> fmempty} \<union>
     {(n, adopt_peers ps) |n ps. PeerList ps \<in> set (cn_mail s n)} \<union>
     {(ref_target r, adopt_peers ps) |r ps. (r, PeerList ps) \<in> set (cn_wire s)}"

definition part_of :: "peer_table \<Rightarrow> peer_table \<Rightarrow> bool" where
  "part_of T U \<longleftrightarrow> (\<forall>k i. fmlookup T k = Some i \<longrightarrow> fmlookup U k = Some i)"

definition answers_ok :: "(string \<times> peer_table) set \<Rightarrow> peer_table \<Rightarrow> bool" where
  "answers_ok A P \<longleftrightarrow> (\<forall>(n, T)\<in>A. n \<in> fmdom' T \<and> part_of T P) \<and> (\<forall>(n, T)\<in>A. \<forall>(m, U)\<in>A. part_of T U \<or> part_of U T)"

lemma part_of_refl [simp]: "part_of T T"
  by (simp add: part_of_def)

lemma part_of_trans: "part_of T U \<Longrightarrow> part_of U V \<Longrightarrow> part_of T V"
  by (simp add: part_of_def)

lemma answers_ok_mono:
  assumes "answers_ok A P" and "A' \<subseteq> A" and "part_of P Q"
  shows "answers_ok A' Q"
  using assms part_of_trans unfolding answers_ok_def by blast

lemma answers_ok_insert:
  assumes "answers_ok A P" and "n \<in> fmdom' P"
  shows "answers_ok (insert (n, P) A) P"
  using assms unfolding answers_ok_def by auto

definition cluster_inv :: "cluster_config \<Rightarrow> cluster_net \<Rightarrow> bool" where
  "cluster_inv g s \<longleftrightarrow>
     (\<forall>n c. cn_client s n = Some c \<longrightarrow> client_ok g n c) \<and>
     (\<forall>n. cn_tells s n = [] \<or> cn_tells s n = register_tells g n \<or> (cn_tells s n = [discover_msg g n] \<and> n \<in> announced s)) \<and>
     requests_ok g (fmdom' (prov_peers (cn_prov s))) (cn_inbox s) \<and>
     (\<forall>(r, m)\<in>set (cn_wire s). r = cc_provider g \<and> request_ok g (announced s) m \<or> (\<exists>ps. m = PeerList ps)) \<and>
     (\<forall>n i. fmlookup (prov_peers (cn_prov s)) n = Some i \<longrightarrow> i = node_info g n) \<and>
     answers_ok (answers s) (prov_peers (cn_prov s))"

definition tells_ok :: "cluster_config \<Rightarrow> cluster_net \<Rightarrow> string \<Rightarrow> unit cluster_msg list \<Rightarrow> bool" where
  "tells_ok g s n ms \<longleftrightarrow> ms = [] \<or> ms = register_tells g n \<or> (ms = [discover_msg g n] \<and> n \<in> announced s)"

definition wire_ok :: "cluster_config \<Rightarrow> cluster_net \<Rightarrow> ref \<times> unit cluster_msg \<Rightarrow> bool" where
  "wire_ok g s e \<longleftrightarrow> (fst e = cc_provider g \<and> request_ok g (announced s) (snd e)) \<or> (\<exists>ps. snd e = PeerList ps)"

lemma cluster_invI:
  assumes "\<And>n c. cn_client s n = Some c \<Longrightarrow> client_ok g n c" and "\<And>n. tells_ok g s n (cn_tells s n)"
    and "requests_ok g (fmdom' (prov_peers (cn_prov s))) (cn_inbox s)" and "\<And>e. e \<in> set (cn_wire s) \<Longrightarrow> wire_ok g s e"
    and "\<And>n i. fmlookup (prov_peers (cn_prov s)) n = Some i \<Longrightarrow> i = node_info g n"
    and "answers_ok (answers s) (prov_peers (cn_prov s))"
  shows "cluster_inv g s"
  using assms unfolding cluster_inv_def tells_ok_def wire_ok_def by fastforce

lemma cluster_invD:
  assumes "cluster_inv g s"
  shows "cn_client s n = Some c \<Longrightarrow> client_ok g n c" and "tells_ok g s n (cn_tells s n)"
    and "requests_ok g (fmdom' (prov_peers (cn_prov s))) (cn_inbox s)" and "e \<in> set (cn_wire s) \<Longrightarrow> wire_ok g s e"
    and "fmlookup (prov_peers (cn_prov s)) n = Some i \<Longrightarrow> i = node_info g n"
    and "answers_ok (answers s) (prov_peers (cn_prov s))"
  using assms unfolding cluster_inv_def tells_ok_def wire_ok_def by auto

lemma tells_ok_mono: "tells_ok g s n ms \<Longrightarrow> announced s \<subseteq> announced t \<Longrightarrow> tells_ok g t n ms"
  by (auto simp: tells_ok_def)

lemma wire_ok_mono: "wire_ok g s e \<Longrightarrow> announced s \<subseteq> announced t \<Longrightarrow> wire_ok g t e"
  using request_ok_mono by (auto simp: wire_ok_def)

text \<open>A step that leaves the provider alone: what there is to show of it.\<close>

lemma cluster_inv_keep:
  assumes inv: "cluster_inv g s" and prov: "cn_prov t = cn_prov s" and ann: "announced s \<subseteq> announced t"
    and client: "\<And>n c. cn_client t n = Some c \<Longrightarrow> cn_client s n = Some c \<or> client_ok g n c"
    and tells: "\<And>n. cn_tells t n = cn_tells s n \<or> tells_ok g t n (cn_tells t n)"
    and inbox: "requests_ok g (fmdom' (prov_peers (cn_prov s))) (cn_inbox t)"
    and wire: "\<And>e. e \<in> set (cn_wire t) \<Longrightarrow> e \<in> set (cn_wire s) \<or> wire_ok g t e"
    and answers: "answers t \<subseteq> answers s"
  shows "cluster_inv g t"
proof (rule cluster_invI)
  show "client_ok g n c" if "cn_client t n = Some c" for n c using client [OF that] cluster_invD(1) [OF inv] by blast
  show "tells_ok g t n (cn_tells t n)" for n
    using tells [of n] tells_ok_mono [OF cluster_invD(2) [OF inv] ann, of n] by auto
  show "wire_ok g t e" if "e \<in> set (cn_wire t)" for e
    using wire [OF that] wire_ok_mono [OF cluster_invD(4) [OF inv] ann] by blast
  show "answers_ok (answers t) (prov_peers (cn_prov t))"
    unfolding prov by (rule answers_ok_mono [OF cluster_invD(6) [OF inv] answers]) simp
qed (use prov inbox cluster_invD(5) [OF inv] in simp_all)

lemma tells_request:
  assumes "cluster_inv g s" and "cn_tells s n = m # ms"
  shows "request_ok g (announced s) m" and "tells_ok g s n (m # ms)" and "\<forall>ps. m \<noteq> PeerList ps"
    and "(m = join_msg g n \<and> ms = [discover_msg g n]) \<or> ms = []"
  using cluster_invD(2) [OF assms(1), of n] unfolding assms(2) by (auto simp: tells_ok_def request_ok_def)

lemma tell_failed_fields [simp]:
  "cn_prov (tell_failed n s) = cn_prov s" "cn_client (tell_failed n s) = cn_client s" "cn_inbox (tell_failed n s) = cn_inbox s"
  "cn_mail (tell_failed n s) = cn_mail s" "cn_wire (tell_failed n s) = cn_wire s"
  "announced (tell_failed n s) = announced s" "answers (tell_failed n s) = answers s"
  by (simp_all add: tell_failed_def announced_def answers_def)

lemma tell_failed_tells: "cn_tells (tell_failed n s) k = cn_tells s k \<or> cn_tells (tell_failed n s) k = []"
  by (simp add: tell_failed_def)

text \<open>The steps, one after the other.\<close>

lemma inv_tell_answered:
  assumes inv: "cluster_inv g s" and n: "cn_tells s n = m # ms"
  shows "cluster_inv g (s\<lparr>cn_inbox := cn_inbox s @ [m], cn_tells := (cn_tells s)(n := ms), cn_tries := (cn_tries s)(n := 0)\<rparr>)"
    (is "cluster_inv g ?t")
proof (rule cluster_inv_keep [OF inv])
  note m = tells_request [OF inv n]
  show "announced s \<subseteq> announced ?t" by (auto simp: announced_def)
  show "requests_ok g (fmdom' (prov_peers (cn_prov s))) (cn_inbox ?t)"
    using requests_ok_append [OF cluster_invD(3) [OF inv]] m(1) by (simp add: announced_def)
  show "cn_tells ?t k = cn_tells s k \<or> tells_ok g ?t k (cn_tells ?t k)" for k
    using m(4) by (auto simp: tells_ok_def announced_def)
  show "answers ?t \<subseteq> answers s" by (simp add: answers_def)
qed simp_all

lemma inv_tell_failed:
  assumes inv: "cluster_inv g s" and n: "cn_tells s n = m # ms" and t: "t = s \<or> t = s\<lparr>cn_wire := (cc_provider g, m) # cn_wire s\<rparr>"
  shows "cluster_inv g (tell_failed n t)"
proof (rule cluster_inv_keep [OF inv])
  note m = tells_request [OF inv n]
  have ann: "announced t = announced s" using t by (auto simp: announced_def)
  show "announced s \<subseteq> announced (tell_failed n t)" by (simp add: ann)
  show "cn_tells (tell_failed n t) k = cn_tells s k \<or> tells_ok g (tell_failed n t) k (cn_tells (tell_failed n t) k)" for k
    using tell_failed_tells [of n t k] t by (auto simp: tells_ok_def)
  show "e \<in> set (cn_wire s) \<or> wire_ok g (tell_failed n t) e" if "e \<in> set (cn_wire (tell_failed n t))" for e
    using that t m(1) by (auto simp: wire_ok_def ann)
  show "answers (tell_failed n t) \<subseteq> answers s" using t m(3) by (auto simp: answers_def)
qed (use t cluster_invD(3) [OF inv] in auto)

lemma inv_arrived:
  assumes inv: "cluster_inv g s" and w: "cn_wire s = xs @ (r, m) # ys"
  shows "cluster_inv g (arrive g r m (s\<lparr>cn_wire := xs @ ys\<rparr>))" (is "cluster_inv g ?t")
proof (rule cluster_inv_keep [OF inv])
  have rm: "wire_ok g s (r, m)" using cluster_invD(4) [OF inv, of "(r, m)"] by (simp add: w)
  show "announced s \<subseteq> announced ?t" by (auto simp: announced_def arrive_def split: option.split)
  show "requests_ok g (fmdom' (prov_peers (cn_prov s))) (cn_inbox ?t)"
    using requests_ok_append [OF cluster_invD(3) [OF inv], of m] cluster_invD(3) [OF inv] rm
    by (auto simp: arrive_def wire_ok_def announced_def split: option.split)
  show "answers ?t \<subseteq> answers s" unfolding answers_def arrive_def by (auto simp: w split: option.splits if_splits)
qed (auto simp: arrive_def w split: option.splits if_splits)

lemma inv_dropped:
  assumes inv: "cluster_inv g s" and w: "cn_wire s = xs @ (r, m) # ys"
  shows "cluster_inv g (s\<lparr>cn_wire := xs @ ys\<rparr>)"
proof (rule cluster_inv_keep [OF inv])
  show "answers (s\<lparr>cn_wire := xs @ ys\<rparr>) \<subseteq> answers s" unfolding answers_def by (auto simp: w)
qed (use cluster_invD(3) [OF inv] in \<open>auto simp: w announced_def\<close>)

lemma inv_node_started:
  assumes inv: "cluster_inv g s" and "cn_client s n = None"
    and c: "start_client dial (NewProviderClientActor n (cc_addr g n) pid addr) = Some (c, ms)"
  shows "cluster_inv g (s\<lparr>cn_client := (cn_client s)(n := Some c), cn_tells := (cn_tells s)(n := ms)\<rparr>)" (is "cluster_inv g ?t")
proof (rule cluster_inv_keep [OF inv])
  note c = start_client_cases [OF c]
  show "cn_tells ?t k = cn_tells s k \<or> tells_ok g ?t k (cn_tells ?t k)" for k using c(3) by (auto simp: tells_ok_def)
  show "cn_client s k = Some d \<or> client_ok g k d" if "cn_client ?t k = Some d" for k d
    using that c(1) by (auto split: if_splits)
  show "answers ?t \<subseteq> answers s" unfolding answers_def using c(2) by (auto split: if_splits)
qed (use cluster_invD(3) [OF inv] in \<open>auto simp: announced_def\<close>)

lemma inv_node_stopped:
  assumes inv: "cluster_inv g s"
  shows "cluster_inv g (s\<lparr>cn_client := (cn_client s)(n := None), cn_mail := (cn_mail s)(n := [])\<rparr>)" (is "cluster_inv g ?t")
proof (rule cluster_inv_keep [OF inv])
  show "answers ?t \<subseteq> answers s" unfolding answers_def by (auto split: if_splits)
qed (use cluster_invD(3) [OF inv] in \<open>auto simp: announced_def split: if_splits\<close>)

lemma inv_local_message:
  assumes inv: "cluster_inv g s" and "m \<in> {DiscoverNow, QueryPeers r}"
  shows "cluster_inv g (s\<lparr>cn_mail := (cn_mail s)(n := cn_mail s n @ [m])\<rparr>)" (is "cluster_inv g ?t")
proof (rule cluster_inv_keep [OF inv])
  show "answers ?t \<subseteq> answers s" unfolding answers_def using assms(2) by (auto split: if_splits)
qed (use cluster_invD(3) [OF inv] in \<open>auto simp: announced_def\<close>)

lemma client_answers:
  assumes inv: "cluster_inv g s" and n: "cn_client s n = Some c" "cn_mail s n = m # ms"
    and h: "handle_client ord c m = Some (c', out)"
  shows "answers (s\<lparr>cn_client := (cn_client s)(n := Some c'), cn_tells := (cn_tells s)(n := out), cn_mail := (cn_mail s)(n := ms)\<rparr>) \<subseteq> answers s"
proof -
  note c = handle_client_cases [OF h cluster_invD(1) [OF inv n(1)]]
  have "(n, cl_peers c') \<in> answers s" if "cl_peers c' \<noteq> fmempty"
  proof (cases "\<exists>ps. m = PeerList ps")
    case True
    then show ?thesis unfolding answers_def using c(2) n(2) by (auto intro!: exI)
  next
    case False
    then have "cl_peers c' = cl_peers c" using c(2) by (cases m) auto
    then show ?thesis unfolding answers_def using n(1) that by auto
  qed
  then show ?thesis using n(2) unfolding answers_def by (auto split: if_splits)
qed

lemma inv_client_handles:
  assumes inv: "cluster_inv g s" and n: "cn_client s n = Some c" "cn_mail s n = m # ms"
    and h: "handle_client ord c m = Some (c', out)"
  shows "cluster_inv g (s\<lparr>cn_client := (cn_client s)(n := Some c'), cn_tells := (cn_tells s)(n := out), cn_mail := (cn_mail s)(n := ms)\<rparr>)"
    (is "cluster_inv g ?t")
proof (rule cluster_inv_keep [OF inv])
  note c = handle_client_cases [OF h cluster_invD(1) [OF inv n(1)]]
  show "cn_tells ?t k = cn_tells s k \<or> tells_ok g ?t k (cn_tells ?t k)" for k using c(3) by (auto simp: tells_ok_def)
  show "cn_client s k = Some d \<or> client_ok g k d" if "cn_client ?t k = Some d" for k d
    using that c(1) by (auto split: if_splits)
  show "answers ?t \<subseteq> answers s" by (rule client_answers [OF inv n h])
qed (use cluster_invD(3) [OF inv] in \<open>auto simp: announced_def\<close>)

lemma handled_join:
  assumes inv: "cluster_inv g s" and q: "cn_inbox s = join_msg g n # ms"
    and prov: "prov_peers p = fmupd n (node_info g n) (prov_peers (cn_prov s))"
  shows "cluster_inv g (s\<lparr>cn_inbox := ms, cn_prov := p\<rparr>)" (is "cluster_inv g ?t")
proof (rule cluster_invI)
  have ann: "announced ?t = announced s" using q prov by (auto simp: announced_def)
  show "requests_ok g (fmdom' (prov_peers (cn_prov ?t))) (cn_inbox ?t)"
    using cluster_invD(3) [OF inv] q prov by simp
  show "tells_ok g ?t k (cn_tells ?t k)" for k using tells_ok_mono [OF cluster_invD(2) [OF inv], of ?t k] ann by simp
  show "wire_ok g ?t e" if "e \<in> set (cn_wire ?t)" for e using that wire_ok_mono [OF cluster_invD(4) [OF inv], of e ?t] ann by simp
  show "i = node_info g k" if "fmlookup (prov_peers (cn_prov ?t)) k = Some i" for k i
    using that cluster_invD(5) [OF inv, of k i] prov by (auto split: if_splits)
  have "part_of (prov_peers (cn_prov s)) (prov_peers p)"
    using cluster_invD(5) [OF inv, of n] by (auto simp: part_of_def prov)
  then show "answers_ok (answers ?t) (prov_peers (cn_prov ?t))"
    using answers_ok_mono [OF cluster_invD(6) [OF inv], of "answers ?t" "prov_peers p"] by (simp add: answers_def)
qed (use cluster_invD(1) [OF inv] in simp)

lemma keyed_table: "cluster_inv g s \<Longrightarrow> keyed (prov_peers (cn_prov s))"
  using cluster_invD(5) [of g s] by (fastforce simp: keyed_def)

lemma handled_discover:
  assumes inv: "cluster_inv g s" and q: "cn_inbox s = discover_msg g n # ms" and ord: "map_order ord"
    and t: "t = s\<lparr>cn_inbox := ms\<rparr> \<or> t = s\<lparr>cn_inbox := ms, cn_wire := (node_ref g n, PeerList (peer_values ord (prov_peers (cn_prov s)))) # cn_wire s\<rparr>"
  shows "cluster_inv g t"
proof (rule cluster_invI)
  have same: "cn_prov t = cn_prov s" "cn_client t = cn_client s" "cn_tells t = cn_tells s" "cn_inbox t = ms" "cn_mail t = cn_mail s"
    using t by auto
  have ann: "announced t = announced s" using q by (simp add: announced_def same)
  have known: "n \<in> fmdom' (prov_peers (cn_prov s))" "requests_ok g (fmdom' (prov_peers (cn_prov s))) ms"
    using cluster_invD(3) [OF inv] q by auto
  show "requests_ok g (fmdom' (prov_peers (cn_prov t))) (cn_inbox t)" using known(2) by (simp add: same)
  show "tells_ok g t k (cn_tells t k)" for k using tells_ok_mono [OF cluster_invD(2) [OF inv], of t k] ann by (simp add: same)
  show "wire_ok g t e" if "e \<in> set (cn_wire t)" for e
    using that t wire_ok_mono [OF cluster_invD(4) [OF inv], of e t] ann by (auto simp: wire_ok_def)
  have "adopt_peers (peer_values ord (prov_peers (cn_prov s))) = prov_peers (cn_prov s)"
    using peer_values_facts(1) [OF ord keyed_table [OF inv]] by (intro fmap_ext) simp
  then have "answers t \<subseteq> insert (n, prov_peers (cn_prov s)) (answers s)" using t by (auto simp: answers_def)
  then show "answers_ok (answers t) (prov_peers (cn_prov t))" unfolding same
    by (rule answers_ok_mono [OF answers_ok_insert [OF cluster_invD(6) [OF inv] known(1)]]) simp
qed (use t cluster_invD(1,5) [OF inv] in auto)

lemma handled_other:
  assumes inv: "cluster_inv g s" and q: "cn_inbox s = PeerList ps # ms"
  shows "cluster_inv g (s\<lparr>cn_inbox := ms\<rparr>)"
  by (rule cluster_inv_keep [OF inv]) (use q cluster_invD(3) [OF inv] in \<open>auto simp: announced_def answers_def\<close>)

text \<open>What the provider does with the message at the front of its mailbox.\<close>

lemma provider_effects:
  assumes inv: "cluster_inv g s" and q: "cn_inbox s = m # ms"
    and h: "provider_receive dial (send_answer err sent) (\<lambda>_ s. s) (\<lambda>_ s. s) ord (cn_prov s) m (s\<lparr>cn_inbox := ms\<rparr>) = Some (p, t)"
  obtains (joined) n where "m = join_msg g n" "t = s\<lparr>cn_inbox := ms\<rparr>" "prov_peers p = fmupd n (node_info g n) (prov_peers (cn_prov s))"
    | (discovers) n where "m = discover_msg g n" "p = cn_prov s"
        "t = s\<lparr>cn_inbox := ms\<rparr> \<or> t = s\<lparr>cn_inbox := ms, cn_wire := (node_ref g n, PeerList (peer_values ord (prov_peers (cn_prov s)))) # cn_wire s\<rparr>"
    | (other) ps where "m = PeerList ps" "p = cn_prov s" "t = s\<lparr>cn_inbox := ms\<rparr>"
proof -
  have "requests_ok g (fmdom' (prov_peers (cn_prov s))) (m # ms)" using cluster_invD(3) [OF inv] q by simp
  then consider n where "m = join_msg g n" | n where "m = discover_msg g n" | ps where "m = PeerList ps" by auto
  then show ?thesis
  proof cases
    case 1
    then show ?thesis using provider_joins [OF h [unfolded 1]] joined by blast
  next
    case 2
    then show ?thesis using provider_answers [OF h [unfolded 2]] discovers [of n] by simp
  next
    case 3
    then show ?thesis using h other [of ps] by (simp add: provider_receive_def)
  qed
qed

lemma inv_provider_handles:
  assumes inv: "cluster_inv g s" and q: "cn_inbox s = m # ms" and ord: "map_order ord"
    and h: "provider_receive dial (send_answer err sent) (\<lambda>_ s. s) (\<lambda>_ s. s) ord (cn_prov s) m (s\<lparr>cn_inbox := ms\<rparr>) = Some (p, t)"
  shows "cluster_inv g (t\<lparr>cn_prov := p\<rparr>)"
  using inv q h
proof (cases rule: provider_effects)
  case (joined n)
  then show ?thesis using handled_join [OF inv, of n ms p] q by simp
next
  case (discovers n)
  then have "t\<lparr>cn_prov := cn_prov s\<rparr> = t" by auto
  then show ?thesis using handled_discover [OF inv _ ord discovers(3)] q discovers(1,2) by simp
next
  case (other ps)
  then show ?thesis using handled_other [OF inv, of ps ms] q by simp
qed

lemma cluster_inv_step:
  assumes "cluster_inv g s" and "cluster_step g s t"
  shows "cluster_inv g t"
  using assms(2)
proof cases
  case (node_started n dial c ms)
  then show ?thesis using inv_node_started [OF assms(1)] by simp
next
  case (node_stopped n c)
  then show ?thesis using inv_node_stopped [OF assms(1)] by simp
next
  case (tell_answered n m ms)
  then show ?thesis using inv_tell_answered [OF assms(1)] by simp
next
  case (tell_refused n m ms)
  then show ?thesis using inv_tell_failed [OF assms(1) tell_refused(2), of s] by simp
next
  case (tell_timeout n m ms)
  then show ?thesis using inv_tell_failed [OF assms(1) tell_timeout(2)] by simp
next
  case (arrived xs r m ys)
  then show ?thesis using inv_arrived [OF assms(1)] by simp
next
  case (dropped xs r m ys)
  then show ?thesis using inv_dropped [OF assms(1)] by simp
next
  case (provider_handles m ms ord dial err sent p u)
  then show ?thesis using inv_provider_handles [OF assms(1)] by simp
next
  case (client_handles n c m ms ord c' out)
  then show ?thesis using inv_client_handles [OF assms(1)] by simp
next
  case (local_message n c m r)
  then show ?thesis using inv_local_message [OF assms(1)] by simp
qed

lemma cluster_inv_start: "cluster_inv g (net_start g)"
  by (simp add: cluster_inv_def net_start_def NewProviderActor_def answers_ok_def answers_def)

interpretation cluster_sys: safe_system "\<lambda>s. s = net_start g" "cluster_step g" "cluster_inv g" for g
  by unfold_locales (auto intro: cluster_inv_start cluster_inv_step)

section \<open>Properties\<close>

lemma cluster_good: "cluster_reachable g s \<Longrightarrow> cluster_inv g s"
  unfolding cluster_reachable_def by (rule cluster_sys.reaches_good)

lemma known_tables:
  assumes "cluster_inv g s" and "cn_client s n = Some c" and "cl_peers c \<noteq> fmempty"
  shows "(n, cl_peers c) \<in> answers s" and "n \<in> fmdom' (cl_peers c)"
    and "fmlookup (cl_peers c) k = Some i \<Longrightarrow> i = node_info g k"
proof -
  show a: "(n, cl_peers c) \<in> answers s" using assms(2,3) unfolding answers_def by blast
  from cluster_invD(6) [OF assms(1)] a have ok: "n \<in> fmdom' (cl_peers c)" "part_of (cl_peers c) (prov_peers (cn_prov s))"
    unfolding answers_ok_def by blast+
  show "n \<in> fmdom' (cl_peers c)" by (rule ok(1))
  show "fmlookup (cl_peers c) k = Some i \<Longrightarrow> i = node_info g k"
    using ok(2) cluster_invD(5) [OF assms(1), of k i] unfolding part_of_def by blast
qed

text \<open>C26: What the nodes of a cluster know of each other, whatever tells are lost, repeated or late, in any
interleaving of the provider, the nodes and their restarts: a node that has had an answer knows itself, has
the right address for every node it knows, and of any two such nodes one knows everything the other
knows; so one of the two knows the other.\<close>

theorem cluster_views_nested:
  assumes "cluster_reachable g s" and "cn_client s n = Some c" "cl_peers c \<noteq> fmempty"
    and "cn_client s m = Some d" "cl_peers d \<noteq> fmempty"
  shows "fmlookup (cl_peers c) n = Some \<lparr>NodeId = n, Addr = cc_addr g n\<rparr> \<and>
    (\<forall>k i. fmlookup (cl_peers c) k = Some i \<longrightarrow> i = \<lparr>NodeId = k, Addr = cc_addr g k\<rparr>) \<and>
    (part_of (cl_peers c) (cl_peers d) \<or> part_of (cl_peers d) (cl_peers c)) \<and>
    (m \<in> fmdom' (cl_peers c) \<or> n \<in> fmdom' (cl_peers d))"
proof -
  note inv = cluster_good [OF assms(1)]
  note c = known_tables [OF inv assms(2,3)] and d = known_tables [OF inv assms(4,5)]
  have nested: "part_of (cl_peers c) (cl_peers d) \<or> part_of (cl_peers d) (cl_peers c)"
    using cluster_invD(6) [OF inv] c(1) d(1) unfolding answers_ok_def by blast
  moreover have "part_of T U \<Longrightarrow> k \<in> fmdom' T \<Longrightarrow> k \<in> fmdom' U" for T U k
    by (auto simp: part_of_def fmlookup_dom'_iff)
  ultimately have "m \<in> fmdom' (cl_peers c) \<or> n \<in> fmdom' (cl_peers d)" using c(2) d(2) by blast
  moreover obtain i where "fmlookup (cl_peers c) n = Some i" using c(2) by (auto simp: fmlookup_dom'_iff)
  ultimately show ?thesis using c(3) nested by blast
qed

text \<open>The provider's table only grows: clients never send LeaveCluster, also not when they stop.\<close>

lemma table_grows:
  assumes "cluster_inv g s" and "cluster_step g s t"
  shows "part_of (prov_peers (cn_prov s)) (prov_peers (cn_prov t))"
  using assms(2)
proof cases
  case (provider_handles m ms ord dial err sent p u)
  from assms(1) provider_handles(2,4) show ?thesis
  proof (cases rule: provider_effects)
    case (joined n)
    then show ?thesis using cluster_invD(5) [OF assms(1), of n] by (auto simp: provider_handles(1) part_of_def)
  qed (simp_all add: provider_handles(1))
qed (auto simp: arrive_def split: option.split)

text \<open>Every answer is an old one or the provider's table at the step that makes it.\<close>

lemma answers_step:
  assumes "cluster_inv g s" and "cluster_step g s t"
  shows "answers t \<subseteq> answers s \<union> {(n, T). T = prov_peers (cn_prov s)}"
  using assms(2)
proof cases
  case (provider_handles m ms ord dial err sent p u)
  have new: "adopt_peers (peer_values ord (prov_peers (cn_prov s))) = prov_peers (cn_prov s)"
    using peer_values_facts(1) [OF provider_handles(3) keyed_table [OF assms(1)]] by (intro fmap_ext) simp
  from assms(1) provider_handles(2,4) show ?thesis
    by (cases rule: provider_effects) (auto simp: provider_handles(1) answers_def new)
next
  case (client_handles n c m ms ord c' out)
  then show ?thesis using client_answers [OF assms(1) client_handles(2,4,6)] by blast
next
  case (node_started n dial c ms)
  then show ?thesis using start_client_cases(2) [OF node_started(3)] by (auto simp: answers_def split: if_splits)
next
  case (arrived xs r m ys)
  then show ?thesis by (auto simp: answers_def arrive_def split: option.splits if_splits)
next
  case (tell_timeout n m ms)
  then show ?thesis using tells_request(3) [OF assms(1) tell_timeout(2)] by (auto simp: answers_def)
qed (auto simp: answers_def split: if_splits)

text \<open>C27: Discovery catches up: once the provider has processed the registrations of some nodes, every answer that
is made from then on, and so every table a node has that was not answered before, contains all of them,
in every continuation; the provider forgets no node, since no client sends LeaveCluster, not even when it
stops.\<close>

theorem later_answers_complete:
  assumes "cluster_reachable g s" and "(cluster_step g)\<^sup>*\<^sup>* s t"
    and "cn_client t n = Some c" and "cl_peers c \<noteq> fmempty"
  shows "part_of (prov_peers (cn_prov s)) (prov_peers (cn_prov t)) \<and>
    ((n, cl_peers c) \<in> answers s \<or> part_of (prov_peers (cn_prov s)) (cl_peers c))"
proof -
  have "cluster_inv g t \<and> part_of (prov_peers (cn_prov s)) (prov_peers (cn_prov t)) \<and>
    (\<forall>(n, T)\<in>answers t. (n, T) \<in> answers s \<or> part_of (prov_peers (cn_prov s)) T)"
    using assms(2)
  proof (induction rule: rtranclp_induct)
    case base
    then show ?case using cluster_good [OF assms(1)] by auto
  next
    case (step t u)
    then have inv: "cluster_inv g t" and old: "part_of (prov_peers (cn_prov s)) (prov_peers (cn_prov t))" by simp_all
    have "part_of (prov_peers (cn_prov s)) (prov_peers (cn_prov u))"
      using part_of_trans [OF old table_grows [OF inv step.hyps(2)]] .
    then show ?case using answers_step [OF inv step.hyps(2)] cluster_inv_step [OF inv step.hyps(2)] step.IH old by blast
  qed
  then show ?thesis using known_tables(1) [OF _ assms(3,4)] by blast
qed

section \<open>A registration without faults\<close>

definition registered :: "cluster_config \<Rightarrow> string \<Rightarrow> cluster_net \<Rightarrow> cluster_net" where
  "registered g n s =
     (let table = fmupd n (node_info g n) (prov_peers (cn_prov s)) in
      s\<lparr>cn_client := (cn_client s)(n := Some ((NewProviderClientActor n (cc_addr g n) (ref_target (cc_provider g)) (ref_addr (cc_provider g)))
          \<lparr>cl_conn := Some (ref_addr (cc_provider g)), provider := Some (cc_provider g), cl_peers := table\<rparr>)),
        cn_prov := (cn_prov s)\<lparr>prov_peers := table\<rparr>\<rparr>)"

definition idle :: "cluster_net \<Rightarrow> bool" where
  "idle s \<longleftrightarrow> cn_inbox s = [] \<and> cn_wire s = [] \<and> cn_mail s = (\<lambda>_. []) \<and> cn_tells s = (\<lambda>_. []) \<and> cn_tries s = (\<lambda>_. 0)"

lemma idle_registered: "idle s \<Longrightarrow> idle (registered g n s)"
  by (simp add: idle_def registered_def Let_def)

lemma start_client_dialled:
  "start_client (\<lambda>_. True) (NewProviderClientActor n (cc_addr g n) (ref_target r) (ref_addr r)) =
     Some ((NewProviderClientActor n (cc_addr g n) (ref_target r) (ref_addr r))\<lparr>cl_conn := Some (ref_addr r), provider := Some r\<rparr>, register_tells g n)"
  using noted_register [of g n "(NewProviderClientActor n (cc_addr g n) (ref_target r) (ref_addr r))\<lparr>cl_conn := Some (ref_addr r), provider := Some r\<rparr>"]
  by (cases r) (simp add: client_OnStart_def NewRef_def Dial_def client_ok_def NewProviderClientActor_def Let_def)

lemma step_joined:
  "cn_inbox s = join_msg g n # ms \<Longrightarrow>
   cluster_step g s (s\<lparr>cn_inbox := ms, cn_prov := (cn_prov s)\<lparr>prov_peers := fmupd n (node_info g n) (prov_peers (cn_prov s))\<rparr>\<rparr>)"
  by (drule cluster_step.provider_handles [where ord = sorted_order and dial = "\<lambda>_. True" and err = None and sent = True])
    (simp_all add: provider_receive_def)

lemma step_answered:
  assumes "cn_inbox s = discover_msg g n # ms" and "cc_addr g n \<noteq> []"
  shows "cluster_step g s (s\<lparr>cn_inbox := ms, cn_wire := (node_ref g n, PeerList (peer_values sorted_order (prov_peers (cn_prov s)))) # cn_wire s\<rparr>)"
    (is "cluster_step g s ?t")
proof -
  have "provider_receive (\<lambda>_. True) (send_answer None True) (\<lambda>_ s. s) (\<lambda>_ s. s) sorted_order (cn_prov s) (discover_msg g n)
      (s\<lparr>cn_inbox := ms\<rparr>) = Some (cn_prov s, ?t)"
    using assms(2) by (simp add: provider_receive_def replyPeerList_def Dial_def send_answer_def Let_def)
  from cluster_step.provider_handles [OF assms(1) _ this] show ?thesis by simp
qed

lemma fault_free_registration:
  assumes "cluster_reachable g s" and "idle s" and "cn_client s n = None"
    and "cc_addr g n \<noteq> ''''" and "node_ref g n \<noteq> cc_provider g"
  shows "(cluster_step g)\<^sup>*\<^sup>* s (registered g n s)"
proof -
  let ?P = "fmupd n (node_info g n) (prov_peers (cn_prov s))"
  let ?c = "(NewProviderClientActor n (cc_addr g n) (ref_target (cc_provider g)) (ref_addr (cc_provider g)))
    \<lparr>cl_conn := Some (ref_addr (cc_provider g)), provider := Some (cc_provider g)\<rparr>"
  let ?list = "PeerList (peer_values sorted_order ?P) :: unit cluster_msg"
  define s1 where "s1 = s\<lparr>cn_client := (cn_client s)(n := Some ?c), cn_tells := (cn_tells s)(n := register_tells g n)\<rparr>"
  define s2 where "s2 = s1\<lparr>cn_inbox := [join_msg g n], cn_tells := (cn_tells s1)(n := [discover_msg g n]), cn_tries := (cn_tries s1)(n := 0)\<rparr>"
  define s3 where "s3 = s2\<lparr>cn_inbox := register_tells g n, cn_tells := (cn_tells s2)(n := []), cn_tries := (cn_tries s2)(n := 0)\<rparr>"
  define s4 where "s4 = s3\<lparr>cn_inbox := [discover_msg g n], cn_prov := (cn_prov s3)\<lparr>prov_peers := ?P\<rparr>\<rparr>"
  define s5 where "s5 = s4\<lparr>cn_inbox := [], cn_wire := [(node_ref g n, ?list)]\<rparr>"
  define s6 where "s6 = s5\<lparr>cn_wire := [], cn_mail := (cn_mail s5)(n := [?list])\<rparr>"
  define s7 where "s7 = s6\<lparr>cn_client := (cn_client s6)(n := Some (?c\<lparr>cl_peers := ?P\<rparr>)), cn_tells := (cn_tells s6)(n := []), cn_mail := (cn_mail s6)(n := [])\<rparr>"
  note def = s1_def s2_def s3_def s4_def s5_def s6_def
  have 1: "cluster_step g s s1" unfolding s1_def by (rule cluster_step.node_started [OF assms(3) start_client_dialled])
  have 2: "cluster_step g s1 s2"
    using cluster_step.tell_answered [of s1 n "join_msg g n" "[discover_msg g n]" g] assms(2) by (simp add: s1_def s2_def idle_def)
  have 3: "cluster_step g s2 s3"
    using cluster_step.tell_answered [of s2 n "discover_msg g n" "[]" g] by (simp add: s2_def s3_def)
  have 4: "cluster_step g s3 s4"
    using step_joined [where s = s3 and n = n and ms = "[discover_msg g n]" and g = g] by (simp add: def)
  have 5: "cluster_step g s4 s5"
    using step_answered [of s4 g n "[]"] assms(2,4) by (simp add: def idle_def)
  have 6: "cluster_step g s5 s6"
    using cluster_step.arrived [of s5 "[]" "node_ref g n" ?list "[]" g] assms(2,5)
    by (simp add: def arrive_def NewProviderClientActor_def idle_def)
  have "keyed (prov_peers (cn_prov s))" by (rule keyed_table [OF cluster_good [OF assms(1)]])
  then have "adopt_peers (peer_values sorted_order ?P) = ?P"
    by (intro fmap_ext peer_values_facts(1)) (simp_all add: keyed_def)
  then have 7: "cluster_step g s6 s7"
    using cluster_step.client_handles [of s6 n ?c ?list "[]" sorted_order "?c\<lparr>cl_peers := ?P\<rparr>" "[]" g]
    by (simp add: def s7_def client_receive_def)
  note go = rtranclp.rtrancl_into_rtrancl [where r = "cluster_step g" and a = s]
  have "(cluster_step g)\<^sup>*\<^sup>* s s7"
    by (rule go [OF go [OF go [OF go [OF go [OF go [OF go [OF rtranclp.rtrancl_refl [of "cluster_step g" s] 1] 2] 3] 4] 5] 6] 7])
  moreover have "s7 = registered g n s"
    using assms(2) by (simp add: def s7_def registered_def Let_def idle_def fun_upd_idem)
  ultimately show ?thesis by simp
qed

definition demo_cluster :: cluster_config where
  "demo_cluster = \<lparr>cc_addr = (\<lambda>n. if n = ''a'' then ''h1:1'' else ''h2:1''), cc_provider = \<lparr>ref_target = ''provider'', ref_addr = ''p:1''\<rparr>\<rparr>"

definition one_node :: cluster_net where
  "one_node = registered demo_cluster ''a'' (net_start demo_cluster)"

definition two_nodes :: cluster_net where
  "two_nodes = registered demo_cluster ''b'' one_node"

abbreviation demo_table :: "cluster_net \<Rightarrow> string \<Rightarrow> client_actor" where
  "demo_table s n \<equiv> the (cn_client s n)"

lemma demo_cluster_run:
  "cluster_reachable demo_cluster one_node" "(cluster_step demo_cluster)\<^sup>*\<^sup>* one_node two_nodes" "cluster_reachable demo_cluster two_nodes"
proof -
  have 0: "cluster_reachable demo_cluster (net_start demo_cluster)" by (simp add: cluster_reachable_def reaches_start)
  have start: "idle (net_start demo_cluster)" by (simp add: idle_def net_start_def)
  have "(cluster_step demo_cluster)\<^sup>*\<^sup>* (net_start demo_cluster) one_node" unfolding one_node_def
    by (rule fault_free_registration [OF 0 start]) (simp_all add: net_start_def demo_cluster_def)
  then show 1: "cluster_reachable demo_cluster one_node" using 0 reaches_rtranclp unfolding cluster_reachable_def by metis
  have "idle one_node" unfolding one_node_def by (rule idle_registered [OF start])
  then show "(cluster_step demo_cluster)\<^sup>*\<^sup>* one_node two_nodes" unfolding two_nodes_def
    by (rule fault_free_registration [OF 1]) (simp_all add: net_start_def demo_cluster_def one_node_def registered_def Let_def)
  then show "cluster_reachable demo_cluster two_nodes" using 1 reaches_rtranclp unfolding cluster_reachable_def by metis
qed

lemma demo_tables:
  "cn_client two_nodes ''a'' = Some (demo_table two_nodes ''a'')" "cl_peers (demo_table two_nodes ''a'') \<noteq> fmempty"
  "cn_client two_nodes ''b'' = Some (demo_table two_nodes ''b'')" "cl_peers (demo_table two_nodes ''b'') \<noteq> fmempty"
  by (simp_all add: two_nodes_def one_node_def registered_def Let_def)

theorem cluster_views_nested_witness:
  "fmlookup (cl_peers (demo_table two_nodes ''a'')) ''a'' = Some \<lparr>NodeId = ''a'', Addr = ''h1:1''\<rparr> \<and>
    (part_of (cl_peers (demo_table two_nodes ''a'')) (cl_peers (demo_table two_nodes ''b'')) \<or>
     part_of (cl_peers (demo_table two_nodes ''b'')) (cl_peers (demo_table two_nodes ''a''))) \<and>
    (''b'' \<in> fmdom' (cl_peers (demo_table two_nodes ''a'')) \<or> ''a'' \<in> fmdom' (cl_peers (demo_table two_nodes ''b'')))"
  using cluster_views_nested [OF demo_cluster_run(3) demo_tables] by (simp add: demo_cluster_def)

theorem later_answers_complete_witness:
  "part_of (prov_peers (cn_prov one_node)) (prov_peers (cn_prov two_nodes)) \<and>
    ((''b'', cl_peers (demo_table two_nodes ''b'')) \<in> answers one_node \<or>
     part_of (prov_peers (cn_prov one_node)) (cl_peers (demo_table two_nodes ''b'')))"
  by (rule later_answers_complete [OF demo_cluster_run(1,2) demo_tables(3,4)])

end
