(* ===== verification/FedRemote.thy ===== *)
theory FedRemote
  imports FedLive
begin

text \<open>
  Federated rounds over remote references.  An attempt to send can be answered, fail before the peer's
  handler ran, or fail while the handler is still waiting in front of the mailbox, which then gets
  the message later or never; \<^verbatim>\<open>sendWithRetry\<close> repeats failed attempts, so a message can be
  delivered several times, at any time.  What remains true of the results is that they come from counts of the
  partitions of their own round; and training still terminates.
\<close>

section \<open>The network\<close>

text \<open>Beside the network of local references: the failed attempts of the send a node is performing, and the
messages for each node whose handlers are still waiting.\<close>

record remote_net = fed_net +
  tries :: "node \<Rightarrow> nat"
  wire :: "node \<Rightarrow> fl_msg list"

definition remote_start :: "fed_config \<Rightarrow> remote_net" where
  "remote_start g = fed_net.extend (fed_start g) \<lparr>tries = (\<lambda>_. 0), wire = (\<lambda>_. [])\<rparr>"

text \<open>After a failed attempt the loop of sendWithRetry goes on until it has made all its attempts.\<close>

definition attempt_failed :: "node \<Rightarrow> remote_net \<Rightarrow> remote_net" where
  "attempt_failed v s =
     (if Suc (tries s v) < send_attempts then s\<lparr>tries := (tries s)(v := Suc (tries s v))\<rparr>
      else s\<lparr>tries := (tries s)(v := 0), outbox := (outbox s)(v := tl (outbox s v))\<rparr>)"

inductive remote_step :: "fed_config \<Rightarrow> remote_net \<Rightarrow> remote_net \<Rightarrow> bool" for g where
  remote_take: "outbox s v = [] \<Longrightarrow> boxes s v = m # ms \<Longrightarrow> map_runtime rt \<Longrightarrow>
    remote_step g s (fed_handle g rt v m (s\<lparr>boxes := (boxes s)(v := ms)\<rparr>))"
| remote_answered: "outbox s v = SendRetry to m line # es \<Longrightarrow>
    remote_step g s (s\<lparr>boxes := (boxes s)(to := boxes s to @ [m]), outbox := (outbox s)(v := es), tries := (tries s)(v := 0)\<rparr>)"
| remote_refused: "outbox s v = SendRetry to m line # es \<Longrightarrow> remote_step g s (attempt_failed v s)"
| remote_timeout: "outbox s v = SendRetry to m line # es \<Longrightarrow>
    remote_step g s (attempt_failed v (s\<lparr>wire := (wire s)(to := m # wire s to)\<rparr>))"
| remote_arrived: "wire s v = xs @ m # ys \<Longrightarrow>
    remote_step g s (s\<lparr>boxes := (boxes s)(v := boxes s v @ [m]), wire := (wire s)(v := xs @ ys)\<rparr>)"
| remote_dropped: "wire s v = xs @ m # ys \<Longrightarrow> remote_step g s (s\<lparr>wire := (wire s)(v := xs @ ys)\<rparr>)"
| remote_logged: "outbox s v = Log line # es \<Longrightarrow> remote_step g s (s\<lparr>outbox := (outbox s)(v := es)\<rparr>)"
| remote_result: "outbox s v = Result r # es \<Longrightarrow>
    remote_step g s (s\<lparr>results := results s @ [r], outbox := (outbox s)(v := es)\<rparr>)"

section \<open>Where messages come from\<close>

text \<open>The counts of the partitions of round \<open>j\<close>.\<close>

definition shard_counts :: "fed_config \<Rightarrow> nat \<Rightarrow> local_counts set" where
  "shard_counts g j = {CountLocal recs | i recs. i < fc_workers g \<and> Load (fc_files g i) (fed_rounds g ! (j - 1) ! i) = Inr recs}"

text \<open>The updates that complete a round: as many as there are workers (or more), all of the round.\<close>

definition complete_updates :: "fed_config \<Rightarrow> nat \<Rightarrow> local_counts list \<Rightarrow> bool" where
  "complete_updates g j us \<longleftrightarrow>
     set us \<subseteq> shard_counts g j \<and> \<not> int64_gt (of_nat (fc_workers g)) (of_nat (length us))"

definition origin_ok :: "fed_config \<Rightarrow> nat \<Rightarrow> node \<Rightarrow> fl_msg \<Rightarrow> bool" where
  "origin_ok g k v m \<longleftrightarrow>
     (case m of
        TrainRequest q \<Rightarrow> (\<exists>i<fc_workers g. \<exists>j\<in>{1..k}. v = Work i \<and> tr_RoundId q = of_nat j \<and>
          tr_DatasetPartitionPath q = fed_rounds g ! (j - 1) ! i)
      | LocalModelUpdate u \<Rightarrow> (\<exists>j\<in>{1..k}. up_RoundId u = of_nat j \<and> update_counts sorted_runtime u \<in> shard_counts g j)
      | AggregateTrigger t \<Rightarrow> at_ExpectedWorkers t = of_nat (fc_workers g) \<and> (\<exists>j\<in>{1..k}. at_RoundId t = of_nat j)
      | AggregatedModel _ \<Rightarrow> (\<exists>j\<in>{1..k}. \<exists>us. m = model_message (fc_fpu g) (of_nat j) us \<and> complete_updates g j us)
      | _ \<Rightarrow> True)"

definition source_ok :: "fed_config \<Rightarrow> nat \<Rightarrow> round_result \<Rightarrow> bool" where
  "source_ok g k x \<longleftrightarrow> (\<exists>j\<in>{1..k}. \<exists>us rt. complete_updates g j us \<and> map_runtime rt \<and> rr_RoundID x = of_nat j \<and>
     rr_Metrics x = Evaluate (fc_fpu g) rt (Aggregate (fc_fpu g) sorted_runtime us) (fc_test g))"

definition sent_ok :: "fed_config \<Rightarrow> nat \<Rightarrow> node \<Rightarrow> fl_msg \<Rightarrow> bool" where
  "sent_ok g k v m \<longleftrightarrow> v \<in> nodes g \<and> origin_ok g k v m \<and> (\<forall>ps. m \<noteq> StartTraining ps)"

definition performed_ok :: "fed_config \<Rightarrow> nat \<Rightarrow> node effect \<Rightarrow> bool" where
  "performed_ok g k e \<longleftrightarrow> (case e of SendRetry to m _ \<Rightarrow> sent_ok g k to m | Log _ \<Rightarrow> True | Result x \<Rightarrow> source_ok g k x)"

definition gathered_ok :: "fed_config \<Rightarrow> nat \<Rightarrow> node aggregator_actor \<Rightarrow> bool" where
  "gathered_ok g k a \<longleftrightarrow> expected_ok g k a \<and>
     (\<forall>r. \<forall>u\<in>set (round_updates a r). \<exists>j\<in>{1..k}. r = of_nat j \<and> u \<in> shard_counts g j)"

definition remote_ok :: "fed_config \<Rightarrow> nat \<Rightarrow> remote_net \<Rightarrow> bool" where
  "remote_ok g k s \<longleftrightarrow> actors_ok g k s \<and> gathered_ok g k (agg s) \<and>
     (\<forall>v. \<forall>m\<in>set (boxes s v). v \<in> nodes g \<and> origin_ok g k v m) \<and>
     (\<forall>v. \<forall>m\<in>set (wire s v). sent_ok g k v m) \<and>
     (\<forall>v. \<forall>e\<in>set (outbox s v). v \<in> nodes g \<and> performed_ok g k e) \<and>
     (\<forall>x\<in>set (results s). source_ok g k x)"

definition remote_inv :: "fed_config \<Rightarrow> remote_net \<Rightarrow> bool" where
  "remote_inv g s \<longleftrightarrow> (\<exists>k. remote_ok g k s)"

lemma origin_ok_mono: "origin_ok g k v m \<Longrightarrow> k \<le> k' \<Longrightarrow> origin_ok g k' v m"
  by (cases m) (fastforce simp: origin_ok_def)+

lemma source_ok_mono: "source_ok g k x \<Longrightarrow> k \<le> k' \<Longrightarrow> source_ok g k' x"
  unfolding source_ok_def by (meson atLeastAtMost_iff le_trans)

lemma performed_ok_mono: "performed_ok g k e \<Longrightarrow> k \<le> k' \<Longrightarrow> performed_ok g k' e"
  by (cases e) (auto simp: performed_ok_def sent_ok_def intro: origin_ok_mono source_ok_mono)

lemma gathered_ok_mono: "gathered_ok g k a \<Longrightarrow> k \<le> k' \<Longrightarrow> gathered_ok g k' a"
  unfolding gathered_ok_def expected_ok_def by (meson atLeastAtMost_iff le_trans)

section \<open>The handlers\<close>

lemma worker_performs:
  assumes "map_runtime rt" and "origin_ok g k (Work i) m"
  shows "list_all (performed_ok g k) (worker_receive (fc_files g i) rt (fed_worker g i) m)"
proof (cases m)
  case (TrainRequest q)
  then obtain j where j: "i < fc_workers g" "j \<in> {1..k}" "tr_RoundId q = of_nat j"
    "tr_DatasetPartitionPath q = fed_rounds g ! (j - 1) ! i"
    using assms(2) by (auto simp: origin_ok_def)
  then have "Load (fc_files g i) (tr_DatasetPartitionPath q) = Inr recs \<Longrightarrow> CountLocal recs \<in> shard_counts g j" for recs
    by (auto simp: shard_counts_def)
  then show ?thesis using assms(1) j(2,3)
    by (auto simp: TrainRequest worker_receive_train performed_ok_def sent_ok_def origin_ok_def fed_worker_def nodes_def
        update_counts_for up_RoundId_update_for split: sum.split)
qed (simp_all add: worker_receive_def)

lemma gathered_store:
  assumes "gathered_ok g k a" and "origin_ok g k Agg m"
  shows "gathered_ok g k (agg_store a m)"
  using assms
  by (cases m) (auto simp: gathered_ok_def expected_ok_def agg_store_def origin_ok_def split: if_splits)

lemma aggregator_performs:
  assumes "map_runtime rt" and "aggregator_receive (fc_fpu g) rt a m = (a', out)"
    and "gathered_ok g k a" and "origin_ok g k Agg m" and "a_Coordinator a = Coord" and "int k \<le> int64_max"
  shows "a_Coordinator a' = Coord \<and> gathered_ok g k a' \<and> list_all (performed_ok g k) out"
  using assms(1,2)
proof (cases rule: aggregator_receive_cases)
  case wait
  then show ?thesis using gathered_store [OF assms(3,4)] assms(5) by (simp add: agg_store_facts)
next
  case (complete r n)
  note store = gathered_store [OF assms(3,4)]
  obtain j where j: "j \<in> {1..k}" "r = of_nat j" and n: "n = of_nat (fc_workers g)"
    using store complete(1) unfolding gathered_ok_def expected_ok_def by blast
  let ?us = "round_updates (agg_store a m) r"
  have "u \<in> shard_counts g j" if u: "u \<in> set ?us" for u
  proof -
    have "\<forall>u\<in>set ?us. \<exists>j\<in>{1..k}. r = of_nat j \<and> u \<in> shard_counts g j"
      using store [unfolded gathered_ok_def, THEN conjunct2, THEN spec, of r] .
    then obtain j' where j': "j' \<in> {1..k}" "r = of_nat j'" "u \<in> shard_counts g j'" using u by blast
    have "int j' \<le> int64_max" "int j \<le> int64_max" using j(1) j'(1) assms(6) by simp_all
    moreover have "(of_nat j' :: int64) = of_nat j" using j(2) j'(2) by simp
    ultimately show ?thesis using of_nat_int64_inj j'(3) by blast
  qed
  then have us: "complete_updates g j ?us" using complete(2) by (auto simp: complete_updates_def n)
  obtain am where am: "model_message (fc_fpu g) r ?us = AggregatedModel am"
    using model_message_Model [of "fc_fpu g" r ?us] by blast
  have "\<exists>j\<in>{1..k}. \<exists>us. model_message (fc_fpu g) r ?us = model_message (fc_fpu g) (of_nat j) us \<and> complete_updates g j us"
    using j us by blast
  then have "origin_ok g k Coord (model_message (fc_fpu g) r ?us)" using am by (simp add: origin_ok_def)
  then have "list_all (performed_ok g k) out"
    using complete(4) assms(5) am by (auto simp: performed_ok_def sent_ok_def nodes_def)
  moreover have "gathered_ok g k a'"
    using store complete(3) by (auto simp: gathered_ok_def expected_ok_def round_updates_def split: if_splits)
  ultimately show ?thesis using complete(3) assms(5) by (simp add: agg_store_facts)
qed

text \<open>A started round asks every worker for its partition of that round.\<close>

lemma round_effects_performed:
  assumes "Workers c = map Work [0..<fc_workers g]" and "fed_rounds g ! k = ps"
  shows "list_all (performed_ok g (Suc k)) (round_effects c (fc_workers g) (Suc k) ps)"
  using assms
  by (auto simp: round_effects_def train_requests_def performed_ok_def sent_ok_def origin_ok_def nodes_def list_all_iff
      intro!: bexI [of _ "Suc k"])

lemma evaluate_performed:
  assumes "map_runtime rt" and "origin_ok g k Coord (AggregatedModel am)" and "has_results c" and "TestSet c = fc_test g"
  shows "list_all (performed_ok g k) (evaluate (fc_fpu g) rt c am)"
proof -
  obtain j us where j: "j \<in> {1..k}" "AggregatedModel am = model_message (fc_fpu g) (of_nat j) us" "complete_updates g j us"
    using assms(2) by (auto simp: origin_ok_def)
  obtain line where ev: "evaluate (fc_fpu g) rt c am = [Log line, Result \<lparr>rr_RoundID = of_nat j,
      rr_Metrics = Evaluate (fc_fpu g) (sub_run rt 2) (Aggregate (fc_fpu g) sorted_runtime us) (fc_test g)\<rparr>]"
    using evaluate_model [OF assms(1) j(2) [symmetric], of c] assms(3,4) by auto
  have "source_ok g k \<lparr>rr_RoundID = of_nat j,
      rr_Metrics = Evaluate (fc_fpu g) (sub_run rt 2) (Aggregate (fc_fpu g) sorted_runtime us) (fc_test g)\<rparr>"
    unfolding source_ok_def using j map_runtime_sub [OF assms(1), of 2]
    by (intro bexI [of _ j] exI [of _ us] exI [of _ "sub_run rt 2"]) simp_all
  then show ?thesis by (simp add: ev performed_ok_def)
qed

section \<open>Every step keeps the origins\<close>

lemma remote_ok_mono:
  assumes "remote_ok g k s" and "k \<le> k'" and "actors_ok g k' t" and "agg t = agg s" and "wire t = wire s"
    and "results t = results s" and "\<And>v. set (boxes t v) \<subseteq> set (boxes s v)"
    and "\<And>v. \<forall>e\<in>set (outbox t v). e \<in> set (outbox s v) \<or> v \<in> nodes g \<and> performed_ok g k' e"
  shows "remote_ok g k' t"
proof -
  have "\<forall>v. \<forall>m\<in>set (boxes t v). v \<in> nodes g \<and> origin_ok g k' v m"
    using assms(1,2,7) origin_ok_mono unfolding remote_ok_def by blast
  moreover have "\<forall>v. \<forall>m\<in>set (wire t v). sent_ok g k' v m"
    using assms(1,2,5) origin_ok_mono unfolding remote_ok_def sent_ok_def by metis
  moreover have "\<forall>v. \<forall>e\<in>set (outbox t v). v \<in> nodes g \<and> performed_ok g k' e"
    using assms(1,2,8) performed_ok_mono unfolding remote_ok_def by blast
  moreover have "\<forall>x\<in>set (results t). source_ok g k' x"
    using assms(1,2,6) source_ok_mono unfolding remote_ok_def by metis
  ultimately show ?thesis using assms(1,3,4) gathered_ok_mono [OF _ assms(2)] unfolding remote_ok_def by simp
qed

lemma remote_take_coord:
  assumes ok: "remote_ok g k s" and box: "boxes s Coord = m # ms" "outbox s Coord = []" and rt: "map_runtime rt"
    and t: "t = fed_handle g rt Coord m (s\<lparr>boxes := (boxes s)(Coord := ms)\<rparr>)"
  shows "remote_inv g t"
proof -
  have k: "actors_ok g k s" and m: "origin_ok g k Coord m" using ok box(1) by (auto simp: remote_ok_def)
  obtain c out where recv: "coordinator_receive (fc_fpu g) rt (coord s) m = (c, out)" by fastforce
  have t_eq: "boxes t = (boxes s)(Coord := ms)" "outbox t = (outbox s)(Coord := out)" "results t = results s"
    "agg t = agg s" "coord t = c" "wire t = wire s"
    by (simp_all add: t handler_effects_def recv) (simp add: fed_handle_def recv)
  have sub: "set (boxes t v) \<subseteq> set (boxes s v)" for v using box(1) by (auto simp: t_eq(1))
  have move: "remote_ok g k' t" if "k \<le> k'" "actors_ok g k' t" "list_all (performed_ok g k') out" for k'
    by (rule remote_ok_mono [OF ok that(1,2) t_eq(4,6,3) sub])
      (use that(3) in \<open>auto simp: t_eq(2) list_all_iff nodes_def\<close>)
  have stay: "remote_inv g t" if "c = coord s" "list_all (performed_ok g k) out"
    "starts_in (fc_workers g) (m # ms) = starts_in (fc_workers g) ms"
    unfolding remote_inv_def
    by (rule exI, rule move [of k]) (use that k box(1) in \<open>simp_all add: actors_ok_def t_eq\<close>)
  have W: "length (Workers (coord s)) = fc_workers g" "has_results (coord s)" "TestSet (coord s) = fc_test g"
    using k by (simp_all add: actors_ok_def fed_coordinator_def)
  show ?thesis
  proof (cases m)
    case (StartTraining ps)
    show ?thesis
    proof (cases "length ps = fc_workers g")
      case True
      note start = actors_start [OF k box(1) [unfolded StartTraining] True]
      have "c = (coord s)\<lparr>roundID := of_nat (Suc k)\<rparr>" "out = round_effects (coord s) (fc_workers g) (Suc k) ps"
        using recv start(4) by (simp_all add: StartTraining)
      then show ?thesis unfolding remote_inv_def
        using start(5) [OF t_eq(1) _ t_eq(4)] round_effects_performed [OF start(3,2)]
        by (intro exI [of _ "Suc k"] move) (simp_all add: t_eq(5))
    next
      case False
      then show ?thesis using recv W by (intro stay) (auto simp: StartTraining coordinator_receive_def startRound_def performed_ok_def)
    qed
  next
    case (AggregatedModel am)
    then show ?thesis using recv evaluate_performed [OF rt m [unfolded AggregatedModel] W(2,3)]
      by (intro stay) (auto simp: coordinator_receive_def)
  qed (use recv in \<open>auto simp: coordinator_receive_def intro!: stay\<close>)
qed

lemma remote_take_other:
  assumes bound: "fed_bound g" and ok: "remote_ok g k s" and box: "boxes s v = m # ms" "outbox s v = []" and rt: "map_runtime rt"
    and t: "t = fed_handle g rt v m (s\<lparr>boxes := (boxes s)(v := ms)\<rparr>)" and v: "v \<noteq> Coord"
  shows "remote_inv g t"
proof -
  let ?out = "handler_effects g rt v m s"
  have "m \<in> set (boxes s v)" using box(1) by simp
  then have k: "actors_ok g k s" and m: "v \<in> nodes g" "origin_ok g k v m" and gathered: "gathered_ok g k (agg s)"
    using ok unfolding remote_ok_def by blast+
  have "int k \<le> int64_max" using k bound fed_rounds_le [of g] by (simp add: actors_ok_def fed_bound_def)
  moreover have "a_Coordinator (agg s) = Coord" using k by (simp add: actors_ok_def)
  ultimately have agg: "a_Coordinator (agg t) = Coord \<and> gathered_ok g k (agg t) \<and> list_all (performed_ok g k) ?out"
    if "v = Agg"
    using aggregator_performs [OF rt prod.collapse [symmetric] gathered m(2) [unfolded that]] that by (simp add: t handler_effects_def)
  have work: "list_all (performed_ok g k) ?out" if "v = Work i" for i
    using worker_performs [OF rt m(2) [unfolded that]] that by (simp add: handler_effects_def)
  have t_eq: "boxes t = (boxes s)(v := ms)" "outbox t = (outbox s)(v := ?out)" "results t = results s" "coord t = coord s" "wire t = wire s"
    using v by (simp_all add: t handler_effects_def split: node.split) (simp add: fed_handle_def split: node.split prod.split)
  have facts: "a_Coordinator (agg t) = Coord \<and> gathered_ok g k (agg t) \<and> list_all (performed_ok g k) ?out"
  proof (cases v)
    case (Work i)
    then show ?thesis using work k gathered by (simp add: t actors_ok_def)
  qed (use v agg in simp_all)
  then have "actors_ok g k t"
    using k v by (simp add: actors_ok_def t_eq gathered_ok_def expected_ok_def)
  then have "remote_ok g k t"
    using ok facts box(1) m(1) by (auto simp: remote_ok_def t_eq list_all_iff)
  then show ?thesis by (auto simp: remote_inv_def)
qed

text \<open>The steps that move messages and effects.\<close>

lemma remote_move:
  assumes ok: "remote_ok g k s" and eq: "agg t = agg s" "coord t = coord s"
    and start: "starts_in (fc_workers g) (boxes t Coord) = starts_in (fc_workers g) (boxes s Coord)"
    and boxes: "\<And>v m. m \<in> set (boxes t v) \<Longrightarrow> m \<in> set (boxes s v) \<or> sent_ok g k v m"
    and wire: "\<And>v m. m \<in> set (wire t v) \<Longrightarrow> m \<in> set (wire s v) \<or> sent_ok g k v m"
    and out: "\<And>v. set (outbox t v) \<subseteq> set (outbox s v)"
    and results: "\<And>x. x \<in> set (results t) \<Longrightarrow> x \<in> set (results s) \<or> source_ok g k x"
  shows "remote_inv g t"
proof -
  have "actors_ok g k t" using ok eq start by (simp add: remote_ok_def actors_ok_def)
  moreover have "\<forall>v. \<forall>m\<in>set (boxes t v). v \<in> nodes g \<and> origin_ok g k v m"
    using ok boxes unfolding remote_ok_def sent_ok_def by blast
  moreover have "\<forall>v. \<forall>m\<in>set (wire t v). sent_ok g k v m" using ok wire unfolding remote_ok_def by blast
  moreover have "\<forall>v. \<forall>e\<in>set (outbox t v). v \<in> nodes g \<and> performed_ok g k e" using ok out unfolding remote_ok_def by blast
  moreover have "\<forall>x\<in>set (results t). source_ok g k x" using ok results unfolding remote_ok_def by blast
  moreover have "gathered_ok g k (agg t)" using ok eq(1) by (simp add: remote_ok_def)
  ultimately show ?thesis unfolding remote_inv_def remote_ok_def by blast
qed

lemma remote_head:
  assumes "remote_ok g k s" and "outbox s v = e # es"
  shows "v \<in> nodes g" and "performed_ok g k e" and "set es \<subseteq> set (outbox s v)"
  using assms by (auto simp: remote_ok_def dest: spec [of _ v])

lemma attempt_failed_simps [simp]:
  "boxes (attempt_failed v s) = boxes s" "wire (attempt_failed v s) = wire s" "agg (attempt_failed v s) = agg s"
  "coord (attempt_failed v s) = coord s" "results (attempt_failed v s) = results s"
  "set (outbox (attempt_failed v s) u) \<subseteq> set (outbox s u)"
  by (auto simp: attempt_failed_def dest: list.set_sel(2) split: if_splits) (metis list.set_sel(2) tl_Nil)

lemma attempt_failed_other:
  "u \<noteq> v \<Longrightarrow> tries (attempt_failed v s) u = tries s u \<and> outbox (attempt_failed v s) u = outbox s u"
  by (simp add: attempt_failed_def)

lemma attempt_failed_wire: "attempt_failed v (s\<lparr>wire := w\<rparr>) = (attempt_failed v s)\<lparr>wire := w\<rparr>"
  by (simp add: attempt_failed_def)

lemma remote_inv_step:
  assumes "fed_bound g" and "remote_inv g s" and "remote_step g s t"
  shows "remote_inv g t"
proof -
  obtain k where ok: "remote_ok g k s" using assms(2) by (auto simp: remote_inv_def)
  have sent: "sent_ok g k to m" if "outbox s v = SendRetry to m line # es" for v to m line es
    using remote_head(2) [OF ok that] by (simp add: performed_ok_def)
  have waiting: "sent_ok g k v m" if "wire s v = xs @ m # ys" for v xs m ys
    using ok that by (auto simp: remote_ok_def dest: spec [of _ v])
  have starts: "sent_ok g k to m \<Longrightarrow> starts_in (fc_workers g) (((boxes s)(to := boxes s to @ [m])) Coord) = starts_in (fc_workers g) (boxes s Coord)" for to m
    by (simp add: sent_ok_def starts_in_append)
  show ?thesis using assms(3)
  proof cases
    case (remote_take v m ms rt)
    then show ?thesis
      using remote_take_coord [OF ok] remote_take_other [OF assms(1) ok] by (cases "v = Coord") blast+
  next
    case (remote_answered v to m line es)
    show ?thesis
      by (rule remote_move [OF ok])
        (use sent [OF remote_answered(2)] starts remote_answered(2) in \<open>auto simp: remote_answered(1) split: if_splits\<close>)
  next
    case (remote_refused v to m line es)
    then show ?thesis by (intro remote_move [OF ok]) auto
  next
    case (remote_timeout v to m line es)
    have "set (outbox t u) \<subseteq> set (outbox s u)" for u unfolding remote_timeout(1) using attempt_failed_simps(6) by fastforce
    then show ?thesis using sent [OF remote_timeout(2)]
      by (intro remote_move [OF ok]) (auto simp: remote_timeout(1) split: if_splits)
  next
    case (remote_arrived v xs m ys)
    show ?thesis
      by (rule remote_move [OF ok])
        (use waiting [OF remote_arrived(2)] starts remote_arrived(2) in \<open>auto simp: remote_arrived(1) split: if_splits\<close>)
  next
    case (remote_dropped v xs m ys)
    show ?thesis
      by (rule remote_move [OF ok]) (use remote_dropped(2) in \<open>auto simp: remote_dropped(1) split: if_splits\<close>)
  next
    case (remote_logged v line es)
    then show ?thesis by (intro remote_move [OF ok]) auto
  next
    case (remote_result v r es)
    then show ?thesis using remote_head(2) [OF ok remote_result(2)]
      by (intro remote_move [OF ok]) (auto simp: performed_ok_def)
  qed
qed

lemma remote_inv_start: "remote_inv g (remote_start g)"
proof -
  have starts: "starts_in n (map StartTraining pss) = filter (\<lambda>ps. length ps = n) pss" for n pss
    by (induction pss) simp_all
  have "remote_ok g 0 (remote_start g)"
    by (auto simp: remote_ok_def remote_start_def fed_start_def fed_net.defs actors_ok_def gathered_ok_def expected_ok_def
        NewAggregatorActor_def round_updates_def fed_coordinator_def starts fed_rounds_def nodes_def origin_ok_def split: if_splits)
  then show ?thesis unfolding remote_inv_def by blast
qed

interpretation remote_sys: safe_system
  "\<lambda>s. fed_bound g \<and> s = remote_start g" "remote_step g" "\<lambda>s. fed_bound g \<and> remote_inv g s" for g
  by unfold_locales (auto simp: remote_inv_start intro: remote_inv_step)

section \<open>Termination\<close>

text \<open>Ten attempts, each one step and at most one more for a late arrival.\<close>

abbreviation remote_msg :: "fed_config \<Rightarrow> fl_msg \<Rightarrow> nat" where
  "remote_msg g \<equiv> msg_weight send_attempts 2 (fc_workers g)"

abbreviation remote_effect :: "fed_config \<Rightarrow> node effect \<Rightarrow> nat" where
  "remote_effect g \<equiv> effect_weight send_attempts 2 (fc_workers g)"

text \<open>The effects of a node that has made \<open>k\<close> attempts at the first.\<close>

fun pending_weight :: "fed_config \<Rightarrow> nat \<Rightarrow> node effect list \<Rightarrow> nat" where
  "pending_weight g k [] = 0"
| "pending_weight g k (SendRetry to m line # es) = (send_attempts - k) * (remote_msg g m + 2) + sum_list (map (remote_effect g) es)"
| "pending_weight g k (e # es) = Suc (sum_list (map (remote_effect g) es))"

definition waiting_weight :: "fed_config \<Rightarrow> fl_msg list \<Rightarrow> fl_msg list \<Rightarrow> nat" where
  "waiting_weight g ms ws = sum_list (map (remote_msg g) ms) + sum_list (map (\<lambda>m. Suc (remote_msg g m)) ws)"

definition remote_weight :: "fed_config \<Rightarrow> remote_net \<Rightarrow> nat" where
  "remote_weight g s =
     (\<Sum>v\<in>nodes g. waiting_weight g (boxes s v) (wire s v)) + (\<Sum>v\<in>nodes g. pending_weight g (tries s v) (outbox s v))"

lemma pending_weight_fresh: "pending_weight g k es \<le> sum_list (map (remote_effect g) es)"
proof (cases "(g, k, es)" rule: pending_weight.cases)
  case (2 g' k' to m line es')
  have "(send_attempts - k) * (remote_msg g m + 2) \<le> send_attempts * (remote_msg g m + 2)" by (intro mult_le_mono) simp_all
  then show ?thesis using 2 by simp
qed simp_all

lemma sum_change:
  fixes F :: "node \<Rightarrow> nat"
  assumes "v \<in> nodes g" and "\<And>u. u \<noteq> v \<Longrightarrow> F u = H u"
  shows "(\<Sum>u\<in>nodes g. F u) + H v = (\<Sum>u\<in>nodes g. H u) + F v"
proof -
  have "(\<Sum>u\<in>nodes g - {v}. F u) = (\<Sum>u\<in>nodes g - {v}. H u)" using assms(2) by (intro sum.cong) auto
  then show ?thesis using assms(1) by (simp add: sum.remove)
qed

text \<open>Weights when the messages of one node and the effects of another change.\<close>

lemma remote_weight_change:
  assumes "v \<in> nodes g" and "to \<in> nodes g"
    and "\<And>u. u \<noteq> to \<Longrightarrow> boxes t u = boxes s u \<and> wire t u = wire s u"
    and "\<And>u. u \<noteq> v \<Longrightarrow> tries t u = tries s u \<and> outbox t u = outbox s u"
  shows "remote_weight g t + waiting_weight g (boxes s to) (wire s to) + pending_weight g (tries s v) (outbox s v) =
    remote_weight g s + waiting_weight g (boxes t to) (wire t to) + pending_weight g (tries t v) (outbox t v)"
proof -
  have "(\<Sum>u\<in>nodes g. waiting_weight g (boxes t u) (wire t u)) + waiting_weight g (boxes s to) (wire s to) =
      (\<Sum>u\<in>nodes g. waiting_weight g (boxes s u) (wire s u)) + waiting_weight g (boxes t to) (wire t to)"
    using assms(2) by (rule sum_change) (simp add: assms(3))
  moreover have "(\<Sum>u\<in>nodes g. pending_weight g (tries t u) (outbox t u)) + pending_weight g (tries s v) (outbox s v) =
      (\<Sum>u\<in>nodes g. pending_weight g (tries s u) (outbox s u)) + pending_weight g (tries t v) (outbox t v)"
    using assms(1) by (rule sum_change) (simp add: assms(4))
  ultimately show ?thesis by (simp add: remote_weight_def)
qed

definition attempts_ok :: "remote_net \<Rightarrow> bool" where
  "attempts_ok s \<longleftrightarrow> (\<forall>v. tries s v < send_attempts)"

lemma send_attempts_pos [simp]: "0 < send_attempts"
  by (simp add: send_attempts_def)

lemma remote_handle_simps [simp]:
  "wire (fed_handle g rt v m s) = wire s" "tries (fed_handle g rt v m s) = tries s"
  by (cases v; simp add: fed_handle_def split: prod.split)+

lemma attempts_ok_step: "remote_step g s t \<Longrightarrow> attempts_ok s \<Longrightarrow> attempts_ok t"
  by (induction rule: remote_step.induct) (auto simp: attempts_ok_def attempt_failed_def)

text \<open>A failed attempt uses up its share of the weight.\<close>

lemma attempt_failed_weight:
  assumes "outbox s v = SendRetry to m line # es" and "tries s v < send_attempts"
  shows "pending_weight g (tries (attempt_failed v s) v) (outbox (attempt_failed v s) v) + (remote_msg g m + 2) \<le>
    pending_weight g (tries s v) (outbox s v)"
proof (cases "Suc (tries s v) < send_attempts")
  case True
  then have "send_attempts - tries s v = Suc (send_attempts - Suc (tries s v))" by simp
  then show ?thesis using True assms(1) by (simp add: attempt_failed_def)
next
  case False
  then have "send_attempts - tries s v = 1" using assms(2) by simp
  then show ?thesis using False assms(1) pending_weight_fresh [of g 0 es] by (simp add: attempt_failed_def)
qed

lemma remote_step_weight:
  assumes "remote_inv g s" and "attempts_ok s" and "remote_step g s t"
  shows "remote_weight g t < remote_weight g s"
proof -
  obtain k where ok: "remote_ok g k s" using assms(1) by (auto simp: remote_inv_def)
  have tries: "tries s v < send_attempts" for v using assms(2) by (simp add: attempts_ok_def)
  have target: "v \<in> nodes g \<and> to \<in> nodes g" if "outbox s v = SendRetry to m line # es" for v to m line es
    using remote_head(1,2) [OF ok that] by (simp add: performed_ok_def sent_ok_def)
  have waiting: "v \<in> nodes g" if "wire s v = xs @ m # ys" for v xs m ys
    using ok that by (auto simp: remote_ok_def sent_ok_def dest: spec [of _ v])
  have share: "remote_msg g m + 2 + sum_list (map (remote_effect g) es) \<le> pending_weight g (tries s v) (outbox s v)"
    if "outbox s v = SendRetry to m line # es" for v to m line es
  proof -
    have "1 * (remote_msg g m + 2) \<le> (send_attempts - tries s v) * (remote_msg g m + 2)"
      using tries [of v] by (intro mult_le_mono) simp_all
    then show ?thesis using that by simp
  qed
  show ?thesis using assms(3)
  proof cases
    case (remote_take v m ms rt)
    let ?u = "s\<lparr>boxes := (boxes s)(v := ms)\<rparr>"
    have v: "v \<in> nodes g" using ok remote_take(3) by (auto simp: remote_ok_def dest: spec [of _ v])
    have "length (Workers (coord ?u)) = fc_workers g" using ok by (simp add: remote_ok_def actors_ok_def fed_coordinator_def)
    then have "sum_list (map (remote_effect g) (handler_effects g rt v m ?u)) < remote_msg g m"
      using remote_take(4) by (rule handle_weight) simp
    then have "pending_weight g (tries t v) (outbox t v) < remote_msg g m"
      using pending_weight_fresh [of g "tries s v"] le_less_trans by (fastforce simp: remote_take(1))
    then show ?thesis
      using remote_weight_change [OF v v, of t s] remote_take(2,3)
      by (simp add: remote_take(1) waiting_weight_def)
  next
    case (remote_answered v to m line es)
    have "v \<in> nodes g" "to \<in> nodes g" using target [OF remote_answered(2)] by simp_all
    from remote_weight_change [OF this, of t s] show ?thesis
      using share [OF remote_answered(2)] pending_weight_fresh [of g 0 es]
      by (simp add: remote_answered(1) waiting_weight_def)
  next
    case (remote_refused v to m line es)
    have "v \<in> nodes g" "to \<in> nodes g" using target [OF remote_refused(2)] by simp_all
    from remote_weight_change [OF this, of t s] show ?thesis
      using attempt_failed_weight [OF remote_refused(2) tries, of g] by (simp add: remote_refused(1) attempt_failed_other)
  next
    case (remote_timeout v to m line es)
    have "v \<in> nodes g" "to \<in> nodes g" using target [OF remote_timeout(2)] by simp_all
    from remote_weight_change [OF this, of t s] show ?thesis
      using attempt_failed_weight [OF remote_timeout(2) tries, of g]
      by (simp add: remote_timeout(1) attempt_failed_other attempt_failed_wire waiting_weight_def)
  next
    case (remote_arrived v xs m ys)
    have "v \<in> nodes g" using waiting [OF remote_arrived(2)] .
    from remote_weight_change [OF this this, of t s] show ?thesis
      using remote_arrived(2) by (simp add: remote_arrived(1) waiting_weight_def)
  next
    case (remote_dropped v xs m ys)
    have "v \<in> nodes g" using waiting [OF remote_dropped(2)] .
    from remote_weight_change [OF this this, of t s] show ?thesis
      using remote_dropped(2) by (simp add: remote_dropped(1) waiting_weight_def)
  next
    case (remote_logged v line es)
    have "v \<in> nodes g" using remote_head(1) [OF ok remote_logged(2)] .
    from remote_weight_change [OF this this, of t s] show ?thesis
      using remote_logged(2) pending_weight_fresh [of g "tries s v" es] by (simp add: remote_logged(1))
  next
    case (remote_result v r es)
    have "v \<in> nodes g" using remote_head(1) [OF ok remote_result(2)] .
    from remote_weight_change [OF this this, of t s] show ?thesis
      using remote_result(2) pending_weight_fresh [of g "tries s v" es] by (simp add: remote_result(1))
  qed
qed

interpretation remote_run: terminating_system
  "\<lambda>s. fed_bound g \<and> s = remote_start g" "remote_step g" "\<lambda>s. fed_bound g \<and> remote_inv g s \<and> attempts_ok s"
  "remote_weight g" for g
proof unfold_locales
  show "fed_bound g \<and> s = remote_start g \<Longrightarrow> fed_bound g \<and> remote_inv g s \<and> attempts_ok s" for s
    using remote_inv_start by (auto simp: attempts_ok_def remote_start_def fed_net.defs)
qed (auto intro: remote_inv_step attempts_ok_step remote_step_weight)

lemma remote_weight_start: "remote_weight g (remote_start g) = length (fc_starts g) * (531 + 5330 * fc_workers g)"
proof -
  have "waiting_weight g (boxes (remote_start g) v) (wire (remote_start g) v) =
      (if v = Coord then length (fc_starts g) * (531 + 5330 * fc_workers g) else 0)" for v
    by (simp add: waiting_weight_def remote_start_def fed_start_def fed_net.defs o_def sum_list_triv send_attempts_def
        update_weight_def request_weight_def)
  moreover have "pending_weight g (tries (remote_start g) v) (outbox (remote_start g) v) = 0" for v
    by (simp add: remote_start_def fed_start_def fed_net.defs)
  ultimately show ?thesis by (simp add: remote_weight_def nodes_def)
qed

section \<open>Local runs are remote runs\<close>

definition over_wire :: "fed_net \<Rightarrow> remote_net" where
  "over_wire s = fed_net.extend s \<lparr>tries = (\<lambda>_. 0), wire = (\<lambda>_. [])\<rparr>"

lemma over_wire_simps [simp]:
  "boxes (over_wire s) = boxes s" "outbox (over_wire s) = outbox s" "results (over_wire s) = results s"
  "fed_handle g rt v m (over_wire s) = over_wire (fed_handle g rt v m s)"
  "(over_wire s)\<lparr>boxes := b\<rparr> = over_wire (s\<lparr>boxes := b\<rparr>)" "(over_wire s)\<lparr>outbox := out\<rparr> = over_wire (s\<lparr>outbox := out\<rparr>)"
  "(over_wire s)\<lparr>results := rs\<rparr> = over_wire (s\<lparr>results := rs\<rparr>)" "(over_wire s)\<lparr>tries := (tries (over_wire s'))(u := 0)\<rparr> = over_wire s"
  by (cases v; simp add: over_wire_def fed_net.defs fed_handle_def fun_eq_iff split: prod.split)+

lemma live_over_wire: "fed_live g s t \<Longrightarrow> remote_step g (over_wire s) (over_wire t)"
proof (induction rule: fed_live.induct)
  case (live_take s v m ms rt)
  then show ?case using remote_take [of "over_wire s" v m ms rt g] by simp
next
  case (live_sent s v to m line es)
  then show ?case using remote_answered [of "over_wire s" v to m line es g] by simp
next
  case (live_logged s v line es)
  then show ?case using remote_logged [of "over_wire s" v line es g] by simp
next
  case (live_result s v r es)
  then show ?case using remote_result [of "over_wire s" v r es g] by simp
qed

lemma reaches_over_wire:
  "reaches (\<lambda>s. s = fed_start g) (fed_live g) s \<Longrightarrow> reaches (\<lambda>s. s = remote_start g) (remote_step g) (over_wire s)"
proof (induction rule: reaches.induct)
  case (reaches_start s)
  then show ?case by (intro reaches.reaches_start) (simp add: over_wire_def remote_start_def)
next
  case (reaches_step s t)
  then show ?case using reaches.reaches_step live_over_wire by metis
qed

section \<open>Properties\<close>

text \<open>C16: Every result of a round over remote references comes from its own round: whatever is lost, delayed
or delivered several times, a result carries the id of a started round, and its metrics are those of the
model trained at one place on partitions of that round which their workers could load, at least as many
as there are workers; a partition counts as often as its update was delivered.\<close>

theorem remote_result_sources:
  assumes "fed_bound g" and "reaches (\<lambda>s. s = remote_start g) (remote_step g) s" and "x \<in> set (results s)"
  shows "\<exists>j ids recs rt. 1 \<le> j \<and> j \<le> length (fed_rounds g) \<and> rr_RoundID x = of_nat j \<and> set ids \<subseteq> {..<fc_workers g} \<and>
    \<not> int64_gt (of_nat (fc_workers g)) (of_nat (length ids)) \<and>
    (\<forall>i\<in>set ids. Load (fc_files g i) (fed_rounds g ! (j - 1) ! i) = Inr (recs i)) \<and> map_runtime rt \<and>
    rr_Metrics x = Evaluate (fc_fpu g) rt
      (Aggregate (fc_fpu g) sorted_runtime [CountLocal (concat (map recs ids))]) (fc_test g)"
proof -
  have "reaches (\<lambda>s. fed_bound g \<and> s = remote_start g) (remote_step g) s"
    by (rule reaches_mono [OF assms(2)]) (simp add: assms(1))
  then have "remote_inv g s" using remote_sys.reaches_good by blast
  then obtain k where ok: "remote_ok g k s" by (auto simp: remote_inv_def)
  then have "source_ok g k x" using assms(3) by (simp add: remote_ok_def)
  then obtain j us rt where j: "j \<in> {1..k}" "rr_RoundID x = of_nat j" and us: "complete_updates g j us" and rt: "map_runtime rt"
    and x: "rr_Metrics x = Evaluate (fc_fpu g) rt (Aggregate (fc_fpu g) sorted_runtime us) (fc_test g)"
    unfolding source_ok_def by blast
  let ?load = "\<lambda>i. Load (fc_files g i) (fed_rounds g ! (j - 1) ! i)"
  have "\<forall>u\<in>set us. \<exists>i. i < fc_workers g \<and> (\<exists>rs. ?load i = Inr rs \<and> u = CountLocal rs)"
    using us unfolding complete_updates_def shard_counts_def by blast
  then obtain w where w: "\<forall>u\<in>set us. w u < fc_workers g \<and> (\<exists>rs. ?load (w u) = Inr rs \<and> u = CountLocal rs)"
    by (rule bchoice [THEN exE])
  define recs where "recs i = (case ?load i of Inr rs \<Rightarrow> rs | Inl _ \<Rightarrow> [])" for i
  have recs: "?load (w u) = Inr (recs (w u)) \<and> u = CountLocal (recs (w u))" if "u \<in> set us" for u
    using w that by (auto simp: recs_def)
  have "us = map CountLocal (map recs (map w us))" using recs by (simp add: map_idI)
  moreover have "Aggregate (fc_fpu g) sorted_runtime (map CountLocal (map recs (map w us))) =
      Aggregate (fc_fpu g) sorted_runtime [CountLocal (concat (map recs (map w us)))]"
    by (rule Aggregate_shards) simp_all
  ultimately have "Aggregate (fc_fpu g) sorted_runtime us = Aggregate (fc_fpu g) sorted_runtime [CountLocal (concat (map recs (map w us)))]"
    by simp
  moreover have "1 \<le> j" "j \<le> length (fed_rounds g)" using j(1) ok by (auto simp: remote_ok_def actors_ok_def)
  ultimately show ?thesis using j(2) x rt us w recs
    by (intro exI [of _ j] exI [of _ "map w us"] exI [of _ recs] exI [of _ rt]) (auto simp: complete_updates_def)
qed

text \<open>C15: Training over remote references terminates too: with up to ten attempts for every send, each of which may
deliver late or not at all, a run takes at most 531 + 5330n steps for each training request.\<close>

theorem remote_terminates:
  assumes "fed_bound g" and "(remote_step g ^^ m) (remote_start g) s"
  shows "m \<le> length (fc_starts g) * (531 + 5330 * fc_workers g)"
proof -
  have "fed_bound g \<and> remote_inv g (remote_start g) \<and> attempts_ok (remote_start g)"
    using assms(1) remote_run.start_good by blast
  from remote_run.run_weight [OF this assms(2)] show ?thesis by (simp add: remote_weight_start)
qed

theorem remote_result_sources_witness:
  "\<exists>(x :: round_result) j ids recs rt. 1 \<le> j \<and> j \<le> length (fed_rounds demo_config) \<and> rr_RoundID x = of_nat j \<and> set ids \<subseteq> {..<fc_workers demo_config} \<and>
    \<not> int64_gt (of_nat (fc_workers demo_config)) (of_nat (length ids)) \<and>
    (\<forall>i\<in>set ids. Load (fc_files demo_config i) (fed_rounds demo_config ! (j - 1) ! i) = Inr (recs i)) \<and> map_runtime rt \<and>
    rr_Metrics x = Evaluate (fc_fpu demo_config) rt
      (Aggregate (fc_fpu demo_config) sorted_runtime [CountLocal (concat (map recs ids))]) (fc_test demo_config)"
proof -
  obtain s where s: "reaches (\<lambda>s. s = fed_start demo_config) (fed_live demo_config) s" "\<nexists>t. fed_live demo_config s t"
    by (rule fed_maximal [OF demo_config_facts(1)])
  obtain x where x: "x \<in> set (results (over_wire s))"
    using stuck_completes [OF demo_config_facts(1) s, of 1] demo_config_facts by auto
  show ?thesis
    by (rule exI [of _ x], rule remote_result_sources [OF demo_config_facts(1) reaches_over_wire [OF s(1)] x])
qed

theorem remote_terminates_witness:
  "\<exists>s. (remote_step demo_config ^^ 1) (remote_start demo_config) s \<and>
    1 \<le> length (fc_starts demo_config) * (531 + 5330 * fc_workers demo_config)"
proof -
  have "outbox (remote_start demo_config) Coord = []" "boxes (remote_start demo_config) Coord = [StartTraining [''w'', ''w'']]"
    by (simp_all add: remote_start_def fed_start_def fed_net.defs demo_config_def)
  then obtain s where s: "(remote_step demo_config ^^ 1) (remote_start demo_config) s"
    using remote_take [of "remote_start demo_config" Coord _ "[]" sorted_runtime] by fastforce
  then show ?thesis using remote_terminates [OF demo_config_facts(1) s] by blast
qed

end
