(* ===== verification/Spec2Isabelle.thy ===== *)
theory Spec2Isabelle
  imports Registry DemoRuntime ClusterNode ClusterNet FedRemote
begin

text \<open>
  \<^bold>\<open>A verification library for the SMS spam validation system and its actor framework.\<close>

  \<^bold>\<open>The program.\<close>  A small actor framework (\<^verbatim>\<open>pkg/actor\<close>) with a gRPC transport
  (\<^verbatim>\<open>pkg/actor/remote\<close>) carries federated training of a Naive Bayes spam filter
  (\<^verbatim>\<open>internal/fl\<close>, \<^verbatim>\<open>internal/nb\<close>, \<^verbatim>\<open>internal/dataset\<close>),
  two ways for nodes to find each other (\<^verbatim>\<open>internal/cluster\<close>) and a membership registry with
  a replicated counter (\<^verbatim>\<open>internal/registry\<close>, \<^verbatim>\<open>internal/crdt\<close>).
  \<^verbatim>\<open>cmd/fl-demo\<close> runs a round in one process, \<^verbatim>\<open>cmd/cluster-node\<close> one role of it per
  process.  The coordinator tells the aggregator how many updates to expect and each worker which partition
  to load; workers send their counts to the aggregator, which sends the combined model to the coordinator,
  which evaluates it and reports the metrics to the driver program.

  \<^bold>\<open>Foundations.\<close>
  \<^item> \<^theory_text>\<open>GoPrelude\<close>: 64-bit integers, Go maps as finite maps, iteration orders.  A range loop
    over a map is a fold over an order that is a parameter; a \<open>runtime\<close> is a tree of such orders, one
    branch per loop, so a theorem for every runtime holds for every order the Go runtime picks.
  \<^item> \<^theory_text>\<open>GoFloat\<close>: \<^verbatim>\<open>float64\<close> with NaN and infinities over a rounding function that is a
    parameter (\<open>ieee_rounding\<close> says what is used of it).
  \<^item> \<^theory_text>\<open>GoSlice\<close>, \<^theory_text>\<open>GoNet\<close>: the functions of the standard library on slices, strings, numbers,
    host and port pairs, and paths.
  \<^item> \<^theory_text>\<open>Transition\<close>: reachable states and the interfaces \<open>safe_system\<close> (inductive invariants),
    \<open>terminating_system\<close> (a weight that every step lowers), \<open>membership\<close> (join, leave, lookup) and
    \<open>fifo_channel\<close>.

  \<^bold>\<open>Data and learning.\<close>
  \<^item> \<^theory_text>\<open>GCounter\<close> (\<^verbatim>\<open>gcounter.go\<close>): the counter; merging is the pointwise maximum and all
    orders of merging agree.  \<^theory_text>\<open>Registry\<close> (\<^verbatim>\<open>registry.go\<close>): the registry actor; its
    members are given by the last join or leave, and gossip between replicas never counts a round too many
    and converges.
  \<^item> \<^theory_text>\<open>Dataset\<close> (\<^verbatim>\<open>dataset.go\<close>): tokens, loading, saving, splitting and partitioning, on a
    file system of bytes with failures.
  \<^item> \<^theory_text>\<open>NaiveBayes\<close> (\<^verbatim>\<open>nb.go\<close>) has the definitions, \<^theory_text>\<open>NaiveBayesLaws\<close> the closed
    form of \<open>Aggregate\<close> and its additivity over shards, \<^theory_text>\<open>NaiveBayesSpec\<close> the properties
    of prediction and evaluation.

  \<^bold>\<open>Actors.\<close>
  \<^item> \<^theory_text>\<open>ActorCell\<close> (\<^verbatim>\<open>mailbox.go\<close>, \<^verbatim>\<open>cell.go\<close>): a mailbox with its run loop
    and the stop protocol as a step relation, one step per channel operation; first-in first-out delivery,
    delivery of everything accepted before a stop, termination of the protocol.
  \<^item> \<^theory_text>\<open>ActorBehavior\<close> (\<^verbatim>\<open>cell.go\<close>): handlers, panics, \<^verbatim>\<open>Become\<close>.
    \<^theory_text>\<open>ActorSystem\<close> (\<^verbatim>\<open>system.go\<close>): spawning, lookup, stop and shutdown.
  \<^item> \<^theory_text>\<open>ActorRuntime\<close> (\<^verbatim>\<open>context.go\<close>): the running system, all goroutines of any
    set of actors that send, spawn and stop through their contexts, on the actor system and one cell per actor;
    every cell of it behaves as \<^theory_text>\<open>ActorCell\<close> says, and actors that stop each other never move
    again.  \<^theory_text>\<open>ActorProgress\<close>: such a system halts only with its work done or in a cycle of waits.
  \<^item> \<^theory_text>\<open>Transport\<close> (\<^verbatim>\<open>pid.go\<close>, \<^verbatim>\<open>context.go\<close>, \<^verbatim>\<open>send.go\<close>): telling
    and retrying over an explicit world.  The interface \<open>delivery\<close> is what any reference promises,
    \<open>exact_delivery\<close> what a local PID adds, also amid other goroutines that move between its two
    selects.  Delivered is accepted by the mailbox here.  \<^theory_text>\<open>Remote\<close> (\<^verbatim>\<open>remote.go\<close>): the server and
    the remote reference; \<open>unary_rpc\<close> states what is used of gRPC, and a remote reference is a
    \<open>delivery\<close> by a sublocale.

  \<^bold>\<open>Federated learning.\<close>
  \<^item> \<^theory_text>\<open>FLConvert\<close> (\<^verbatim>\<open>messages.go\<close>, \<^verbatim>\<open>convert.go\<close>) and \<^theory_text>\<open>FLActors\<close>
    (\<^verbatim>\<open>worker.go\<close>, \<^verbatim>\<open>aggregator.go\<close>, \<^verbatim>\<open>coordinator.go\<close>): messages and
    handlers.  A handler is a function to the new state and the list of effects in their order; no handler
    looks at the outcome of a send.
  \<^item> \<^theory_text>\<open>FedRound\<close>: the network of the three kinds of actors as a step relation, with losses and any
    interleaving.  The invariant counts, for every round, what is still in flight as a multiset of local
    counts; from it every result is the centrally trained one.  Its sends are those of local references
    (once or not at all, \<open>perform_send_local\<close>).  \<^theory_text>\<open>FedLive\<close>: a weight on messages and
    effects bounds every run by 7 + 8n steps per training request (n workers), and without losses every
    round whose partitions can be loaded is reported.
  \<^item> \<^theory_text>\<open>FedBounded\<close>: the same network with mailboxes and a channel for the results of any
    capacities, where a full one blocks its sender; it cannot get stuck as long as the coordinator's mailbox and the
    channel hold one message per training request.
  \<^item> \<^theory_text>\<open>FedRuntime\<close>: the coordinator, the aggregator and the workers as actors of
    \<^theory_text>\<open>ActorRuntime\<close>.  Every step after the set-up is a step of \<^theory_text>\<open>FedBounded\<close> or none
    (\<open>settled_sim\<close>): a node's mail is the message its handler has not begun and its mailbox, a node's outbox
    what its handler has still to do.  \<^theory_text>\<open>FedDeploy\<close>: the driver's spawns and first send from the
    empty actor system on; all runs have at most 26 + 25n steps, none deadlocks, and each reports the one
    result, the centrally trained one.
  \<^item> \<^theory_text>\<open>FedRemote\<close>: the same network over remote references, whose sends can arrive late
    or several times; every result still comes from counts of its own round's partitions, and every run is
    finite.

  \<^bold>\<open>Cluster.\<close>
  \<^item> \<^theory_text>\<open>Cluster\<close> (\<^verbatim>\<open>provider.go\<close>, \<^verbatim>\<open>provider_client.go\<close>): the provider's table
    is a \<open>membership\<close>, a client adopts it, and a node registers before it asks.  \<^theory_text>\<open>ClusterNet\<close>:
    a provider and any number of nodes over remote references; the tables of the nodes are right and nested,
    and discovery catches up.
    \<^theory_text>\<open>P2P\<close> (\<^verbatim>\<open>p2p.go\<close>): the gossip actor with its callbacks; its table is a
    \<open>membership\<close> too.

  \<^bold>\<open>Programs.\<close>
  \<^item> \<^theory_text>\<open>Partitions\<close> (\<^verbatim>\<open>writePartitions\<close>), \<^theory_text>\<open>WorkerSpec\<close> (\<^verbatim>\<open>parseWorkers\<close>)
    and \<^theory_text>\<open>Verdict\<close> (baseline, ratio, threshold, and the round over written partitions).
  \<^item> \<^theory_text>\<open>FLDemo\<close> (\<^verbatim>\<open>cmd/fl-demo/main.go\<close>): the set-up wires exactly the network of
    \<^theory_text>\<open>FedRound\<close>; \<^theory_text>\<open>DemoRuntime\<close>: end to end, with its actors as
    goroutines of one actor system, the program reports the central baseline.
    \<^theory_text>\<open>ClusterNode\<close> (\<^verbatim>\<open>cmd/cluster-node/main.go\<close>): every role, the cluster layer and
    main; a serving node is reachable under its id, a coordinator that finishes has run a well-formed round.

  \<^bold>\<open>Conventions.\<close>  Blocking for ever is the value \<open>None\<close> of a world operation (or \<open>Blocked\<close>,
  \<open>NodeHangs\<close>); panics are \<open>None\<close> or \<open>Panic\<close>, \<open>Crashed\<close>; errors are \<open>Inl\<close>.  Counts and round ids
  are words of 64 bits; slice lengths and indices are naturals, with the panic of a slice expression
  written out.  No definition needs fuel: the retry loops count their ten attempts, every other loop
  is structural or has its measure.  In the networks \<open>FedRemote\<close> and \<open>ClusterNet\<close> an attempt is a step and the
  failed attempts of the send in progress are counted in the state.

  \<^bold>\<open>Bounds in hypotheses.\<close>  \<open>fed_bound\<close>: at most \<open>2^63 - 1\<close> workers and training requests,
  what an \<^verbatim>\<open>int\<close> can hold.  Metrics are exact up to \<open>2^53\<close> records, what a \<^verbatim>\<open>float64\<close> counts.
  \<open>savable\<close>: records without separators in their fields, lines below the scanner's limit; a file
  without carriage returns gives only such records.  \<open>clear_cut\<close>: no test text is a tie, which Predict
  resolves by map order.

  \<^bold>\<open>Not modelled.\<close>  The generated protobuf and gRPC code, \<^verbatim>\<open>memberlist\<close>, \<^verbatim>\<open>math/rand\<close>
  and the operating system: they are parameters with named contracts.  The channel of
  the results, one place in both programs, is in \<^theory_text>\<open>FedBounded\<close>; in the other networks reporting never
  waits, which is right for one training request (\<open>result_has_room\<close>), and both programs make one.  In \<^theory_text>\<open>FedDeploy\<close> the driver waits for the result without a limit; the deferred
  shutdown after it is in \<^theory_text>\<open>FLDemo\<close>.  The ends of
  connections and the graceful stop of the server have no effect in the model.  Real time appears only as
  the possibility of a timeout.
\<close>

end
